(* ===== verification/Yorha_Prelude.thy ===== *)
theory Yorha_Prelude
  imports Main "HOL-Library.Word"
begin

text \<open>
  Shared vocabulary of the development: the widths of the machine integers, the faults an operation
  of the kernel can end in, bounds-checked access to C arrays (lists of their cells), sequencing of
  fallible computations, and the generic lemmas on lists and words that the component theories use.

  A C array is the list of its cells. Reading or writing outside it is not given a value: the
  operation ends in \<open>Inl Out_of_bounds\<close>. A call of \<open>panic\<close> prints a message, disables the
  interrupts and halts the processor; it is the value \<open>Inl (Panic msg)\<close> and nothing runs after it.
\<close>

unbundle bit_operations_syntax

type_synonym u8 = "8 word"
type_synonym u16 = "16 word"
type_synonym u32 = "32 word"
type_synonym u64 = "64 word"

datatype fault =
    Panic string            \<comment> \<open>\<open>panic(msg)\<close>: the processor is halted\<close>
  | Out_of_bounds           \<comment> \<open>an access outside the object an address points into\<close>
  | Buffer_overflow         \<comment> \<open>a copy past the end of a fixed-size buffer\<close>
  | Null_deref              \<comment> \<open>an access through the null pointer\<close>
  | Page_fault              \<comment> \<open>an access to a page that is not present or not writable\<close>
  | Undefined_shift         \<comment> \<open>a shift by the width of the shifted type\<close>
  | Diverges                \<comment> \<open>a loop whose guard can never become false\<close>

type_synonym 'a res = "fault + 'a"

named_theorems res_simps \<open>unfolding the result type and its sequencing\<close>
named_theorems array_simps \<open>bounds-checked array access\<close>

definition obind :: "'a res \<Rightarrow> ('a \<Rightarrow> 'b res) \<Rightarrow> 'b res" where
  "obind m f = (case m of Inl e \<Rightarrow> Inl e | Inr x \<Rightarrow> f x)"

definition rd :: "'a list \<Rightarrow> nat \<Rightarrow> 'a res" where
  "rd xs i = (if i < length xs then Inr (xs ! i) else Inl Out_of_bounds)"

definition wr :: "'a list \<Rightarrow> nat \<Rightarrow> 'a \<Rightarrow> 'a list res" where
  "wr xs i v = (if i < length xs then Inr (xs[i := v]) else Inl Out_of_bounds)"

definition assert_that :: "bool \<Rightarrow> string \<Rightarrow> unit res" where
  "assert_that b msg = (if b then Inr () else Inl (Panic msg))"

definition w32 :: "nat \<Rightarrow> nat" where
  "w32 n = n mod 4294967296"

definition overlay :: "nat \<Rightarrow> 'a list \<Rightarrow> 'a list \<Rightarrow> 'a list" where
  "overlay off new old = take off old @ new @ drop (off + length new) old"

subsection \<open>Sequencing\<close>

lemma obind_simps [simp, res_simps]:
  "obind (Inr x) f = f x"
  "obind (Inl e) f = Inl e"
  by (simp_all add: obind_def)

lemma obind_Inr_iff: "obind m f = Inr y \<longleftrightarrow> (\<exists>x. m = Inr x \<and> f x = Inr y)"
  by (cases m) simp_all

lemma obind_InrE [elim!]:
  assumes "obind m f = Inr y"
  obtains x where "m = Inr x" and "f x = Inr y"
  using assms by (auto simp: obind_Inr_iff)

lemma obind_cong [fundef_cong]:
  "m = m' \<Longrightarrow> (\<And>x. m' = Inr x \<Longrightarrow> f x = g x) \<Longrightarrow> obind m f = obind m' g"
  by (cases m') simp_all

text \<open>For evaluating closed terms: simplify the first computation of a sequence before the rest.\<close>

lemma obind_weak_cong: "m = m' \<Longrightarrow> obind m f = obind m' f"
  by simp

lemma obind_assoc: "obind (obind m f) g = obind m (\<lambda>x. obind (f x) g)"
  by (cases m) simp_all

lemma assert_that_simps [simp, res_simps]:
  "assert_that True msg = Inr ()"
  "assert_that False msg = Inl (Panic msg)"
  by (simp_all add: assert_that_def)

lemma assert_that_Inr [simp]: "assert_that b msg = Inr u \<longleftrightarrow> b"
  by (cases b) (simp_all add: assert_that_def)

subsection \<open>Bounds-checked arrays\<close>

lemma rd_in [simp, array_simps]: "i < length xs \<Longrightarrow> rd xs i = Inr (xs ! i)"
  by (simp add: rd_def)

lemma rd_out [simp, array_simps]: "length xs \<le> i \<Longrightarrow> rd xs i = Inl Out_of_bounds"
  by (simp add: rd_def)

lemma rd_Inr_iff: "rd xs i = Inr v \<longleftrightarrow> i < length xs \<and> xs ! i = v"
  by (auto simp: rd_def)

lemma wr_in [simp, array_simps]: "i < length xs \<Longrightarrow> wr xs i v = Inr (xs[i := v])"
  by (simp add: wr_def)

lemma wr_out [simp, array_simps]: "length xs \<le> i \<Longrightarrow> wr xs i v = Inl Out_of_bounds"
  by (simp add: wr_def)

lemma wr_Inr_iff: "wr xs i v = Inr ys \<longleftrightarrow> i < length xs \<and> ys = xs[i := v]"
  by (auto simp: wr_def)

lemma ex_update_iff:
  "k < length xs \<Longrightarrow>
   (\<exists>i < length (xs[k := e]). P (xs[k := e] ! i)) \<longleftrightarrow> P e \<or> (\<exists>i < length xs. i \<noteq> k \<and> P (xs ! i))"
  by (auto simp: nth_list_update split: if_splits)

subsection \<open>Splicing a run of cells into an array\<close>

lemma length_overlay [simp]:
  "off + length new \<le> length old \<Longrightarrow> length (overlay off new old) = length old"
  by (simp add: overlay_def)

lemma nth_overlay:
  "off + length new \<le> length old \<Longrightarrow> i < length old \<Longrightarrow>
   overlay off new old ! i =
     (if off \<le> i \<and> i < off + length new then new ! (i - off) else old ! i)"
  by (auto simp: overlay_def nth_append min_def)

lemma overlay_Nil [simp]: "overlay off [] old = old"
  by (simp add: overlay_def)

lemma take_drop_overlay_same [simp]:
  "off + length new \<le> length old \<Longrightarrow> take (length new) (drop off (overlay off new old)) = new"
  by (simp add: overlay_def)

lemma take_drop_overlay_other:
  assumes "off + length new \<le> length old"
    and "a + n \<le> length old" and "a + n \<le> off \<or> off + length new \<le> a"
  shows "take n (drop a (overlay off new old)) = take n (drop a old)"
  using assms by (intro nth_equalityI) (auto simp: nth_overlay)

lemma overlay_split: "overlay off (xs @ ys) old = overlay off xs (overlay (off + length xs) ys old)"
  if "off + length xs + length ys \<le> length old"
  using that by (intro nth_equalityI) (auto simp: nth_overlay nth_append)

lemma overlay_idem [simp]:
  "off + length new \<le> length old \<Longrightarrow> length new' = length new \<Longrightarrow>
   overlay off new (overlay off new' old) = overlay off new old"
  by (intro nth_equalityI) (auto simp: nth_overlay)

lemma concat_chunk:
  "(\<And>x. x \<in> set xs \<Longrightarrow> length (f x) = m) \<Longrightarrow> i < length xs \<Longrightarrow> take m (drop (m * i) (concat (map f xs) @ rest)) = f (xs ! i)"
proof (induction xs arbitrary: i)
  case (Cons x xs)
  then show ?case by (cases i) (simp_all add: algebra_simps)
qed simp

lemma length_concat_const: "(\<And>x. x \<in> set xs \<Longrightarrow> length (f x) = m) \<Longrightarrow> length (concat (map f xs)) = m * length xs"
  by (induction xs) simp_all

lemma overlay_snoc:
  "off + length xs < length old \<Longrightarrow> (overlay off xs old)[off + length xs := v] = overlay off (xs @ [v]) old"
  by (intro nth_equalityI) (auto simp: nth_overlay nth_list_update nth_append)

lemma overlay_Cons:
  "Suc off + length xs \<le> length old \<Longrightarrow> (overlay (Suc off) xs old)[off := v] = overlay off (v # xs) old"
  by (intro nth_equalityI) (auto simp: nth_overlay nth_list_update nth_Cons' )

lemma overlay_step:
  assumes "p + Suc m \<le> length dst" and "i + Suc m \<le> length src"
  shows "overlay (p + 1) (take m (drop (i + 1) src)) (dst[p := src ! i]) = overlay p (take (Suc m) (drop i src)) dst"
proof -
  have "take (Suc m) (drop i src) = src ! i # take m (drop (Suc i) src)"
    using assms(2) by (simp add: Cons_nth_drop_Suc [symmetric])
  moreover have "overlay (Suc p) xs (dst[p := v]) = (overlay (Suc p) xs dst)[p := v]" for v xs
    using assms(1) by (simp add: overlay_def take_update_swap list_update_append drop_update_cancel)
  ultimately show ?thesis using assms overlay_Cons [of p "take m (drop (Suc i) src)" dst "src ! i"] by simp
qed

subsection \<open>Finite maps\<close>

lemma map_eqI: "(\<And>k v. m k = Some v \<longleftrightarrow> m' k = Some v) \<Longrightarrow> m = m'"
  by (rule ext) (metis not_Some_eq)

subsection \<open>Machine integers\<close>

lemma w32_small [simp]: "n < 4294967296 \<Longrightarrow> w32 n = n"
  by (simp add: w32_def)

lemma w32_less [simp]: "w32 n < 4294967296"
  by (simp add: w32_def)

lemma bit_exp_minus_one [simp]: "bit (2 ^ n - 1 :: u32) k \<longleftrightarrow> k < n \<and> k < 32"
  by (auto simp: mask_eq_exp_minus_1 [symmetric] bit_mask_iff)

lemma le_div_mod_iff:
  fixes a b d :: nat
  assumes "0 < d"
  shows "a \<le> b \<longleftrightarrow> a div d < b div d \<or> a div d = b div d \<and> a mod d \<le> b mod d"
proof -
  have ab: "a = d * (a div d) + a mod d" "b = d * (b div d) + b mod d" by simp_all
  have lt: "a mod d < d" "b mod d < d" using assms by simp_all
  show ?thesis
  proof (cases "a div d" "b div d" rule: linorder_cases)
    case less
    then have "d * Suc (a div d) \<le> d * (b div d)" by (intro mult_le_mono) simp_all
    then have "d * (a div d) + d \<le> d * (b div d)" by simp
    then have "a \<le> b" using ab lt by linarith
    then show ?thesis using less by simp
  next
    case equal
    then show ?thesis using ab by (metis add_le_cancel_left nat_less_le)
  next
    case greater
    then have "b < a" by (metis div_le_mono not_le)
    then show ?thesis using greater by simp
  qed
qed

lemma less_div_mod_iff:
  fixes a b d :: nat
  assumes "0 < d"
  shows "a < b \<longleftrightarrow> a div d < b div d \<or> a div d = b div d \<and> a mod d < b mod d"
  using le_div_mod_iff [OF assms, of b a] by (auto simp: not_le [symmetric])

lemma bit_not_u32: "bit (NOT w :: u32) k \<longleftrightarrow> k < 32 \<and> \<not> bit w k"
  by (simp add: bit_not_iff possible_bit_def)

end
