(* ===== verification/Bitmap.thy ===== *)
theory Bitmap
  imports Yorha_Prelude
begin

text \<open>
  The occupation bitmaps of \<open>src/src/util.c\<close>: \<open>apply_bitrange\<close>, \<open>alloc_bitrange\<close> and
  \<open>dealloc_bitrange\<close>, which the heap, the page allocator, the inode and data-block maps and the
  file-descriptor table all share.

  A bitmap is an array of 32-bit words; position \<open>p\<close> is bit \<open>31 - p mod 32\<close> of word \<open>p div 32\<close>
  (the code counts bits from the left). Indices and lengths are \<open>nat\<close> with the 32-bit wrap-around of
  \<open>uint32_t\<close> written as \<open>w32\<close>; the masks are 32-bit words. The loop counter of \<open>apply_bitrange\<close>
  is a \<open>uint16_t\<close>: when it would step past 65535 while the guard still holds, it restarts at 0 and
  the guard holds for ever, which the model reports as \<open>Diverges\<close>. A shift of \<open>1\<close> by 32 is
  reported as \<open>Undefined_shift\<close>; shifts by at most 31 and the subtraction of 1 from their
  result are those of two's complement 32-bit arithmetic.
\<close>

section \<open>Definitions\<close>

record BitRange =
  br_start :: nat
  br_length :: nat

definition no_range :: BitRange where
  "no_range = \<lparr>br_start = 0, br_length = 0\<rparr>"

definition set_bits :: "bool \<Rightarrow> u32 \<Rightarrow> u32 \<Rightarrow> u32" where
  "set_bits s w m = (if s then w OR m else w AND NOT m)"

definition left_mask :: "nat \<Rightarrow> u32" where
  "left_mask start_bit = (if start_bit \<noteq> 0 then push_bit (32 - start_bit) 1 - 1 else NOT 0)"

definition right_mask :: "nat \<Rightarrow> u32" where
  "right_mask end_bit = push_bit (32 - end_bit) 1 - 1"

definition word_coeff :: "nat \<Rightarrow> nat \<Rightarrow> nat \<Rightarrow> nat \<Rightarrow> nat \<Rightarrow> u32" where
  "word_coeff start_word start_bit end_word end_bit word =
     (if word = start_word then left_mask start_bit
      else if word = end_word then (if end_bit \<noteq> 0 then NOT (right_mask end_bit) else 0)
      else NOT 0)"

function apply_words ::
    "u32 list \<Rightarrow> bool \<Rightarrow> nat \<Rightarrow> nat \<Rightarrow> nat \<Rightarrow> nat \<Rightarrow> nat \<Rightarrow> u32 list res" where
  "apply_words bitmap s start_word start_bit end_word end_bit word =
     (if word \<le> end_word then
        if start_word = end_word then
          if end_bit = 0 then Inl Undefined_shift
          else obind (rd bitmap word) (\<lambda>w.
                 wr bitmap word (set_bits s w (left_mask start_bit XOR right_mask end_bit)))
        else obind (rd bitmap word) (\<lambda>w.
               if word = 65535 then Inl Diverges
               else apply_words
                      (bitmap[word := set_bits s w
                         (word_coeff start_word start_bit end_word end_bit word)])
                      s start_word start_bit end_word end_bit (word + 1))
      else Inr bitmap)"
  by pat_completeness auto
termination
  by (relation "measure (\<lambda>(bitmap, s, sw, sb, ew, eb, word). Suc ew - word)") auto

definition apply_bitrange :: "u32 list \<Rightarrow> BitRange \<Rightarrow> bool \<Rightarrow> u32 list res" where
  "apply_bitrange bitmap rng s =
     (if br_length rng = 0 \<and> br_start rng = 0 then Inr bitmap
      else let start_word = br_start rng div 32;
               start_bit = br_start rng mod 32;
               end_word = w32 (br_start rng + br_length rng) div 32;
               end_bit = w32 (br_start rng + br_length rng) mod 32
           in apply_words bitmap s start_word start_bit end_word end_bit (start_word mod 65536))"

text \<open>
  The two nested loops of \<open>alloc_bitrange\<close>: \<open>i\<close> counts words, \<open>b\<close> is the bit index, from 31
  down to 0. Finding a used bit restarts the candidate run behind it; with \<open>word_align\<close> the bit
  index is first rounded down to a multiple of 4.
\<close>

definition scan_bit :: "bool \<Rightarrow> nat \<Rightarrow> nat \<Rightarrow> u32 \<Rightarrow> nat \<Rightarrow> nat \<Rightarrow> nat \<times> nat \<times> nat" where
  "scan_bit word_align i b w curr_start curr_length =
     (if bit w b then
        let b' = (if word_align then b - b mod 4 else b)
        in (b', if b' \<noteq> 0 then w32 (i * 32 + (31 - (b' - 1))) else w32 ((i + 1) * 32), 0)
      else (b, curr_start, w32 (curr_length + 1)))"

function alloc_scan ::
    "u32 list \<Rightarrow> nat \<Rightarrow> nat \<Rightarrow> bool \<Rightarrow> nat \<Rightarrow> nat \<Rightarrow> nat \<Rightarrow> nat \<Rightarrow> BitRange option res" where
  "alloc_scan bitmap nwords count word_align i b curr_start curr_length =
     (if i < nwords then
        obind (rd bitmap i) (\<lambda>w.
          case scan_bit word_align i b w curr_start curr_length of (b', cs', cl') \<Rightarrow>
            if cl' = count then Inr (Some \<lparr>br_start = cs', br_length = cl'\<rparr>)
            else if b' = 0 then alloc_scan bitmap nwords count word_align (i + 1) 31 cs' cl'
            else alloc_scan bitmap nwords count word_align i (b' - 1) cs' cl')
      else Inr None)"
  by pat_completeness auto
termination
  by (relation "measures [\<lambda>(bm, n, c, a, i, b, cs, cl). n - i, \<lambda>(bm, n, c, a, i, b, cs, cl). b]")
     (auto simp: scan_bit_def Let_def split: if_splits)

definition alloc_bitrange ::
    "u32 list \<Rightarrow> nat \<Rightarrow> nat \<Rightarrow> bool \<Rightarrow> (BitRange \<times> u32 list) res" where
  "alloc_bitrange bitmap capacity count word_align =
     obind (alloc_scan bitmap (capacity div 4) count word_align 0 31 0 0) (\<lambda>found.
       case found of
         None \<Rightarrow> Inr (no_range, bitmap)
       | Some rng \<Rightarrow> obind (apply_bitrange bitmap rng True) (\<lambda>bitmap'. Inr (rng, bitmap')))"

definition dealloc_bitrange :: "u32 list \<Rightarrow> BitRange \<Rightarrow> u32 list res" where
  "dealloc_bitrange bitmap rng = apply_bitrange bitmap rng False"

text \<open>What a bitmap means: which positions are occupied, and when a run of positions is free.\<close>

definition bm_bit :: "u32 list \<Rightarrow> nat \<Rightarrow> bool" where
  "bm_bit bitmap p = bit (bitmap ! (p div 32)) (31 - p mod 32)"

definition bm_used :: "u32 list \<Rightarrow> nat set" where
  "bm_used bitmap = {p. p < 32 * length bitmap \<and> bm_bit bitmap p}"

definition free_run :: "u32 list \<Rightarrow> nat \<Rightarrow> nat \<Rightarrow> bool" where
  "free_run bitmap s n \<longleftrightarrow> (\<forall>p < n. \<not> bm_bit bitmap (s + p))"

definition step_of :: "bool \<Rightarrow> nat" where
  "step_of word_align = (if word_align then 4 else 1)"

definition run_fits :: "u32 list \<Rightarrow> nat \<Rightarrow> nat \<Rightarrow> bool \<Rightarrow> nat \<Rightarrow> bool" where
  "run_fits bitmap limit count word_align s \<longleftrightarrow>
     s mod step_of word_align = 0 \<and> s + count \<le> limit \<and> free_run bitmap s count"

fun disjoint_ranges :: "BitRange list \<Rightarrow> bool" where
  "disjoint_ranges [] \<longleftrightarrow> True"
| "disjoint_ranges (r # rs) \<longleftrightarrow>
     0 < br_length r \<and> (\<forall>r' \<in> set rs. br_start r + br_length r \<le> br_start r' \<or> br_start r' + br_length r' \<le> br_start r)
     \<and> disjoint_ranges rs"

definition br_set :: "BitRange \<Rightarrow> nat set" where
  "br_set r = {br_start r ..< br_start r + br_length r}"

declare apply_words.simps [simp del] alloc_scan.simps [simp del]

section \<open>Setting and clearing a range\<close>

lemma bit_set_bits: "bit (set_bits s w m) k \<longleftrightarrow> (if bit m k then s else bit w k)"
  by (cases "k < 32") (auto simp: set_bits_def bit_simps dest: bit_imp_le_length)

lemma bit_left_mask: "k < 32 \<Longrightarrow> sb < 32 \<Longrightarrow> bit (left_mask sb) k \<longleftrightarrow> k < 32 - sb"
  by (auto simp: left_mask_def bit_not_u32)

lemma bit_right_mask: "k < 32 \<Longrightarrow> bit (right_mask eb) k \<longleftrightarrow> k < 32 - eb"
  by (auto simp: right_mask_def)

lemmas mask_bits = bit_set_bits bit_left_mask bit_right_mask bit_not_u32

lemma apply_words_many:
  assumes "start_word \<noteq> end_word" and "end_word < length bitmap" and "end_word < 65535"
    and "word \<le> Suc end_word"
  shows "\<exists>bm'. apply_words bitmap s start_word start_bit end_word end_bit word = Inr bm'
    \<and> length bm' = length bitmap
    \<and> (\<forall>k < length bitmap. bm' ! k =
         (if word \<le> k \<and> k \<le> end_word
          then set_bits s (bitmap ! k) (word_coeff start_word start_bit end_word end_bit k)
          else bitmap ! k))"
  using assms
proof (induction bitmap s start_word start_bit end_word end_bit word rule: apply_words.induct)
  case (1 bitmap s start_word start_bit end_word end_bit word)
  show ?case
  proof (cases "word \<le> end_word")
    case False
    then show ?thesis
      using "1.prems" by (auto simp: apply_words.simps [of bitmap])
  next
    case True
    let ?bm = "bitmap[word := set_bits s (bitmap ! word)
                  (word_coeff start_word start_bit end_word end_bit word)]"
    have "\<exists>bm'. apply_words ?bm s start_word start_bit end_word end_bit (word + 1) = Inr bm'
      \<and> length bm' = length ?bm
      \<and> (\<forall>k < length ?bm. bm' ! k =
         (if word + 1 \<le> k \<and> k \<le> end_word
          then set_bits s (?bm ! k) (word_coeff start_word start_bit end_word end_bit k)
          else ?bm ! k))"
      using "1.prems" True by (intro "1.IH") auto
    then obtain bm' where bm': "apply_words ?bm s start_word start_bit end_word end_bit (word + 1) = Inr bm'"
        "length bm' = length bitmap"
      and nth: "\<And>k. k < length bitmap \<Longrightarrow> bm' ! k =
         (if word + 1 \<le> k \<and> k \<le> end_word
          then set_bits s (?bm ! k) (word_coeff start_word start_bit end_word end_bit k)
          else ?bm ! k)"
      by auto
    have "apply_words bitmap s start_word start_bit end_word end_bit word = Inr bm'"
      using "1.prems" True bm' by (simp add: apply_words.simps [of bitmap])
    then show ?thesis
      using bm' nth "1.prems" True by (auto simp: nth_list_update le_Suc_eq not_less_eq_eq)
  qed
qed

lemma bit_same_word_mask:
  assumes "sb < eb" and "eb < 32" and "k < 32"
  shows "bit (left_mask sb XOR right_mask eb) (31 - k) \<longleftrightarrow> sb \<le> k \<and> k < eb"
  using assms by (auto simp: bit_xor_iff mask_bits)

lemma bit_word_coeff:
  assumes "sw < ew" and "sb < 32" and "eb < 32" and "k < 32"
  shows "bit (word_coeff sw sb ew eb w) (31 - k) \<longleftrightarrow>
    (if w = sw then sb \<le> k else if w = ew then k < eb else True)"
  using assms by (auto simp: word_coeff_def mask_bits)

lemma in_range_div_mod_iff:
  fixes s n p :: nat
  assumes "s div 32 < (s + n) div 32"
  shows "s \<le> p \<and> p < s + n \<longleftrightarrow>
    s div 32 \<le> p div 32 \<and> p div 32 \<le> (s + n) div 32 \<and>
    (if p div 32 = s div 32 then s mod 32 \<le> p mod 32
     else if p div 32 = (s + n) div 32 then p mod 32 < (s + n) mod 32 else True)"
  using assms by (auto simp: le_div_mod_iff [of 32 s p] less_div_mod_iff [of 32 p "s + n"])

lemma apply_words_fails:
  assumes "start_word \<noteq> end_word" and "length bitmap \<le> end_word \<or> 65535 \<le> end_word"
    and "word \<le> end_word" and "word \<le> 65535"
  shows "apply_words bitmap s start_word start_bit end_word end_bit word =
    Inl (if length bitmap \<le> 65535 then Out_of_bounds else Diverges)"
  using assms
proof (induction bitmap s start_word start_bit end_word end_bit word rule: apply_words.induct)
  case (1 bitmap s start_word start_bit end_word end_bit word)
  show ?case
  proof (cases "word < length bitmap \<and> word \<noteq> 65535 \<and> word \<noteq> end_word")
    case True
    then show ?thesis
      using "1.IH" [OF _ _ rd_in] "1.prems" by (simp add: apply_words.simps [of bitmap])
  next
    case False
    then show ?thesis
      using "1.prems" by (cases "word < length bitmap") (auto simp: apply_words.simps [of bitmap])
  qed
qed

lemma apply_bitrange_same_word:
  assumes "0 < br_length r" and "br_start r + br_length r < 32 * length bitmap"
    and "br_start r + br_length r < 4294967296" and "br_start r < 2097152"
    and same: "br_start r div 32 = (br_start r + br_length r) div 32"
  shows "\<exists>bm'. apply_bitrange bitmap r s = Inr bm' \<and> length bm' = length bitmap \<and>
    (\<forall>p < 32 * length bitmap. bm_bit bm' p = (if p \<in> br_set r then s else bm_bit bitmap p))"
proof -
  let ?s = "br_start r" and ?e = "br_start r + br_length r"
  have ew: "?s div 32 < length bitmap" using assms(2) same by (simp add: div_less_iff_less_mult)
  have lt: "?s mod 32 < ?e mod 32"
    using less_div_mod_iff [of 32 ?s ?e] same assms(1) by simp
  let ?m = "left_mask (?s mod 32) XOR right_mask (?e mod 32)"
  let ?bm = "bitmap[?s div 32 := set_bits s (bitmap ! (?s div 32)) ?m]"
  have "apply_bitrange bitmap r s = Inr ?bm"
    using same lt ew assms by (simp add: apply_bitrange_def Let_def apply_words.simps)
  moreover have "bm_bit ?bm p = (if p \<in> br_set r then s else bm_bit bitmap p)" for p
  proof -
    have "bit ?m (31 - p mod 32) \<longleftrightarrow> ?s mod 32 \<le> p mod 32 \<and> p mod 32 < ?e mod 32"
      using lt by (intro bit_same_word_mask) simp_all
    moreover have "p \<in> br_set r \<longleftrightarrow> p div 32 = ?s div 32 \<and> ?s mod 32 \<le> p mod 32 \<and> p mod 32 < ?e mod 32"
      using same by (auto simp: br_set_def le_div_mod_iff [of 32 ?s p] less_div_mod_iff [of 32 p ?e])
    ultimately show ?thesis
      using ew by (auto simp: bm_bit_def bit_set_bits nth_list_update)
  qed
  ultimately show ?thesis by auto
qed

lemma apply_bitrange_many_words:
  assumes "br_start r + br_length r < 32 * length bitmap"
    and "br_start r + br_length r < 2097120"
    and lt: "br_start r div 32 < (br_start r + br_length r) div 32"
  shows "\<exists>bm'. apply_bitrange bitmap r s = Inr bm' \<and> length bm' = length bitmap \<and>
    (\<forall>p < 32 * length bitmap. bm_bit bm' p = (if p \<in> br_set r then s else bm_bit bitmap p))"
proof -
  let ?s = "br_start r" and ?e = "br_start r + br_length r"
  let ?coeff = "word_coeff (?s div 32) (?s mod 32) (?e div 32) (?e mod 32)"
  have ew: "?e div 32 < length bitmap" "?e div 32 < 65535"
    using assms(1,2) by (simp_all add: div_less_iff_less_mult)
  have "apply_bitrange bitmap r s =
      apply_words bitmap s (?s div 32) (?s mod 32) (?e div 32) (?e mod 32) (?s div 32)"
    using assms(2) lt by (auto simp: apply_bitrange_def Let_def)
  then obtain bm' where bm': "apply_bitrange bitmap r s = Inr bm'" "length bm' = length bitmap"
    and nth: "\<And>k. k < length bitmap \<Longrightarrow> bm' ! k =
       (if ?s div 32 \<le> k \<and> k \<le> ?e div 32 then set_bits s (bitmap ! k) (?coeff k) else bitmap ! k)"
    using apply_words_many [of "?s div 32" "?e div 32" bitmap "?s div 32" s "?s mod 32" "?e mod 32"]
      lt ew by auto
  have "bm_bit bm' p = (if p \<in> br_set r then s else bm_bit bitmap p)" if "p < 32 * length bitmap" for p
  proof -
    have "p div 32 < length bitmap" using that by (simp add: div_less_iff_less_mult)
    moreover have "p \<in> br_set r \<longleftrightarrow> ?s div 32 \<le> p div 32 \<and> p div 32 \<le> ?e div 32 \<and>
      bit (?coeff (p div 32)) (31 - p mod 32)"
      using in_range_div_mod_iff [OF lt, of p] lt by (simp add: br_set_def bit_word_coeff)
    ultimately show ?thesis
      by (auto simp: bm_bit_def nth bit_set_bits)
  qed
  with bm' show ?thesis by auto
qed

text \<open>Setting or clearing a non-empty range that ends before the last position of the bitmap, and
  before word 65535, changes exactly the positions of the range.\<close>

lemma apply_bitrange_bits:
  assumes "0 < br_length r" and "br_start r + br_length r < 32 * length bitmap"
    and "br_start r + br_length r < 2097120"
  shows "\<exists>bm'. apply_bitrange bitmap r s = Inr bm' \<and> length bm' = length bitmap \<and>
    (\<forall>p < 32 * length bitmap. bm_bit bm' p = (if p \<in> br_set r then s else bm_bit bitmap p))"
proof (cases "br_start r div 32 = (br_start r + br_length r) div 32")
  case True
  then show ?thesis using assms by (intro apply_bitrange_same_word) auto
next
  case False
  have "br_start r div 32 \<le> (br_start r + br_length r) div 32" by (simp add: div_le_mono)
  then show ?thesis using assms False by (intro apply_bitrange_many_words) auto
qed

text \<open>Conversely, a call that returns did exactly that: a range that reaches the end of the bitmap,
  or word 65535 from an earlier word, makes the call fail.\<close>

lemma apply_bitrange_sound:
  assumes "0 < br_length r" and "br_start r < 32 * length bitmap"
    and small: "br_start r + br_length r < 4294967296" "br_start r < 2097152"
    and ok: "apply_bitrange bitmap r s = Inr bm'"
  shows "br_start r + br_length r < 32 * length bitmap" and "length bm' = length bitmap"
    and "\<forall>p < 32 * length bitmap. bm_bit bm' p = (if p \<in> br_set r then s else bm_bit bitmap p)"
proof -
  let ?s = "br_start r" and ?e = "br_start r + br_length r"
  have sw: "?s div 32 < length bitmap" "?s div 32 \<le> 65535"
    using assms by (simp_all add: div_less_iff_less_mult)
  have le: "?s div 32 \<le> ?e div 32" by (simp add: div_le_mono)
  have eq: "apply_bitrange bitmap r s =
      apply_words bitmap s (?s div 32) (?s mod 32) (?e div 32) (?e mod 32) (?s div 32)"
    using assms(1) small sw by (simp add: apply_bitrange_def Let_def)
  have in_range: "?e < 32 * length bitmap \<and> (?s div 32 = ?e div 32 \<or> ?e < 2097120)"
  proof (rule ccontr)
    assume neg: "\<not> ?thesis"
    have "?s div 32 \<noteq> ?e div 32 \<and> (length bitmap \<le> ?e div 32 \<or> 65535 \<le> ?e div 32)"
      using neg sw(1) less_div_mod_iff [of 32 ?e "32 * length bitmap"]
      by (auto simp: not_less dest: div_le_mono [of "32 * length bitmap" _ 32] div_le_mono [of 2097120 _ 32])
    then show False
      using apply_words_fails [of "?s div 32" "?e div 32" bitmap "?s div 32" s "?s mod 32" "?e mod 32"]
        eq ok le sw by auto
  qed
  have "\<exists>bm'. apply_bitrange bitmap r s = Inr bm' \<and> length bm' = length bitmap \<and>
    (\<forall>p < 32 * length bitmap. bm_bit bm' p = (if p \<in> br_set r then s else bm_bit bitmap p))"
    using in_range apply_bitrange_same_word [OF assms(1) _ small, of bitmap s]
      apply_bitrange_bits [OF assms(1), of bitmap s] by blast
  with ok in_range show "?e < 32 * length bitmap" and "length bm' = length bitmap"
    and "\<forall>p < 32 * length bitmap. bm_bit bm' p = (if p \<in> br_set r then s else bm_bit bitmap p)"
    by auto
qed

section \<open>First-fit search\<close>

text \<open>Arithmetic of the rounding of the bit index: the next candidate is aligned, and no aligned
  position is skipped.\<close>

lemma next_candidate_aligned:
  assumes "b < 32" and "b' = (if al then b - b mod 4 else b)"
  shows "(32 * i + (32 - b')) mod step_of al = 0" and "b' \<le> b"
proof -
  show "b' \<le> b" using assms(2) by simp
  show "(32 * i + (32 - b')) mod step_of al = 0"
    using assms by (simp add: step_of_def)
qed

lemma no_aligned_skipped:
  assumes "b < 32" and "b' = (if al then b - b mod 4 else b)" and "s mod step_of al = 0"
    and "s < 32 * i + (32 - b')"
  shows "s \<le> 32 * i + (31 - b)"
  using assms by (cases al) (simp_all add: step_of_def, presburger)

lemma bm_bit_word: "b < 32 \<Longrightarrow> bm_bit bitmap (32 * i + (31 - b)) = bit (bitmap ! i) b"
proof -
  assume "b < 32"
  define q where "q = 31 - b"
  have "q < 32" and "b = 31 - q" using \<open>b < 32\<close> by (auto simp: q_def)
  then show ?thesis by (simp add: bm_bit_def q_def [symmetric])
qed

lemma not_free_run: "bm_bit bitmap p \<Longrightarrow> s \<le> p \<Longrightarrow> p < s + n \<Longrightarrow> \<not> free_run bitmap s n"
  by (auto simp: free_run_def intro!: exI [of _ "p - s"])

lemma free_run_Suc:
  "free_run bitmap s n \<Longrightarrow> \<not> bm_bit bitmap (s + n) \<Longrightarrow> free_run bitmap s (Suc n)"
  by (auto simp: free_run_def less_Suc_eq)

text \<open>The loop invariant: the candidate run \<open>[curr_start, curr_start + curr_length)\<close> ends at the
  current position and is free, and no admissible start before it begins a free run of
  \<open>count\<close> positions.\<close>

definition scan_inv :: "u32 list \<Rightarrow> nat \<Rightarrow> bool \<Rightarrow> nat \<Rightarrow> nat \<Rightarrow> nat \<Rightarrow> nat \<Rightarrow> bool" where
  "scan_inv bitmap count al i b cs cl \<longleftrightarrow>
     b < 32 \<and> cs + cl = 32 * i + (31 - b) \<and> cs mod step_of al = 0 \<and> free_run bitmap cs cl \<and>
     cl < count \<and> (\<forall>s < cs. s mod step_of al = 0 \<longrightarrow> \<not> free_run bitmap s count)"

lemma scan_inv_no_fit:
  assumes "scan_inv bitmap count al i b cs cl" and "limit \<le> 32 * i"
  shows "\<not> run_fits bitmap limit count al s"
proof (cases "s < cs")
  case True
  then show ?thesis using assms by (auto simp: scan_inv_def run_fits_def)
next
  case False
  then show ?thesis using assms by (auto simp: scan_inv_def run_fits_def)
qed

lemma scan_inv_next:
  assumes "if b' = 0 then i' = i + 1 \<and> nb = 31 else i' = i \<and> nb = b' - 1"
    and "b' < 32" and "cs + cl = 32 * i + (32 - b')" and "cs mod step_of al = 0"
    and "free_run bitmap cs cl" and "cl < count"
    and "\<And>s. s < cs \<Longrightarrow> s mod step_of al = 0 \<Longrightarrow> \<not> free_run bitmap s count"
  shows "scan_inv bitmap count al i' nb cs cl"
  using assms by (auto simp: scan_inv_def split: if_splits)

lemma scan_inv_used:
  assumes inv: "scan_inv bitmap count al i b cs cl" and used: "bit (bitmap ! i) b"
    and b': "b' = (if al then b - b mod 4 else b)" and s: "s < 32 * i + (32 - b')" "s mod step_of al = 0"
  shows "\<not> free_run bitmap s count"
proof (cases "s < cs")
  case True
  with inv s show ?thesis by (auto simp: scan_inv_def)
next
  case False
  have "b < 32" using inv by (simp add: scan_inv_def)
  then have "s \<le> 32 * i + (31 - b)" using no_aligned_skipped [OF _ b' s(2,1)] by simp
  moreover have "bm_bit bitmap (32 * i + (31 - b))" using used bm_bit_word [OF \<open>b < 32\<close>] by blast
  moreover have "32 * i + (31 - b) < s + count" using inv False by (auto simp: scan_inv_def)
  ultimately show ?thesis
    using not_free_run [of bitmap "32 * i + (31 - b)" s count] by blast
qed

lemma scan_bit_inv:
  assumes inv: "scan_inv bitmap count al i b cs cl" and i: "i < length bitmap" "length bitmap < 134217728"
    and st: "scan_bit al i b (bitmap ! i) cs cl = (b', cs', cl')"
  shows "b' < 32" and "cs' + cl' = 32 * i + (32 - b')" and "cs' mod step_of al = 0"
    and "free_run bitmap cs' cl'" and "cl' \<le> count"
    and "s < cs' \<Longrightarrow> s mod step_of al = 0 \<Longrightarrow> \<not> free_run bitmap s count"
proof -
  have b: "b < 32" "cs + cl = 32 * i + (31 - b)" "cl < count" using inv by (auto simp: scan_inv_def)
  have small: "32 * i + 32 < 4294967296" using i by linarith
  have cl: "w32 (cl + 1) = Suc cl" using b small by (subst w32_small) auto
  have "b' < 32 \<and> cs' + cl' = 32 * i + (32 - b') \<and> cs' mod step_of al = 0 \<and> free_run bitmap cs' cl'
     \<and> cl' \<le> count \<and> (\<forall>s < cs'. s mod step_of al = 0 \<longrightarrow> \<not> free_run bitmap s count)"
  proof (cases "bit (bitmap ! i) b")
    case False
    then have eqs: "b' = b" "cs' = cs" "cl' = Suc cl" using st cl by (auto simp: scan_bit_def)
    have "\<not> bm_bit bitmap (cs + cl)" using False b bm_bit_word [OF b(1)] by simp
    then show ?thesis using inv b by (auto simp: eqs scan_inv_def intro: free_run_Suc)
  next
    case True
    let ?b = "if al then b - b mod 4 else b"
    have eqs: "b' = ?b" "cl' = 0" using st True by (auto simp: scan_bit_def Let_def)
    have b': "b' < 32" using b by (auto simp: eqs)
    have "cs' = (if b' \<noteq> 0 then w32 (i * 32 + (31 - (b' - 1))) else w32 ((i + 1) * 32))"
      using st True by (auto simp: scan_bit_def Let_def)
    also have "\<dots> = 32 * i + (32 - b')"
      using small b' by (cases "b' = 0") (simp_all add: mult.commute)
    finally have cs': "cs' = 32 * i + (32 - b')" .
    have "\<not> free_run bitmap s count" if "s < cs'" "s mod step_of al = 0" for s
      using that by (intro scan_inv_used [OF inv True eqs(1)]) (simp_all add: cs')
    moreover have "free_run bitmap cs' cl'" by (simp add: eqs free_run_def)
    moreover have "cs' mod step_of al = 0"
      using next_candidate_aligned(1) [OF b(1) eqs(1), of i] by (simp only: cs')
    ultimately show ?thesis using b' cs' by (simp add: eqs(2))
  qed
  note all = this
  from all show "b' < 32" and "cs' + cl' = 32 * i + (32 - b')" and "cs' mod step_of al = 0"
    and "free_run bitmap cs' cl'" and "cl' \<le> count" by - (elim conjE, assumption)+
  from all show "\<not> free_run bitmap s count" if "s < cs'" "s mod step_of al = 0"
    using that by (elim conjE) simp
qed

text \<open>What the search returns: the least admissible start, or nothing; and it runs off the array
  when there is nothing and it was told the array is longer than it is.\<close>

definition first_fit :: "u32 list \<Rightarrow> nat \<Rightarrow> nat \<Rightarrow> bool \<Rightarrow> BitRange option res \<Rightarrow> bool" where
  "first_fit bitmap nwords count al r \<longleftrightarrow>
     (let fits = run_fits bitmap (32 * min nwords (length bitmap)) count al
      in (\<exists>s. r = Inr (Some \<lparr>br_start = s, br_length = count\<rparr>) \<and> fits s \<and> (\<forall>s' < s. \<not> fits s'))
       \<or> (\<forall>s. \<not> fits s) \<and> r = (if nwords \<le> length bitmap then Inr None else Inl Out_of_bounds))"

lemma alloc_scan_first_fit:
  assumes "scan_inv bitmap count al i b cs cl" and "length bitmap < 134217728"
    and "i \<le> min nwords (length bitmap)"
  shows "first_fit bitmap nwords count al (alloc_scan bitmap nwords count al i b cs cl)"
  using assms
proof (induction bitmap nwords count al i b cs cl rule: alloc_scan.induct)
  case (1 bitmap nwords count al i b cs cl)
  note inv = "1.prems"(1) and len = "1.prems"(2) and i = "1.prems"(3)
  note unfold = alloc_scan.simps [of bitmap nwords count al i b cs cl]
  show ?case
  proof (cases "i < nwords \<and> i < length bitmap")
    case False
    then have "\<not> run_fits bitmap (32 * min nwords (length bitmap)) count al s" for s
      by (intro scan_inv_no_fit [OF inv]) auto
    moreover have "alloc_scan bitmap nwords count al i b cs cl =
        (if nwords \<le> length bitmap then Inr None else Inl Out_of_bounds)"
      using False i by (subst unfold) auto
    ultimately show ?thesis by (simp add: first_fit_def)
  next
    case True
    then have rdi: "rd bitmap i = Inr (bitmap ! i)" by simp
    obtain b' cs' cl' where st: "scan_bit al i b (bitmap ! i) cs cl = (b', cs', cl')"
      by (cases "scan_bit al i b (bitmap ! i) cs cl")
    note run = scan_bit_inv [OF inv _ len st]
    have eq: "alloc_scan bitmap nwords count al i b cs cl =
        (if cl' = count then Inr (Some \<lparr>br_start = cs', br_length = cl'\<rparr>)
         else if b' = 0 then alloc_scan bitmap nwords count al (i + 1) 31 cs' cl'
         else alloc_scan bitmap nwords count al i (b' - 1) cs' cl')"
      using True by (subst unfold) (simp add: st)
    show ?thesis
    proof (cases "cl' = count")
      case found: True
      have "cs' + count \<le> 32 * min nwords (length bitmap)" using run(1,2) found True by auto
      then have "run_fits bitmap (32 * min nwords (length bitmap)) count al cs'"
        using run(3,4) found True by (simp add: run_fits_def)
      moreover have "\<not> run_fits bitmap (32 * min nwords (length bitmap)) count al s" if "s < cs'" for s
        using run(6) [of s] that True by (auto simp: run_fits_def)
      ultimately show ?thesis using found by (simp add: eq first_fit_def Let_def)
    next
      case False
      have inv': "scan_inv bitmap count al i' nb cs' cl'"
        if "if b' = 0 then i' = i + 1 \<and> nb = 31 else i' = i \<and> nb = b' - 1" for i' nb
        using run True False by (intro scan_inv_next [OF that]) auto
      show ?thesis
      proof (cases "b' = 0")
        case zero: True
        show ?thesis
          using "1.IH"(1) [OF _ rdi st [symmetric] refl False zero] inv' [of "i + 1" 31] zero False True len
          by (simp add: eq)
      next
        case nz: False
        show ?thesis
          using "1.IH"(2) [OF _ rdi st [symmetric] refl False nz] inv' [of i "b' - 1"] nz False True len
          by (simp add: eq)
      qed
    qed
  qed
qed

section \<open>Allocation and release\<close>

lemma scan_inv_init: "0 < count \<Longrightarrow> scan_inv bitmap count al 0 31 0 0"
  by (simp add: scan_inv_def free_run_def)

lemmas alloc_scan_spec = alloc_scan_first_fit [OF scan_inv_init]

lemma run_fits_br_set:
  assumes "run_fits bitmap limit n al s" and "limit \<le> 32 * length bitmap" and "r = \<lparr>br_start = s, br_length = n\<rparr>"
  shows "br_set r \<inter> bm_used bitmap = {}" and "br_set r \<subseteq> {..< limit}"
proof -
  have "\<not> bm_bit bitmap p" if "p \<in> br_set r" for p
    using assms(1) not_free_run [of bitmap p s n] that by (auto simp: br_set_def assms(3) run_fits_def)
  then show "br_set r \<inter> bm_used bitmap = {}" by (auto simp: bm_used_def)
  show "br_set r \<subseteq> {..< limit}" using assms by (auto simp: br_set_def run_fits_def)
qed

lemma bm_used_apply:
  assumes "length bm' = length bitmap" and "br_set r \<subseteq> {..< 32 * length bitmap}"
    and "\<forall>p < 32 * length bitmap. bm_bit bm' p = (if p \<in> br_set r then s else bm_bit bitmap p)"
  shows "bm_used bm' = (if s then bm_used bitmap \<union> br_set r else bm_used bitmap - br_set r)"
  using assms by (auto simp: bm_used_def split: if_splits)

text \<open>The three outcomes of \<open>alloc_bitrange\<close>, for a positive number of positions.\<close>

lemma alloc_bitrange_found:
  assumes "0 < count" and "length bitmap < 134217728"
    and "run_fits bitmap (32 * min (capacity div 4) (length bitmap)) count al s0"
    and "s0 + count < 32 * length bitmap" and "s0 + count < 2097120"
  obtains s bm' where "alloc_bitrange bitmap capacity count al = Inr (\<lparr>br_start = s, br_length = count\<rparr>, bm')"
    and "run_fits bitmap (32 * min (capacity div 4) (length bitmap)) count al s"
    and "\<And>s'. s' < s \<Longrightarrow> \<not> run_fits bitmap (32 * min (capacity div 4) (length bitmap)) count al s'"
    and "length bm' = length bitmap" and "s \<le> s0"
    and "bm_used bm' = bm_used bitmap \<union> {s ..< s + count}"
proof -
  let ?limit = "32 * min (capacity div 4) (length bitmap)"
  have ff: "first_fit bitmap (capacity div 4) count al (alloc_scan bitmap (capacity div 4) count al 0 31 0 0)"
    using assms(1,2) by (intro alloc_scan_spec) auto
  then obtain s where s: "alloc_scan bitmap (capacity div 4) count al 0 31 0 0 = Inr (Some \<lparr>br_start = s, br_length = count\<rparr>)"
    "run_fits bitmap ?limit count al s" "\<And>s'. s' < s \<Longrightarrow> \<not> run_fits bitmap ?limit count al s'"
    using assms(3) by (auto simp: first_fit_def Let_def)
  have "s \<le> s0" using s(3) assms(3) by (meson not_le)
  let ?r = "\<lparr>br_start = s, br_length = count\<rparr>"
  obtain bm' where bm': "apply_bitrange bitmap ?r True = Inr bm'" "length bm' = length bitmap"
    "\<forall>p < 32 * length bitmap. bm_bit bm' p = (if p \<in> br_set ?r then True else bm_bit bitmap p)"
    using apply_bitrange_bits [of ?r bitmap True] assms \<open>s \<le> s0\<close> by auto
  have "br_set ?r \<subseteq> {..< 32 * length bitmap}" using assms \<open>s \<le> s0\<close> by (auto simp: br_set_def)
  then have "bm_used bm' = bm_used bitmap \<union> {s ..< s + count}"
    using bm_used_apply [OF bm'(2) _ bm'(3)] by (simp add: br_set_def)
  then show ?thesis
    using that s bm'(1,2) \<open>s \<le> s0\<close> by (simp add: alloc_bitrange_def)
qed

lemma alloc_bitrange_none:
  assumes "0 < count" and "length bitmap < 134217728" and "capacity div 4 \<le> length bitmap"
    and "\<And>s. \<not> run_fits bitmap (32 * (capacity div 4)) count al s"
  shows "alloc_bitrange bitmap capacity count al = Inr (no_range, bitmap)"
  using alloc_scan_spec [of count bitmap "capacity div 4" al] assms
  by (auto simp: alloc_bitrange_def first_fit_def Let_def min_absorb1)

lemma alloc_bitrange_overrun:
  assumes "0 < count" and "length bitmap < 134217728" and "length bitmap < capacity div 4"
    and "\<And>s. \<not> run_fits bitmap (32 * length bitmap) count al s"
  shows "alloc_bitrange bitmap capacity count al = Inl Out_of_bounds"
  using alloc_scan_spec [of count bitmap "capacity div 4" al] assms
  by (auto simp: alloc_bitrange_def first_fit_def Let_def min_absorb2)

lemma dealloc_bitrange_used:
  assumes "0 < br_length r" and "br_start r + br_length r < 32 * length bitmap"
    and "br_start r + br_length r < 2097120"
  obtains bm' where "dealloc_bitrange bitmap r = Inr bm'" and "length bm' = length bitmap"
    and "bm_used bm' = bm_used bitmap - br_set r"
proof -
  obtain bm' where bm': "apply_bitrange bitmap r False = Inr bm'" "length bm' = length bitmap"
    "\<forall>p < 32 * length bitmap. bm_bit bm' p = (if p \<in> br_set r then False else bm_bit bitmap p)"
    using apply_bitrange_bits [OF assms, of False] by auto
  have "br_set r \<subseteq> {..< 32 * length bitmap}" using assms by (auto simp: br_set_def)
  then show ?thesis
    using that bm' bm_used_apply [OF bm'(2) _ bm'(3)] by (simp add: dealloc_bitrange_def)
qed

text \<open>Every successful call, whatever its outcome.\<close>

lemma alloc_bitrange_sound:
  assumes "0 < count" and "length bitmap < 134217728" and "min (capacity div 4) (length bitmap) \<le> 65536"
    and ok: "alloc_bitrange bitmap capacity count al = Inr (r, bm')"
  shows "r = no_range \<and> bm' = bitmap \<or>
    br_length r = count \<and> br_start r + count \<le> 32 * min (capacity div 4) (length bitmap) \<and>
    br_start r + count < 32 * length bitmap \<and>
    br_start r mod step_of al = 0 \<and> br_set r \<inter> bm_used bitmap = {} \<and>
    length bm' = length bitmap \<and> bm_used bm' = bm_used bitmap \<union> br_set r"
proof (cases "alloc_scan bitmap (capacity div 4) count al 0 31 0 0")
  case (Inl e)
  with ok show ?thesis by (simp add: alloc_bitrange_def)
next
  case (Inr found)
  let ?limit = "32 * min (capacity div 4) (length bitmap)"
  have ff: "first_fit bitmap (capacity div 4) count al (Inr found)"
    using alloc_scan_spec [of count bitmap "capacity div 4" al] assms(1,2) Inr by simp
  show ?thesis
  proof (cases found)
    case None
    with Inr ok show ?thesis by (simp add: alloc_bitrange_def no_range_def)
  next
    case (Some rng)
    with ff obtain s where rng: "rng = \<lparr>br_start = s, br_length = count\<rparr>"
      and fits: "run_fits bitmap ?limit count al s"
      by (auto simp: first_fit_def Let_def split: if_splits)
    have "apply_bitrange bitmap rng True = Inr bm'" and r: "r = rng"
      using ok Inr Some by (auto simp: alloc_bitrange_def)
    moreover have le: "s + count \<le> ?limit" using fits by (simp add: run_fits_def)
    then have "s + count < 4294967296" "s < 2097152" "s < 32 * length bitmap"
      using assms(1-3) by linarith+
    ultimately have *: "s + count < 32 * length bitmap" "length bm' = length bitmap"
        "\<forall>p < 32 * length bitmap. bm_bit bm' p = (if p \<in> br_set rng then True else bm_bit bitmap p)"
      using apply_bitrange_sound [of rng bitmap True bm'] assms(1) rng by auto
    moreover have "br_set rng \<subseteq> {..< 32 * length bitmap}" using *(1) by (auto simp: rng br_set_def)
    ultimately have "bm_used bm' = bm_used bitmap \<union> br_set rng"
      using bm_used_apply [of bm' bitmap rng True] by auto
    then show ?thesis
      using * rng r fits le run_fits_br_set(1) [OF fits _ rng] by (auto simp: run_fits_def)
  qed
qed

section \<open>The contract of a range allocator\<close>

text \<open>
  What the clients of the bitmaps rely on: an allocation returns a range of the size asked for
  that was free and is now occupied, or the empty range and an unchanged map; a release frees
  exactly the range it is given. \<open>tracks s rs\<close> says that the occupied positions are
  exactly those of the pairwise disjoint ranges \<open>rs\<close>, which is what a client that
  remembers its allocations needs to be kept.
\<close>

lemma br_set_disjoint_iff:
  "0 < br_length r \<Longrightarrow> 0 < br_length r' \<Longrightarrow>
   br_set r \<inter> br_set r' = {} \<longleftrightarrow>
     br_start r + br_length r \<le> br_start r' \<or> br_start r' + br_length r' \<le> br_start r"
  by (auto simp: br_set_def)

lemma disjoint_ranges_set:
  "disjoint_ranges (r # rs) \<longleftrightarrow>
     0 < br_length r \<and> (\<forall>r' \<in> set rs. br_set r \<inter> br_set r' = {}) \<and> disjoint_ranges rs"
proof -
  have "disjoint_ranges rs \<Longrightarrow> r' \<in> set rs \<Longrightarrow> 0 < br_length r'" for r'
    by (induction rs) auto
  then show ?thesis using br_set_disjoint_iff by auto
qed

lemma disjoint_ranges_append:
  "disjoint_ranges (rs1 @ rs2) \<longleftrightarrow> disjoint_ranges rs1 \<and> disjoint_ranges rs2 \<and>
     (\<forall>r \<in> set rs1. \<forall>r' \<in> set rs2. br_set r \<inter> br_set r' = {})"
  by (induction rs1) (auto simp: disjoint_ranges_set simp del: disjoint_ranges.simps(2))

locale range_allocator =
  fixes used :: "'s \<Rightarrow> nat set"
    and inv :: "'s \<Rightarrow> bool"
    and alloc :: "'s \<Rightarrow> nat \<Rightarrow> (BitRange \<times> 's) res"
    and dealloc :: "'s \<Rightarrow> BitRange \<Rightarrow> 's res"
  assumes alloc_result: "inv s \<Longrightarrow> 0 < n \<Longrightarrow> alloc s n = Inr (r, s') \<Longrightarrow>
      r = no_range \<and> s' = s \<or>
      br_length r = n \<and> br_set r \<inter> used s = {} \<and> used s' = used s \<union> br_set r \<and> inv s'"
    and dealloc_result: "inv s \<Longrightarrow> 0 < br_length r \<Longrightarrow> br_set r \<subseteq> used s \<Longrightarrow>
      \<exists>s'. dealloc s r = Inr s' \<and> used s' = used s - br_set r \<and> inv s'"
begin

definition tracks :: "'s \<Rightarrow> BitRange list \<Rightarrow> bool" where
  "tracks s rs \<longleftrightarrow> inv s \<and> disjoint_ranges rs \<and> used s = (\<Union>r \<in> set rs. br_set r)"

lemma tracks_alloc:
  assumes "tracks s rs" and "0 < n" and "alloc s n = Inr (r, s')" and "br_length r \<noteq> 0"
  shows "br_length r = n" and "tracks s' (r # rs)"
  using alloc_result [of s n r s'] assms
  by (auto simp: tracks_def no_range_def disjoint_ranges_set simp del: disjoint_ranges.simps(2))

lemma tracks_alloc_full:
  "tracks s rs \<Longrightarrow> 0 < n \<Longrightarrow> alloc s n = Inr (r, s') \<Longrightarrow> br_length r = 0 \<Longrightarrow> s' = s"
  using alloc_result [of s n r s'] by (auto simp: tracks_def)

lemma tracks_dealloc:
  assumes "tracks s (rs1 @ r # rs2)"
  obtains s' where "dealloc s r = Inr s'" and "tracks s' (rs1 @ rs2)"
proof -
  have dis: "disjoint_ranges rs1" "disjoint_ranges rs2" "0 < br_length r"
    "\<forall>r' \<in> set rs1 \<union> set rs2. br_set r \<inter> br_set r' = {}"
    "\<forall>r \<in> set rs1. \<forall>r' \<in> set rs2. br_set r \<inter> br_set r' = {}"
    using assms by (auto simp: tracks_def disjoint_ranges_append disjoint_ranges_set
        simp del: disjoint_ranges.simps(2))
  moreover obtain s' where "dealloc s r = Inr s'" "used s' = used s - br_set r" "inv s'"
    using dealloc_result [of s r] assms dis(3) by (auto simp: tracks_def)
  ultimately show ?thesis
    using that assms by (auto simp: tracks_def disjoint_ranges_append)
qed

lemma alloc_then_dealloc:
  assumes "inv s" and "0 < n" and "alloc s n = Inr (r, s')" and "br_length r \<noteq> 0"
  shows "\<exists>s''. dealloc s' r = Inr s'' \<and> used s'' = used s \<and> inv s''"
proof -
  have *: "br_length r = n" "br_set r \<inter> used s = {}" "used s' = used s \<union> br_set r" "inv s'"
    using alloc_result [OF assms(1-3)] assms(4) by (auto simp: no_range_def)
  then have "used s' - br_set r = used s" by blast
  then show ?thesis using dealloc_result [of s' r] * assms(2) by auto
qed

end

text \<open>
  The contract holds of the bitmaps for every array of at most 65535 words, every capacity and either
  alignment. The last position of the array is never handed out (\<open>apply_bitrange\<close> would step
  past the array), so the invariant keeps it free.
\<close>

definition bm_inv :: "nat \<Rightarrow> u32 list \<Rightarrow> bool" where
  "bm_inv n bitmap \<longleftrightarrow> length bitmap = n \<and> 32 * n - 1 \<notin> bm_used bitmap"

lemma bitmap_range_allocator:
  assumes "n \<le> 65535"
  shows "range_allocator bm_used (bm_inv n) (\<lambda>b count. alloc_bitrange b capacity count al) dealloc_bitrange"
proof
  fix s r s' and count :: nat
  assume "bm_inv n s" "0 < count" "alloc_bitrange s capacity count al = Inr (r, s')"
  moreover from this have "min (capacity div 4) (length s) \<le> 65536" "length s < 134217728"
    using assms by (auto simp: bm_inv_def)
  ultimately show "r = no_range \<and> s' = s \<or>
      br_length r = count \<and> br_set r \<inter> bm_used s = {} \<and> bm_used s' = bm_used s \<union> br_set r \<and> bm_inv n s'"
    using alloc_bitrange_sound [of count s capacity al r s']
    by (auto simp: bm_inv_def) (auto simp: br_set_def)
next
  fix s r
  assume *: "bm_inv n s" "0 < br_length r" "br_set r \<subseteq> bm_used s"
  show "\<exists>s'. dealloc_bitrange s r = Inr s' \<and> bm_used s' = bm_used s - br_set r \<and> bm_inv n s'"
  proof -
    have "br_start r + br_length r - 1 \<in> br_set r" using *(2) by (simp add: br_set_def)
    then have "br_start r + br_length r - 1 < 32 * n" "br_start r + br_length r - 1 \<noteq> 32 * n - 1"
      using *(1,3) by (auto simp: bm_inv_def bm_used_def)
    then have "br_start r + br_length r < 32 * length s" "br_start r + br_length r < 2097120"
      using *(1) assms by (auto simp: bm_inv_def)
    then obtain s' where "dealloc_bitrange s r = Inr s'" "length s' = length s" "bm_used s' = bm_used s - br_set r"
      using dealloc_bitrange_used [of r s] *(2) by blast
    then show ?thesis using *(1) by (auto simp: bm_inv_def)
  qed
qed

section \<open>Properties\<close>

lemmas bitmap_eval = alloc_bitrange_def alloc_scan.simps scan_bit_def Let_def dealloc_bitrange_def
  apply_bitrange_def apply_words.simps set_bits_def left_mask_def right_mask_def word_coeff_def no_range_def

text \<open>C16: \<open>apply_bitrange\<close> on a non-empty range that stays inside the bitmap sets (or clears) exactly
  the positions of the range, in whatever words they lie, and leaves every other position as it was.\<close>

theorem apply_bitrange_exact:
  assumes "0 < br_length r" and "br_start r + br_length r < 32 * length bitmap"
    and "br_start r + br_length r < 2097120"
  shows "\<exists>bm'. apply_bitrange bitmap r s = Inr bm' \<and> length bm' = length bitmap \<and>
    (\<forall>p < 32 * length bitmap. bm_bit bm' p =
       (if br_start r \<le> p \<and> p < br_start r + br_length r then s else bm_bit bitmap p))"
  using apply_bitrange_bits [OF assms, of s] by (simp add: br_set_def)

theorem apply_bitrange_exact_witness:
  "\<exists>bm'. apply_bitrange [0, 0, 0] \<lparr>br_start = 63, br_length = 3\<rparr> True = Inr bm' \<and> length bm' = length [0, 0, 0 :: u32] \<and>
    (\<forall>p < 96. bm_bit bm' p = (if 63 \<le> p \<and> p < 66 then True else bm_bit [0, 0, 0] p))"
  using apply_bitrange_exact [of "\<lparr>br_start = 63, br_length = 3\<rparr>" "[0, 0, 0]" True] by (simp del: if_True)

text \<open>C15: \<open>alloc_bitrange\<close> is a first-fit allocator: when some admissible run of \<open>count\<close> free positions
  exists (starting at a multiple of 4 if \<open>word_align\<close>), it returns the least such run and marks
  exactly its positions as occupied.\<close>

theorem alloc_bitrange_first_fit:
  assumes "0 < count" and "length bitmap < 134217728"
    and "run_fits bitmap (32 * min (capacity div 4) (length bitmap)) count al s0"
    and "s0 + count < 32 * length bitmap" and "s0 + count < 2097120"
  shows "\<exists>s bm'. alloc_bitrange bitmap capacity count al = Inr (\<lparr>br_start = s, br_length = count\<rparr>, bm')
    \<and> run_fits bitmap (32 * min (capacity div 4) (length bitmap)) count al s
    \<and> (\<forall>s' < s. \<not> run_fits bitmap (32 * min (capacity div 4) (length bitmap)) count al s')
    \<and> length bm' = length bitmap \<and> bm_used bm' = bm_used bitmap \<union> {s ..< s + count}"
  by (rule alloc_bitrange_found [OF assms]) (intro exI conjI allI impI; assumption?; simp)

theorem alloc_bitrange_first_fit_witness:
  "\<exists>s bm'. alloc_bitrange [0xE0000000, 0] 8 5 True = Inr (\<lparr>br_start = s, br_length = 5\<rparr>, bm')
    \<and> run_fits [0xE0000000, 0] (32 * min (8 div 4) 2) 5 True s
    \<and> (\<forall>s' < s. \<not> run_fits [0xE0000000, 0] (32 * min (8 div 4) 2) 5 True s')
    \<and> length bm' = length [0, 0 :: u32] \<and> bm_used bm' = bm_used [0xE0000000, 0] \<union> {s ..< s + 5}"
proof -
  have "run_fits [0xE0000000, 0] (32 * min (8 div 4) (length [0xE0000000, 0 :: u32])) 5 True 4"
    by code_simp
  then show ?thesis using alloc_bitrange_first_fit [of 5 "[0xE0000000, 0]" 8 True 4] by simp
qed

text \<open>Whatever \<open>alloc_bitrange\<close> returns, it never hands out a position twice: the result is either the
  empty range with the bitmap unchanged, or a range of the size asked for, disjoint from everything
  occupied before, and the occupied set grows by exactly that range.\<close>

theorem alloc_bitrange_never_overlaps:
  assumes "0 < count" and "length bitmap < 134217728" and "min (capacity div 4) (length bitmap) \<le> 65536"
    and "alloc_bitrange bitmap capacity count al = Inr (r, bm')"
  shows "r = no_range \<and> bm' = bitmap \<or>
    br_length r = count \<and> br_start r + count < 32 * length bitmap \<and> br_set r \<inter> bm_used bitmap = {} \<and>
    bm_used bm' = bm_used bitmap \<union> br_set r"
  using alloc_bitrange_sound [OF assms] by auto

theorem alloc_bitrange_never_overlaps_witness:
  "br_length \<lparr>br_start = 4, br_length = 5\<rparr> = 5 \<and>
   br_set \<lparr>br_start = 4, br_length = 5\<rparr> \<inter> bm_used [0xE0000000, 0] = {} \<and>
   bm_used [0xEF800000, 0] = bm_used [0xE0000000, 0] \<union> br_set \<lparr>br_start = 4, br_length = 5\<rparr>"
proof -
  have "alloc_bitrange [0xE0000000, 0] 8 5 True = Inr (\<lparr>br_start = 4, br_length = 5\<rparr>, [0xEF800000, 0])"
    by (simp add: bitmap_eval cong: obind_weak_cong)
  from alloc_bitrange_never_overlaps [OF _ _ _ this] show ?thesis by (simp add: no_range_def)
qed

text \<open>Releasing a range right after it was allocated gives back the occupied set there was before.\<close>

theorem alloc_dealloc_roundtrip:
  assumes "0 < count" and "length bitmap \<le> 65535" and "32 * length bitmap - 1 \<notin> bm_used bitmap"
    and "alloc_bitrange bitmap capacity count al = Inr (r, bm')" and "br_length r \<noteq> 0"
  shows "\<exists>bm''. dealloc_bitrange bm' r = Inr bm'' \<and> bm_used bm'' = bm_used bitmap"
  using range_allocator.alloc_then_dealloc [OF bitmap_range_allocator, of "length bitmap" bitmap count capacity al r bm']
    assms by (auto simp: bm_inv_def)

theorem alloc_dealloc_roundtrip_witness:
  "\<exists>bm''. dealloc_bitrange [0xEF800000, 0] \<lparr>br_start = 4, br_length = 5\<rparr> = Inr bm'' \<and>
     bm_used bm'' = bm_used [0xE0000000, 0]"
proof -
  have a: "alloc_bitrange [0xE0000000, 0] 8 5 True = Inr (\<lparr>br_start = 4, br_length = 5\<rparr>, [0xEF800000, 0])"
    by (simp add: bitmap_eval cong: obind_weak_cong)
  have "32 * length [0xE0000000, 0 :: u32] - 1 \<notin> bm_used [0xE0000000, 0]"
    by (simp add: bm_used_def bm_bit_def)
  from alloc_dealloc_roundtrip [OF _ _ this a] show ?thesis by simp
qed

text \<open>The header documents \<open>capacity\<close> as the number of bits of the bitmap, but the search visits
  \<open>capacity / 4\<close> words: called as documented on a bitmap without a fitting run, it reads past the array
  instead of returning the empty range.\<close>

theorem alloc_bitrange_documented_capacity_overruns:
  assumes "0 < count" and "0 < length bitmap" and "length bitmap < 134217728"
    and "\<And>s. \<not> run_fits bitmap (32 * length bitmap) count al s"
  shows "alloc_bitrange bitmap (32 * length bitmap) count al = Inl Out_of_bounds"
  using assms by (intro alloc_bitrange_overrun) auto

theorem alloc_bitrange_documented_capacity_overruns_witness:
  "alloc_bitrange [- 1] 32 1 False = Inl Out_of_bounds"
proof -
  have "\<not> run_fits [- 1] (32 * length [- 1 :: u32]) 1 False s" for s
    by (auto simp: run_fits_def free_run_def bm_bit_def)
  then show ?thesis using alloc_bitrange_documented_capacity_overruns [of 1 "[- 1]" False] by simp
qed

end
