(* ===== verification/CString.thy ===== *)
theory CString
  imports Yorha_Prelude "HOL-Library.Signed_Division"
begin

text \<open>
  The string and memory routines of \<open>src/src/string.c\<close>.

  A pointer is an offset into the object it points into, and an object is the list of its bytes;
  every access is checked against the object. A \<open>char\<close> is a byte, read as a signed number where
  the code computes with it (\<open>char\<close> is signed on i386). The loops that look for a terminating NUL
  stop at the end of the object with \<open>Out_of_bounds\<close> when there is none.
\<close>

section \<open>Definitions\<close>

function strlen_loop :: "u8 list \<Rightarrow> nat \<Rightarrow> nat \<Rightarrow> nat res" where
  "strlen_loop str p len =
     obind (rd str (p + len)) (\<lambda>c. if c \<noteq> 0 then strlen_loop str p (len + 1) else Inr len)"
  by pat_completeness auto
termination
  by (relation "measure (\<lambda>(str, p, len). length str - (p + len))") (auto simp: rd_def split: if_splits)

definition strlen :: "u8 list \<Rightarrow> nat \<Rightarrow> nat res" where
  "strlen str p = strlen_loop str p 0"

function memcpy_loop :: "u8 list \<Rightarrow> nat \<Rightarrow> u8 list \<Rightarrow> nat \<Rightarrow> nat \<Rightarrow> nat \<Rightarrow> u8 list res" where
  "memcpy_loop dst d src s count byte =
     (if byte < count then
        obind (rd src (s + byte)) (\<lambda>v.
        obind (wr dst (d + byte) v) (\<lambda>dst'. memcpy_loop dst' d src s count (byte + 1)))
      else Inr dst)"
  by pat_completeness auto
termination
  by (relation "measure (\<lambda>(dst, d, src, s, count, byte). count - byte)") auto

definition memcpy :: "u8 list \<Rightarrow> nat \<Rightarrow> u8 list \<Rightarrow> nat \<Rightarrow> nat \<Rightarrow> u8 list res" where
  "memcpy dst d src s count = memcpy_loop dst d src s count 0"

function memset_loop :: "u8 list \<Rightarrow> nat \<Rightarrow> u8 \<Rightarrow> nat \<Rightarrow> nat \<Rightarrow> u8 list res" where
  "memset_loop dst d val count byte =
     (if byte < count then
        obind (wr dst (d + byte) val) (\<lambda>dst'. memset_loop dst' d val count (byte + 1))
      else Inr dst)"
  by pat_completeness auto
termination
  by (relation "measure (\<lambda>(dst, d, val, count, byte). count - byte)") auto

definition memset :: "u8 list \<Rightarrow> nat \<Rightarrow> u8 \<Rightarrow> nat \<Rightarrow> u8 list res" where
  "memset dst d val count = memset_loop dst d val count 0"

text \<open>\<open>memmove\<close> within one object: \<open>d\<close> and \<open>s\<close> are offsets, so the regions may overlap.\<close>

function memmove_fwd :: "u8 list \<Rightarrow> nat \<Rightarrow> nat \<Rightarrow> nat \<Rightarrow> nat \<Rightarrow> u8 list res" where
  "memmove_fwd m d s count i =
     (if i < count then
        obind (rd m (s + i)) (\<lambda>v. obind (wr m (d + i) v) (\<lambda>m'. memmove_fwd m' d s count (i + 1)))
      else Inr m)"
  by pat_completeness auto
termination
  by (relation "measure (\<lambda>(m, d, s, count, i). count - i)") auto

fun memmove_bwd :: "u8 list \<Rightarrow> nat \<Rightarrow> nat \<Rightarrow> nat \<Rightarrow> u8 list res" where
  "memmove_bwd m d s 0 = Inr m"
| "memmove_bwd m d s (Suc i) =
     obind (rd m (s + i)) (\<lambda>v. obind (wr m (d + i) v) (\<lambda>m'. memmove_bwd m' d s i))"

definition memmove :: "u8 list \<Rightarrow> nat \<Rightarrow> nat \<Rightarrow> nat \<Rightarrow> u8 list res" where
  "memmove m d s count =
     (if d < s then memmove_fwd m d s count 0
      else if d > s then memmove_bwd m d s count
      else Inr m)"

function strcmp_loop :: "u8 list \<Rightarrow> nat \<Rightarrow> u8 list \<Rightarrow> nat \<Rightarrow> nat \<Rightarrow> int res" where
  "strcmp_loop str1 p str2 q i =
     obind (rd str1 (p + i)) (\<lambda>a.
       if a \<noteq> 0 then
         obind (rd str2 (q + i)) (\<lambda>b.
           if a = b then strcmp_loop str1 p str2 q (i + 1) else Inr (sint a - sint b))
       else obind (rd str2 (q + i)) (\<lambda>b. Inr (sint a - sint b)))"
  by pat_completeness auto
termination
  by (relation "measure (\<lambda>(str1, p, str2, q, i). length str1 - (p + i))") (auto simp: rd_def split: if_splits)

definition strcmp :: "u8 list \<Rightarrow> nat \<Rightarrow> u8 list \<Rightarrow> nat \<Rightarrow> int res" where
  "strcmp str1 p str2 q = strcmp_loop str1 p str2 q 0"

text \<open>\<open>strcpy\<close> and \<open>strcat\<close> run the same loop; \<open>strcat\<close> does not look for the end of the
  destination: it writes where it is told and returns the number of characters it copied.\<close>

function strcpy_loop :: "u8 list \<Rightarrow> nat \<Rightarrow> u8 list \<Rightarrow> nat \<Rightarrow> nat \<Rightarrow> (nat \<times> u8 list) res" where
  "strcpy_loop dst d src s i =
     obind (rd src (s + i)) (\<lambda>c.
       if c \<noteq> 0 then obind (wr dst (d + i) c) (\<lambda>dst'. strcpy_loop dst' d src s (i + 1))
       else obind (wr dst (d + i) 0) (\<lambda>dst'. Inr (i, dst')))"
  by pat_completeness auto
termination
  by (relation "measure (\<lambda>(dst, d, src, s, i). length src - (s + i))") (auto simp: rd_def split: if_splits)

definition strcpy :: "u8 list \<Rightarrow> nat \<Rightarrow> u8 list \<Rightarrow> nat \<Rightarrow> u8 list res" where
  "strcpy dst d src s = obind (strcpy_loop dst d src s 0) (\<lambda>(_, dst'). Inr dst')"

definition strcat :: "u8 list \<Rightarrow> nat \<Rightarrow> u8 list \<Rightarrow> nat \<Rightarrow> (nat \<times> u8 list) res" where
  "strcat src s dst d = strcpy_loop dst d src s 0"

text \<open>Decimal output. Division and remainder of C truncate towards zero.\<close>

function intlen_loop :: "int \<Rightarrow> nat \<Rightarrow> nat" where
  "intlen_loop v i = (if v sdiv 10 \<noteq> 0 then intlen_loop (v sdiv 10) (i + 1) else i + 1)"
  by pat_completeness auto
termination
  by (relation "measure (\<lambda>(v, i). nat \<bar>v\<bar>)") (auto simp: signed_divide_int_def abs_mult sgn_if)

definition intlen :: "int \<Rightarrow> nat" where
  "intlen v = intlen_loop v (if v < 0 then 1 else 0)"

function digits_loop :: "int \<Rightarrow> nat \<Rightarrow> u8 list \<Rightarrow> u8 list res" where
  "digits_loop v i buffer =
     (let i' = (i + 65535) mod 65536 in
      obind (wr buffer i' (word_of_int (48 + v smod 10))) (\<lambda>buffer'.
        if v sdiv 10 \<noteq> 0 then digits_loop (v sdiv 10) i' buffer' else Inr buffer'))"
  by pat_completeness auto
termination
  by (relation "measure (\<lambda>(v, i, buffer). nat \<bar>v\<bar>)") (auto simp: signed_divide_int_def abs_mult sgn_if)

definition int_to_string :: "int \<Rightarrow> u8 list \<Rightarrow> u8 list res" where
  "int_to_string v buffer =
     (let i = intlen v in
      obind (if v < 0 then wr buffer 0 45 else Inr buffer) (\<lambda>buffer.
      obind (wr buffer i 0) (\<lambda>buffer. digits_loop v i buffer)))"

text \<open>\<open>while (s)\<close> tests the pointer, which the loop never changes.\<close>

function str_count_loop :: "u8 list \<Rightarrow> u8 \<Rightarrow> nat \<Rightarrow> int \<Rightarrow> int res" where
  "str_count_loop s target i count =
     obind (rd s i) (\<lambda>c. str_count_loop s target (i + 1) (count + (if c = target then 1 else 0)))"
  by pat_completeness auto
termination
  by (relation "measure (\<lambda>(s, target, i, count). length s - i)") (auto simp: rd_def split: if_splits)

definition str_count :: "u8 list option \<Rightarrow> u8 \<Rightarrow> int res" where
  "str_count s target = (case s of None \<Rightarrow> Inr 0 | Some s \<Rightarrow> str_count_loop s target 0 0)"

text \<open>Hexadecimal and binary dumps of an array of 32-bit words.\<close>

definition nib_to_hex :: "u8 list" where
  "nib_to_hex = [48, 49, 50, 51, 52, 53, 54, 55, 56, 57, 65, 66, 67, 68, 69, 70]"

definition hex_nibble :: "u32 \<Rightarrow> nat \<Rightarrow> u8" where
  "hex_nibble w k = nib_to_hex ! unat (drop_bit k w AND 0xF)"

fun hex_bytes :: "u32 \<Rightarrow> nat \<Rightarrow> u8 list \<Rightarrow> nat \<Rightarrow> (u8 list \<times> nat) res" where
  "hex_bytes w 0 dst d = Inr (dst, d)"
| "hex_bytes w (Suc byte) dst d =
     obind (wr dst d (hex_nibble w (byte * 8 + 4))) (\<lambda>dst.
     obind (wr dst (d + 1) (hex_nibble w (byte * 8))) (\<lambda>dst. hex_bytes w byte dst (d + 2)))"

function hex_words :: "u32 list \<Rightarrow> u8 list \<Rightarrow> nat \<Rightarrow> nat \<Rightarrow> nat \<Rightarrow> u8 list res" where
  "hex_words src dst d count word =
     (if word < count div 4 then
        obind (rd src word) (\<lambda>w. obind (hex_bytes w 4 dst d) (\<lambda>(dst, d). hex_words src dst d count (word + 1)))
      else Inr dst)"
  by pat_completeness auto
termination
  by (relation "measure (\<lambda>(src, dst, d, count, word). count div 4 - word)") auto

definition buff_to_hexstring :: "u32 list \<Rightarrow> u8 list \<Rightarrow> nat \<Rightarrow> nat \<Rightarrow> u8 list res" where
  "buff_to_hexstring src dst d count = hex_words src dst d count 0"

function bin_bits :: "u32 \<Rightarrow> u8 list \<Rightarrow> nat \<Rightarrow> nat \<Rightarrow> u8 list res" where
  "bin_bits w dst d b =
     (if b < 32 then
        obind (wr dst (d + b) (if bit w (31 - b) then 49 else 48)) (\<lambda>dst. bin_bits w dst d (b + 1))
      else Inr dst)"
  by pat_completeness auto
termination
  by (relation "measure (\<lambda>(w, dst, d, b). 32 - b)") auto

function bin_words :: "u32 list \<Rightarrow> u8 list \<Rightarrow> nat \<Rightarrow> nat \<Rightarrow> nat \<Rightarrow> u8 list res" where
  "bin_words src dst d count word =
     (if word < count div 4 then
        obind (rd src word) (\<lambda>w. obind (bin_bits w dst d 0) (\<lambda>dst. bin_words src dst d count (word + 1)))
      else Inr dst)"
  by pat_completeness auto
termination
  by (relation "measure (\<lambda>(src, dst, d, count, word). count div 4 - word)") auto

definition buff_to_binstring :: "u32 list \<Rightarrow> u8 list \<Rightarrow> nat \<Rightarrow> nat \<Rightarrow> u8 list res" where
  "buff_to_binstring src dst d count = bin_words src dst d count 0"

text \<open>The decimal digits of a number, most significant first, and the number they denote.\<close>

fun digits_of :: "nat \<Rightarrow> nat list" where
  "digits_of n = (if n < 10 then [n] else digits_of (n div 10) @ [n mod 10])"

definition digits_value :: "nat list \<Rightarrow> nat" where
  "digits_value ds = foldl (\<lambda>a d. 10 * a + d) 0 ds"

text \<open>The hexadecimal digits of the low \<open>2 n\<close> nibbles of a word, and the number a string of
  hexadecimal digits denotes.\<close>

fun hex_list :: "u32 \<Rightarrow> nat \<Rightarrow> u8 list" where
  "hex_list w 0 = []"
| "hex_list w (Suc n) = hex_nibble w (n * 8 + 4) # hex_nibble w (n * 8) # hex_list w n"

definition nibble_of :: "u8 \<Rightarrow> nat" where
  "nibble_of c = (if c < 65 then unat c - 48 else unat c - 55)"

definition hex_value :: "u8 list \<Rightarrow> nat" where
  "hex_value cs = foldl (\<lambda>a c. 16 * a + nibble_of c) 0 cs"

definition bin_list :: "u32 \<Rightarrow> u8 list" where
  "bin_list w = map (\<lambda>b. if bit w (31 - b) then 49 else 48) [0..<32]"

text \<open>\<open>cstr_at m p s\<close>: the NUL-terminated string \<open>s\<close> stands at offset \<open>p\<close> of \<open>m\<close>.\<close>

definition cstr_at :: "u8 list \<Rightarrow> nat \<Rightarrow> u8 list \<Rightarrow> bool" where
  "cstr_at m p s \<longleftrightarrow> p + length s < length m \<and> take (length s) (drop p m) = s \<and> m ! (p + length s) = 0 \<and> 0 \<notin> set s"

definition cstr_of :: "string \<Rightarrow> u8 list" where
  "cstr_of s = map of_char s"

declare strlen_loop.simps [simp del] memcpy_loop.simps [simp del] memset_loop.simps [simp del]
  memmove_fwd.simps [simp del] strcmp_loop.simps [simp del] strcpy_loop.simps [simp del]
  intlen_loop.simps [simp del] digits_loop.simps [simp del] str_count_loop.simps [simp del]
  digits_of.simps [simp del] hex_words.simps [simp del] bin_bits.simps [simp del] bin_words.simps [simp del]

section \<open>Strings\<close>

lemma cstr_at_nth:
  assumes "cstr_at m p s"
  shows "p + length s < length m" and "i < length s \<Longrightarrow> m ! (p + i) = s ! i" and "m ! (p + length s) = 0"
    and "i < length s \<Longrightarrow> s ! i \<noteq> 0"
proof -
  show "p + length s < length m" and "m ! (p + length s) = 0" using assms by (simp_all add: cstr_at_def)
  show "m ! (p + i) = s ! i" if "i < length s"
  proof -
    have "take (length s) (drop p m) ! i = s ! i" using assms by (simp add: cstr_at_def)
    then show ?thesis using that assms by (simp add: cstr_at_def)
  qed
  show "s ! i \<noteq> 0" if "i < length s"
    using assms that nth_mem [OF that] unfolding cstr_at_def by metis
qed

lemma strlen_loop_cstr:
  assumes "cstr_at m p s" and "len \<le> length s"
  shows "strlen_loop m p len = Inr (length s)"
  using assms(2)
proof (induction "length s - len" arbitrary: len)
  case 0
  then show ?case using cstr_at_nth [OF assms(1)] by (simp add: strlen_loop.simps [of m])
next
  case (Suc k)
  then have "len < length s" by simp
  then show ?case using Suc cstr_at_nth [OF assms(1)] by (simp add: strlen_loop.simps [of m p len])
qed

lemma strlen_cstr [simp]: "cstr_at m p s \<Longrightarrow> strlen m p = Inr (length s)"
  by (simp add: strlen_def strlen_loop_cstr)

lemma strcmp_loop_cstr:
  assumes a: "cstr_at m p s" and b: "cstr_at n q t"
    and "i \<le> length s" "i \<le> length t" "take i s = take i t"
  shows "\<exists>r. strcmp_loop m p n q i = Inr r \<and> (r = 0 \<longleftrightarrow> s = t)"
  using assms(3-5)
proof (induction "length s - i" arbitrary: i)
  case 0
  then have i: "i = length s" by simp
  show ?case
  proof (cases "i = length t")
    case True
    then have "s = t" using 0 i by simp
    then show ?thesis
      using i cstr_at_nth [OF a] cstr_at_nth [OF b]
      by (simp add: strcmp_loop.simps [of m p n q "length t"])
  next
    case False
    then have lt: "i < length t" using 0 by simp
    then have "s \<noteq> t" using i by auto
    moreover have "n ! (q + i) \<noteq> 0" using cstr_at_nth [OF b] lt by simp
    then have "sint (n ! (q + i)) \<noteq> 0" by (metis signed_0 signed_word_eqI)
    ultimately show ?thesis
      using i lt cstr_at_nth(1,3) [OF a] cstr_at_nth(1) [OF b]
      by (simp add: strcmp_loop.simps [of m p n q "length s"])
  qed
next
  case (Suc k)
  then have i: "i < length s" by simp
  have m: "rd m (p + i) = Inr (s ! i)" "s ! i \<noteq> 0" using cstr_at_nth [OF a] i by simp_all
  show ?case
  proof (cases "i < length t")
    case True
    then have n: "rd n (q + i) = Inr (t ! i)" using cstr_at_nth [OF b] by simp
    show ?thesis
    proof (cases "s ! i = t ! i")
      case eq: True
      then have "take (Suc i) s = take (Suc i) t" using i True Suc.prems by (simp add: take_Suc_conv_app_nth)
      then show ?thesis
        using Suc.hyps(1) [of "Suc i"] Suc.hyps(2) i True m n eq by (simp add: strcmp_loop.simps [of m p n q i])
    next
      case False
      then have "s \<noteq> t" by auto
      moreover have "sint (s ! i) \<noteq> sint (t ! i)" using False signed_word_eqI by metis
      ultimately show ?thesis using m n False by (simp add: strcmp_loop.simps [of m p n q i])
    qed
  next
    case False
    then have "i = length t" using Suc.prems by simp
    then have "rd n (q + i) = Inr 0" "s \<noteq> t" using cstr_at_nth [OF b] i by auto
    moreover have "sint (s ! i) \<noteq> 0" using m(2) by (metis signed_0 signed_word_eqI)
    ultimately show ?thesis using m by (simp add: strcmp_loop.simps [of m p n q i])
  qed
qed

lemma strcmp_cstr:
  "cstr_at m p s \<Longrightarrow> cstr_at n q t \<Longrightarrow> \<exists>r. strcmp m p n q = Inr r \<and> (r = 0 \<longleftrightarrow> s = t)"
  by (simp add: strcmp_def strcmp_loop_cstr)

lemma strcpy_loop_cstr:
  assumes a: "cstr_at src s t" and d: "d + length t < length dst" and "i \<le> length t"
  shows "strcpy_loop (overlay d (take i t) dst) d src s i = Inr (length t, overlay d (t @ [0]) dst)"
  using assms(3)
proof (induction "length t - i" arbitrary: i)
  case 0
  then have "i = length t" by simp
  then show ?case
    using d cstr_at_nth [OF a] overlay_snoc [of d t dst 0]
    by (simp add: strcpy_loop.simps [of _ d src s])
next
  case (Suc k)
  then have i: "i < length t" by simp
  have "(overlay d (take i t) dst)[d + i := t ! i] = overlay d (take (Suc i) t) dst"
    using overlay_snoc [of d "take i t" dst "t ! i"] d i by (simp add: take_Suc_conv_app_nth)
  then show ?case
    using Suc.hyps(1) [of "Suc i"] Suc.hyps(2) i d cstr_at_nth [OF a]
    by (simp add: strcpy_loop.simps [of _ d src s i])
qed

lemma strcpy_loop_no_room:
  assumes "cstr_at src s t" and "i \<le> length t" and "length dst \<le> d + length t" and "d + i \<le> length dst"
  shows "strcpy_loop dst d src s i = Inl Out_of_bounds"
  using assms(2-)
proof (induction "length t - i" arbitrary: i dst)
  case 0
  then have "i = length t" "length dst = d + i" by simp_all
  then show ?case using cstr_at_nth(1,3) [OF assms(1)] by (subst strcpy_loop.simps) (simp add: wr_def)
next
  case (Suc n)
  then have i: "i < length t" by linarith
  have nth: "src ! (s + i) = t ! i" "t ! i \<noteq> 0" "s + i < length src"
    using cstr_at_nth(2,4) [OF assms(1) i] cstr_at_nth(1) [OF assms(1)] i by simp_all
  show ?case
  proof (cases "d + i < length dst")
    case True
    have "strcpy_loop (dst[d + i := t ! i]) d src s (i + 1) = Inl Out_of_bounds"
      using Suc.hyps(2) Suc.prems i True by (intro Suc.hyps(1)) simp_all
    then show ?thesis using nth True by (simp add: strcpy_loop.simps [of dst d src s i])
  qed (use nth in \<open>simp add: strcpy_loop.simps [of dst d src s i] wr_def\<close>)
qed

lemma strcpy_no_room:
  "cstr_at src s t \<Longrightarrow> d \<le> length dst \<Longrightarrow> length dst \<le> d + length t \<Longrightarrow> strcpy dst d src s = Inl Out_of_bounds"
  using strcpy_loop_no_room [of src s t 0 dst d] by (simp add: strcpy_def)

lemma strcpy_cstr:
  "cstr_at src s t \<Longrightarrow> d + length t < length dst \<Longrightarrow> strcpy dst d src s = Inr (overlay d (t @ [0]) dst)"
  using strcpy_loop_cstr [of src s t d dst 0] by (simp add: strcpy_def)

lemma strcat_cstr:
  "cstr_at src s t \<Longrightarrow> d + length t < length dst \<Longrightarrow>
   strcat src s dst d = Inr (length t, overlay d (t @ [0]) dst)"
  using strcpy_loop_cstr [of src s t d dst 0] by (simp add: strcat_def)

lemma cstr_at_overlay:
  "0 \<notin> set t \<Longrightarrow> d + length t < length dst \<Longrightarrow> cstr_at (overlay d (t @ [0]) dst) d t"
  using take_drop_overlay_same [of d "t @ [0]" dst]
  by (auto simp: cstr_at_def nth_overlay nth_append intro: nth_equalityI)

section \<open>Blocks of memory\<close>

lemma memcpy_loop_overlay:
  assumes "s + count \<le> length src" and "d + count \<le> length dst" and "byte \<le> count"
  shows "memcpy_loop (overlay d (take byte (drop s src)) dst) d src s count byte
    = Inr (overlay d (take count (drop s src)) dst)"
  using assms(3)
proof (induction "count - byte" arbitrary: byte)
  case 0
  then show ?case by (simp add: memcpy_loop.simps)
next
  case (Suc k)
  then have b: "byte < count" by simp
  have "(overlay d (take byte (drop s src)) dst)[d + byte := src ! (s + byte)]
      = overlay d (take (Suc byte) (drop s src)) dst"
    using overlay_snoc [of d "take byte (drop s src)" dst "src ! (s + byte)"] b assms
    by (simp add: take_Suc_conv_app_nth)
  then show ?case
    using Suc.hyps(1) [of "Suc byte"] Suc.hyps(2) b assms
    by (simp add: memcpy_loop.simps [of _ d src s count byte])
qed

lemma memcpy_overlay:
  "s + count \<le> length src \<Longrightarrow> d + count \<le> length dst \<Longrightarrow>
   memcpy dst d src s count = Inr (overlay d (take count (drop s src)) dst)"
  using memcpy_loop_overlay [of s count src d dst 0] by (simp add: memcpy_def)

lemma memcpy_loop_outside:
  "byte < count \<Longrightarrow> length src < s + count \<Longrightarrow> memcpy_loop dst d src s count byte = Inl Out_of_bounds"
proof (induction dst d src s count byte rule: memcpy_loop.induct)
  case (1 dst d src s count byte)
  show ?case
  proof (cases "s + byte < length src \<and> d + byte < length dst")
    case True
    then have "byte + 1 < count" using "1.prems" by linarith
    then show ?thesis using "1.IH" "1.prems" True by (subst memcpy_loop.simps) (simp add: rd_def wr_def)
  qed (use "1.prems" in \<open>subst memcpy_loop.simps, auto simp: rd_def wr_def\<close>)
qed

lemma memcpy_outside: "0 < count \<Longrightarrow> length src < s + count \<Longrightarrow> memcpy dst d src s count = Inl Out_of_bounds"
  by (simp add: memcpy_def memcpy_loop_outside)

lemma memset_loop_overlay:
  assumes "d + count \<le> length dst" and "byte \<le> count"
  shows "memset_loop (overlay d (replicate byte v) dst) d v count byte = Inr (overlay d (replicate count v) dst)"
  using assms(2)
proof (induction "count - byte" arbitrary: byte)
  case 0
  then show ?case by (simp add: memset_loop.simps)
next
  case (Suc k)
  then have b: "byte < count" by simp
  have "(overlay d (replicate byte v) dst)[d + byte := v] = overlay d (replicate (Suc byte) v) dst"
    using overlay_snoc [of d "replicate byte v" dst v] b assms by (simp add: replicate_append_same)
  then show ?case
    using Suc.hyps(1) [of "Suc byte"] Suc.hyps(2) b assms
    by (simp add: memset_loop.simps [of _ d v count byte])
qed

lemma memset_overlay:
  "d + count \<le> length dst \<Longrightarrow> memset dst d v count = Inr (overlay d (replicate count v) dst)"
  using memset_loop_overlay [of d count dst 0] by (simp add: memset_def)

lemma memmove_fwd_overlay:
  assumes "d < s" and "s + count \<le> length m" and "i \<le> count"
  shows "memmove_fwd (overlay d (take i (drop s m)) m) d s count i = Inr (overlay d (take count (drop s m)) m)"
  using assms(3)
proof (induction "count - i" arbitrary: i)
  case 0
  then show ?case by (simp add: memmove_fwd.simps)
next
  case (Suc k)
  then have i: "i < count" by simp
  have "overlay d (take i (drop s m)) m ! (s + i) = m ! (s + i)"
    using i assms by (subst nth_overlay) auto
  moreover have "(overlay d (take i (drop s m)) m)[d + i := m ! (s + i)] = overlay d (take (Suc i) (drop s m)) m"
    using overlay_snoc [of d "take i (drop s m)" m "m ! (s + i)"] i assms
    by (simp add: take_Suc_conv_app_nth)
  ultimately show ?case
    using Suc.hyps(1) [of "Suc i"] Suc.hyps(2) i assms
    by (simp add: memmove_fwd.simps [of _ d s count i])
qed

lemma memmove_bwd_overlay:
  assumes "s < d" and "d + count \<le> length m" and "i \<le> count"
  shows "memmove_bwd (overlay (d + i) (drop i (take count (drop s m))) m) d s i
    = Inr (overlay d (take count (drop s m)) m)"
  using assms(3)
proof (induction i)
  case 0
  then show ?case by simp
next
  case (Suc i)
  let ?data = "take count (drop s m)"
  have "overlay (d + Suc i) (drop (Suc i) ?data) m ! (s + i) = ?data ! i"
    using Suc.prems assms by (subst nth_overlay) auto
  moreover have "?data ! i # drop (Suc i) ?data = drop i ?data"
    using Suc.prems assms by (intro Cons_nth_drop_Suc) simp
  then have "(overlay (Suc (d + i)) (drop (Suc i) ?data) m)[d + i := ?data ! i] = overlay (d + i) (drop i ?data) m"
    using overlay_Cons [of "d + i" "drop (Suc i) ?data" m "?data ! i"] Suc.prems assms
    by (simp del: nth_take)
  ultimately show ?case using Suc assms by simp
qed

lemma memmove_overlay:
  assumes "s + count \<le> length m" and "d + count \<le> length m"
  shows "memmove m d s count = Inr (overlay d (take count (drop s m)) m)"
proof -
  consider "d < s" | "s < d" | "s = d" by linarith
  then show ?thesis
  proof cases
    case 1
    then show ?thesis using memmove_fwd_overlay [OF 1 assms(1), of 0] by (simp add: memmove_def)
  next
    case 2
    then show ?thesis using memmove_bwd_overlay [OF 2 assms(2), of count] assms by (simp add: memmove_def)
  next
    case 3
    have "overlay d (take count (drop d m)) m = m"
      using assms by (intro nth_equalityI) (auto simp: nth_overlay)
    then show ?thesis using 3 by (simp add: memmove_def)
  qed
qed

section \<open>Decimal output\<close>

lemma sdiv_smod_signed:
  assumes "sg = 1 \<or> sg = - 1"
  shows "(sg * int n) sdiv 10 = sg * int (n div 10)" and "(sg * int n) smod 10 = sg * int (n mod 10)"
  using assms by (auto simp: signed_divide_int_def signed_modulo_int_def sgn_if zdiv_int zmod_int
      minus_div_mult_eq_mod [symmetric] algebra_simps)

lemma digits_of_nonempty [simp]: "digits_of n \<noteq> []"
  by (subst digits_of.simps) simp

lemma digits_of_value: "digits_value (digits_of n) = n"
proof (induction n rule: digits_of.induct)
  case (1 n)
  then show ?case by (subst digits_of.simps) (auto simp: digits_value_def)
qed

lemma digits_of_digits: "d \<in> set (digits_of n) \<Longrightarrow> d < 10"
proof (induction n rule: digits_of.induct)
  case (1 n)
  then show ?case by (auto simp: digits_of.simps [of n] split: if_splits)
qed

lemma intlen_loop_digits:
  "sg = 1 \<or> sg = - 1 \<Longrightarrow> intlen_loop (sg * int n) i = i + length (digits_of n)"
proof (induction n arbitrary: i rule: digits_of.induct)
  case (1 n)
  show ?case
  proof (cases "n < 10")
    case True
    then show ?thesis
      using 1 by (subst intlen_loop.simps) (auto simp: sdiv_smod_signed digits_of.simps [of n])
  next
    case False
    then have "sg * int (n div 10) \<noteq> 0" using 1 by auto
    then show ?thesis
      using 1 False by (subst intlen_loop.simps) (simp add: sdiv_smod_signed digits_of.simps [of n])
  qed
qed

lemma intlen_digits: "intlen v = (if v < 0 then 1 else 0) + length (digits_of (nat \<bar>v\<bar>))"
  using intlen_loop_digits [of "sgn v" "nat \<bar>v\<bar>"] intlen_loop_digits [of 1 0]
  by (cases "v = 0") (auto simp: intlen_def sgn_if)

lemma digits_loop_overlay:
  "sg = 1 \<or> sg = - 1 \<Longrightarrow> length (digits_of n) \<le> i \<Longrightarrow> i \<le> length buffer \<Longrightarrow> i < 65536 \<Longrightarrow>
   digits_loop (sg * int n) i buffer =
     Inr (overlay (i - length (digits_of n)) (map (\<lambda>d. word_of_int (48 + sg * int d)) (digits_of n)) buffer)"
proof (induction n arbitrary: i buffer rule: digits_of.induct)
  case (1 n)
  have pos: "0 < i" using "1.prems"(2) by (cases "digits_of n") auto
  then have i': "(i + 65535) mod 65536 = i - 1" using "1.prems"(4) by (simp add: mod_if)
  let ?c = "word_of_int (48 + sg * int (n mod 10)) :: u8"
  let ?b = "buffer[i - 1 := ?c]"
  note unfold = digits_loop.simps [of "sg * int n" i buffer]
  show ?case
  proof (cases "n < 10")
    case True
    have "?b = overlay (i - 1) [?c] buffer"
      using overlay_snoc [of "i - 1" "[]" buffer ?c] pos "1.prems" by simp
    then show ?thesis
      using True pos "1.prems" by (simp add: unfold i' Let_def sdiv_smod_signed digits_of.simps [of n])
  next
    case False
    let ?ds = "map (\<lambda>d. word_of_int (48 + sg * int d) :: u8) (digits_of (n div 10))"
    have len: "length (digits_of n) = Suc (length ?ds)" using False by (simp add: digits_of.simps [of n])
    have "digits_loop (sg * int (n div 10)) (i - 1) ?b = Inr (overlay (i - 1 - length ?ds) ?ds ?b)"
      using "1.IH" [of "i - 1" ?b] False "1.prems" len by simp
    also have "overlay (i - 1 - length ?ds) ?ds ?b = overlay (i - length (digits_of n)) (?ds @ [?c]) buffer"
      using "1.prems" len by (intro nth_equalityI) (auto simp: nth_overlay nth_list_update nth_append)
    finally have rest: "digits_loop (sg * int (n div 10)) (i - 1) ?b =
      Inr (overlay (i - length (digits_of n)) (?ds @ [?c]) buffer)" .
    moreover have "sg * int (n div 10) \<noteq> 0" using False "1.prems"(1) by auto
    moreover have "map (\<lambda>d. word_of_int (48 + sg * int d)) (digits_of n) = ?ds @ [?c]"
      using False by (simp add: digits_of.simps [of n])
    ultimately show ?thesis
      using False pos "1.prems" by (simp add: unfold i' Let_def sdiv_smod_signed)
  qed
qed

lemma length_digits_of: "n < 10 ^ k \<Longrightarrow> 0 < k \<Longrightarrow> length (digits_of n) \<le> k"
proof (induction k arbitrary: n)
  case 0
  then show ?case by simp
next
  case (Suc k)
  show ?case
  proof (cases "n < 10")
    case True
    then show ?thesis by (simp add: digits_of.simps [of n])
  next
    case False
    then have "0 < k" using Suc.prems by (cases k) auto
    moreover have "n div 10 < 10 ^ k" using Suc.prems by (simp add: div_less_iff_less_mult)
    ultimately show ?thesis using Suc.IH False by (simp add: digits_of.simps [of n])
  qed
qed

lemma int_to_string_nonneg:
  assumes "0 \<le> v" and "v < 2 ^ 31" and "intlen v < length buffer"
  shows "int_to_string v buffer =
    Inr (overlay 0 (map (\<lambda>d. word_of_int (48 + int d)) (digits_of (nat v)) @ [0]) buffer)"
proof -
  let ?ds = "map (\<lambda>d. word_of_int (48 + int d) :: u8) (digits_of (nat v))"
  have len: "intlen v = length ?ds" using assms by (simp add: intlen_digits)
  have "nat v < 10 ^ 10" using assms by simp
  then have "length ?ds \<le> 10" using length_digits_of [of "nat v" 10] by simp
  then have "digits_loop v (intlen v) (buffer[intlen v := 0]) = Inr (overlay 0 ?ds (buffer[intlen v := 0]))"
    using digits_loop_overlay [of 1 "nat v" "intlen v" "buffer[intlen v := 0]"] assms len by simp
  also have "overlay 0 ?ds (buffer[intlen v := 0]) = overlay 0 (?ds @ [0]) buffer"
    using assms len by (intro nth_equalityI) (auto simp: nth_overlay nth_list_update nth_append)
  finally show ?thesis using assms by (simp add: int_to_string_def Let_def)
qed

lemma int_to_string_neg:
  assumes "v < 0" and "- (2 ^ 31) \<le> v" and "intlen v < length buffer"
  shows "int_to_string v buffer =
    Inr (overlay 0 (45 # map (\<lambda>d. word_of_int (48 - int d)) (digits_of (nat (- v))) @ [0]) buffer)"
proof -
  let ?ds = "map (\<lambda>d. word_of_int (48 - int d) :: u8) (digits_of (nat (- v)))"
  let ?b = "(buffer[0 := 45])[intlen v := 0]"
  have len: "intlen v = Suc (length ?ds)" using assms by (simp add: intlen_digits)
  have "nat (- v) < 10 ^ 10" using assms by simp
  then have "length ?ds \<le> 10" using length_digits_of [of "nat (- v)" 10] by simp
  then have "digits_loop v (intlen v) ?b = Inr (overlay 1 ?ds ?b)"
    using digits_loop_overlay [of "- 1" "nat (- v)" "intlen v" ?b] assms len by simp
  also have "overlay 1 ?ds ?b = overlay 0 (45 # ?ds @ [0]) buffer"
    using assms len
    by (intro nth_equalityI) (auto simp: nth_overlay nth_list_update nth_append nth_Cons')
  finally have "digits_loop v (intlen v) ?b = Inr (overlay 0 (45 # ?ds @ [0]) buffer)" .
  moreover have "wr buffer 0 45 = Inr (buffer[0 := 45])" using assms by (intro wr_in) linarith
  ultimately show ?thesis using assms by (simp add: int_to_string_def Let_def)
qed

section \<open>Hexadecimal and binary dumps\<close>

lemma length_hex_list [simp]: "length (hex_list w n) = 2 * n"
  by (induction n) auto

lemma hex_bytes_overlay:
  "d + 2 * n \<le> length dst \<Longrightarrow> hex_bytes w n dst d = Inr (overlay d (hex_list w n) dst, d + 2 * n)"
proof (induction n arbitrary: dst d)
  case 0
  then show ?case by simp
next
  case (Suc n)
  let ?hi = "hex_nibble w (n * 8 + 4)" and ?lo = "hex_nibble w (n * 8)"
  have "overlay (d + 2) (hex_list w n) (dst[d := ?hi, Suc d := ?lo]) = overlay d (?hi # ?lo # hex_list w n) dst"
    using Suc.prems by (intro nth_equalityI) (auto simp: nth_overlay nth_list_update nth_Cons')
  then show ?case using Suc by simp
qed

lemma hex_words_overlay:
  assumes "d + 8 * (count div 4 - word) \<le> length dst" and "count div 4 \<le> length src" and "word \<le> count div 4"
  shows "hex_words src dst d count word =
    Inr (overlay d (concat (map (\<lambda>w. hex_list w 4) (drop word (take (count div 4) src)))) dst)"
  using assms
proof (induction src dst d count word rule: hex_words.induct)
  case (1 src dst d count word)
  show ?case
  proof (cases "word < count div 4")
    case False
    then show ?thesis using "1.prems" by (simp add: hex_words.simps [of src])
  next
    case True
    let ?w = "src ! word" and ?rest = "concat (map (\<lambda>w. hex_list w 4) (drop (Suc word) (take (count div 4) src)))"
    have eq: "drop word (take (count div 4) src) = ?w # drop (Suc word) (take (count div 4) src)"
      using True "1.prems" Cons_nth_drop_Suc [of word "take (count div 4) src"] by simp
    have len: "length ?rest = 8 * (count div 4 - Suc word)"
      using "1.prems" by (simp add: length_concat o_def sum_list_triv)
    have hb: "hex_bytes ?w 4 dst d = Inr (overlay d (hex_list ?w 4) dst, d + 8)"
      using hex_bytes_overlay [of d 4 dst ?w] "1.prems" True by simp
    have "hex_words src dst d count word = hex_words src (overlay d (hex_list ?w 4) dst) (d + 8) count (word + 1)"
      using True "1.prems" hb by (simp add: hex_words.simps [of src dst])
    also have "\<dots> = Inr (overlay (d + 8) ?rest (overlay d (hex_list ?w 4) dst))"
      using "1.IH" [OF True rd_in hb refl] "1.prems" True by simp
    also have "overlay (d + 8) ?rest (overlay d (hex_list ?w 4) dst) = overlay d (hex_list ?w 4 @ ?rest) dst"
      using len "1.prems" True by (intro nth_equalityI) (auto simp: nth_overlay nth_append)
    finally show ?thesis by (simp only: eq list.map concat.simps)
  qed
qed

lemma nib_to_hex_nibble: "k < 16 \<Longrightarrow> nibble_of (nib_to_hex ! k) = k"
proof -
  have "\<forall>k \<in> set [0..<16]. nibble_of (nib_to_hex ! k) = k" by code_simp
  then show "k < 16 \<Longrightarrow> nibble_of (nib_to_hex ! k) = k" by simp
qed

lemma nibble_of_hex_nibble: "nibble_of (hex_nibble w k) = unat w div 2 ^ k mod 16"
proof -
  have "drop_bit k w AND 0xF = take_bit 4 (drop_bit k w)"
    by (simp add: take_bit_eq_mask mask_eq_exp_minus_1)
  moreover have "unat (take_bit 4 (drop_bit k w)) = take_bit 4 (drop_bit k (unat w))"
    by (simp only: unsigned_take_bit_eq unat_drop_bit_eq)
  ultimately have "unat (drop_bit k w AND 0xF) = unat w div 2 ^ k mod 16"
    by (simp only:) (simp add: take_bit_eq_mod drop_bit_eq_div)
  then show ?thesis by (simp add: hex_nibble_def nib_to_hex_nibble)
qed

lemma hex_list_value_acc:
  "foldl (\<lambda>a c. 16 * a + nibble_of c) acc (hex_list w n) = acc * 256 ^ n + unat w mod 256 ^ n"
proof (induction n arbitrary: acc)
  case 0
  then show ?case by simp
next
  case (Suc n)
  let ?x = "unat w"
  have p: "(2::nat) ^ (n * 8) = 256 ^ n" "(2::nat) ^ (n * 8 + 4) = 16 * 256 ^ n"
    using power_mult [of "2::nat" 8 n] by (simp_all add: mult.commute power_add)
  have "16 * (?x div (16 * 256 ^ n) mod 16) + ?x div 256 ^ n mod 16 = ?x div 256 ^ n mod 256"
    using mod_mult2_eq [of "?x div 256 ^ n" 16 16] by (simp add: div_mult2_eq [symmetric] mult.commute)
  moreover have "?x mod 256 ^ Suc n = 256 ^ n * (?x div 256 ^ n mod 256) + ?x mod 256 ^ n"
    using mod_mult2_eq [of ?x "256 ^ n" 256] by (simp add: mult.commute)
  moreover have "foldl (\<lambda>a c. 16 * a + nibble_of c) acc (hex_list w (Suc n)) =
      (256 * acc + (16 * (?x div (16 * 256 ^ n) mod 16) + ?x div 256 ^ n mod 16)) * 256 ^ n + ?x mod 256 ^ n"
    by (simp add: Suc.IH nibble_of_hex_nibble p)
  ultimately show ?case by (simp add: algebra_simps)
qed

lemma hex_list_value: "hex_value (hex_list w 4) = unat w"
proof -
  have "unat w < 4294967296" using unsigned_less [of w, where 'a = nat] by simp
  then show ?thesis using hex_list_value_acc [of 0 w 4] by (simp add: hex_value_def)
qed

lemma bin_bits_overlay:
  assumes "d + 32 \<le> length dst" and "b \<le> 32"
  shows "bin_bits w (overlay d (take b (bin_list w)) dst) d b = Inr (overlay d (bin_list w) dst)"
  using assms(2)
proof (induction "32 - b" arbitrary: b)
  case 0
  then show ?case by (simp add: bin_bits.simps bin_list_def)
next
  case (Suc k)
  then have b: "b < 32" by simp
  have len: "length (bin_list w) = 32" by (simp add: bin_list_def)
  have "bin_list w ! b = (if bit w (31 - b) then 49 else 48)" using b by (simp add: bin_list_def)
  then have "(overlay d (take b (bin_list w)) dst)[d + b := (if bit w (31 - b) then 49 else 48)]
      = overlay d (take (Suc b) (bin_list w)) dst"
    using overlay_snoc [of d "take b (bin_list w)" dst "bin_list w ! b"] b len assms
    by (simp add: take_Suc_conv_app_nth)
  then show ?case
    using Suc.hyps(1) [of "Suc b"] Suc.hyps(2) b len assms by (simp add: bin_bits.simps [of w _ d b])
qed

lemma str_count_loop_fails: "str_count_loop s target i count = Inl Out_of_bounds"
proof (induction s target i count rule: str_count_loop.induct)
  case (1 s target i count)
  then show ?case by (cases "i < length s") (simp_all add: str_count_loop.simps [of s target i])
qed

section \<open>Properties\<close>

lemma cstr_at_literal: "0 \<notin> set t \<Longrightarrow> cstr_at (t @ [0]) 0 t"
  by (simp add: cstr_at_def)

lemmas cstring_eval = cstr_of_def cstr_at_def

text \<open>\<open>strcpy\<close> into a buffer with room for the string and its terminator leaves exactly that string at
  the destination and changes no byte outside the copied region.\<close>

theorem strcpy_copies:
  assumes "cstr_at src s t" and "d + length t < length dst"
  shows "\<exists>dst'. strcpy dst d src s = Inr dst' \<and> cstr_at dst' d t \<and> length dst' = length dst \<and>
    (\<forall>i < length dst. i < d \<or> d + length t < i \<longrightarrow> dst' ! i = dst ! i)"
proof -
  have "0 \<notin> set t" using assms(1) by (simp add: cstr_at_def)
  then show ?thesis
    using strcpy_cstr [OF assms] cstr_at_overlay [of t d dst] assms(2) by (auto simp: nth_overlay)
qed

theorem strcpy_copies_witness:
  "\<exists>dst'. strcpy (replicate 8 7) 2 [65, 66, 0, 9] 0 = Inr dst' \<and> cstr_at dst' 2 [65, 66] \<and> length dst' = 8"
proof -
  have "cstr_at [65, 66, 0, 9] 0 [65, 66]" by (simp add: cstr_at_def)
  from strcpy_copies [OF this, of 2 "replicate 8 7"] show ?thesis by auto
qed

text \<open>\<open>strcmp\<close> on two strings returns 0 exactly when they are equal.\<close>

theorem strcmp_zero_iff_equal:
  assumes "cstr_at m p s" and "cstr_at n q t"
  shows "\<exists>r. strcmp m p n q = Inr r \<and> (r = 0 \<longleftrightarrow> s = t)"
  using strcmp_cstr [OF assms] .

theorem strcmp_zero_iff_equal_witness:
  "\<exists>r. strcmp (cstr_of ''abc'' @ [0]) 0 (cstr_of ''ab'' @ [0]) 0 = Inr r \<and>
     (r = 0 \<longleftrightarrow> cstr_of ''abc'' = cstr_of ''ab'')"
  by (rule strcmp_zero_iff_equal) (simp_all add: cstring_eval)

text \<open>C34: \<open>memmove\<close> copies as if through an intermediate buffer: whatever the overlap of the two
  regions, the destination receives the old bytes of the source, and no other byte changes.\<close>

theorem memmove_as_if_buffered:
  assumes "s + count \<le> length m" and "d + count \<le> length m"
  shows "\<exists>m'. memmove m d s count = Inr m' \<and> take count (drop d m') = take count (drop s m) \<and>
    length m' = length m \<and> (\<forall>i < length m. i < d \<or> d + count \<le> i \<longrightarrow> m' ! i = m ! i)"
proof -
  let ?m = "overlay d (take count (drop s m)) m"
  have "length (take count (drop s m)) = count" using assms by simp
  then have "take count (drop d ?m) = take count (drop s m)"
    using assms take_drop_overlay_same [of d "take count (drop s m)" m] by metis
  then show ?thesis
    using memmove_overlay [OF assms] assms by (auto simp: nth_overlay)
qed

theorem memmove_as_if_buffered_witness:
  "\<exists>m'. memmove [1, 2, 3, 4, 5] 1 0 4 = Inr m' \<and> take 4 (drop 1 m') = [1, 2, 3, 4]"
  using memmove_as_if_buffered [of 0 4 "[1, 2, 3, 4, 5]" 1] by auto

text \<open>\<open>int_to_string\<close> on a non-negative \<open>int\<close> writes its decimal digits, most significant first, and a
  terminating NUL, for a buffer longer than \<open>intlen\<close> of the value; the digits denote the value.\<close>

theorem int_to_string_decimal:
  assumes "0 \<le> v" and "v < 2 ^ 31" and "intlen v < length buffer"
  shows "\<exists>buf' ds. int_to_string v buffer = Inr buf' \<and> cstr_at buf' 0 (map (\<lambda>d. 48 + of_nat d) ds) \<and>
    (\<forall>d \<in> set ds. d < 10) \<and> length ds = intlen v \<and> int (digits_value ds) = v"
proof -
  let ?ds = "digits_of (nat v)"
  let ?t = "map (\<lambda>d. 48 + of_nat d :: u8) ?ds"
  have ne: "48 + of_nat d \<noteq> (0 :: u8)" if "d < 10" for d
  proof -
    have "unat (48 + of_nat d :: u8) = 48 + d" using that by (simp add: unat_word_ariths unat_of_nat)
    then show ?thesis by auto
  qed
  then have "0 \<notin> set ?t" using digits_of_digits by fastforce
  moreover have len: "length ?t = intlen v" using assms by (simp add: intlen_digits)
  ultimately have "cstr_at (overlay 0 (?t @ [0]) buffer) 0 ?t"
    using cstr_at_overlay [of ?t 0 buffer] assms(3) by simp
  moreover have "int_to_string v buffer = Inr (overlay 0 (?t @ [0]) buffer)"
    using int_to_string_nonneg [OF assms] by simp
  ultimately show ?thesis
    using len assms digits_of_digits digits_of_value [of "nat v"]
    by (intro exI [of _ "overlay 0 (?t @ [0]) buffer"] exI [of _ ?ds]) auto
qed

theorem int_to_string_decimal_witness:
  "\<exists>buf' ds. int_to_string 409 (replicate 12 1) = Inr buf' \<and>
    cstr_at buf' 0 (map (\<lambda>d. 48 + of_nat d) ds) \<and> int (digits_value ds) = 409"
proof -
  have "intlen 409 < length (replicate 12 (1 :: u8))" by (simp add: intlen_digits digits_of.simps)
  from int_to_string_decimal [OF _ _ this] show ?thesis by auto
qed

text \<open>On a negative value \<open>int_to_string\<close> writes a minus sign followed, for each digit \<open>d\<close> of the
  absolute value, by the character \<open>'0' - d\<close> (the remainder of C is negative), so every non-zero digit
  is printed as a character that is not a digit: -5 is printed as the two characters minus, plus.\<close>

theorem int_to_string_negative_digits:
  assumes "v < 0" and "- (2 ^ 31) \<le> v" and "intlen v < length buffer"
  shows "int_to_string v buffer =
    Inr (overlay 0 (45 # map (\<lambda>d. word_of_int (48 - int d)) (digits_of (nat (- v))) @ [0]) buffer)"
  using int_to_string_neg [OF assms] .

theorem int_to_string_negative_digits_witness: "int_to_string (- 5) [1, 1, 1, 1] = Inr [45, 43, 0, 1]"
proof -
  have "intlen (- 5) < length [1, 1, 1, 1 :: u8]" by (simp add: intlen_digits digits_of.simps)
  from int_to_string_negative_digits [OF _ _ this] show ?thesis
    by (simp add: digits_of.simps overlay_def)
qed

text \<open>\<open>buff_to_hexstring\<close> writes eight hexadecimal digits per 32-bit word, and reading the digits of
  each group back gives the word: the dump loses nothing.\<close>

theorem hexstring_roundtrip:
  assumes "count = 4 * length src" and "d + 8 * length src \<le> length dst"
  shows "\<exists>dst'. buff_to_hexstring src dst d count = Inr dst' \<and>
    (\<forall>k < length src. hex_value (take 8 (drop (d + 8 * k) dst')) = unat (src ! k))"
proof -
  let ?hex = "concat (map (\<lambda>w. hex_list w 4) src)"
  have eq: "buff_to_hexstring src dst d count = Inr (overlay d ?hex dst)"
    using hex_words_overlay [of d count 0 dst src] assms by (simp add: buff_to_hexstring_def)
  have len: "length ?hex = 8 * length src" by (simp add: length_concat o_def sum_list_triv)
  have chunk: "take 8 (drop (8 * k) ?hex) = hex_list (src ! k) 4" if "k < length src" for k
    using that
  proof (induction src arbitrary: k)
    case Nil
    then show ?case by simp
  next
    case (Cons w src)
    then show ?case by (cases k) auto
  qed
  have "take 8 (drop (d + 8 * k) (overlay d ?hex dst)) = take 8 (drop (8 * k) ?hex)" if "k < length src" for k
  proof -
    have "drop (d + 8 * k) (overlay d ?hex dst) = drop (8 * k) ?hex @ drop (d + length ?hex) dst"
      using that len assms(2) by (simp add: overlay_def)
    then show ?thesis using that len by simp
  qed
  then show ?thesis using eq chunk hex_list_value by auto
qed

theorem hexstring_roundtrip_witness:
  "\<exists>dst'. buff_to_hexstring [0xDEADBEEF] (replicate 9 0) 0 4 = Inr dst' \<and>
     hex_value (take 8 dst') = unat (0xDEADBEEF :: u32)"
  using hexstring_roundtrip [of 4 "[0xDEADBEEF]" 0 "replicate 9 0"] by auto

end
