(* ===== verification/Heap.thy ===== *)
theory Heap
  imports Bitmap CString "HOL-Library.Multiset"
begin

text \<open>
  The kernel heap and the physical page allocator of \<open>src/src/alloc.c\<close>: \<open>kmalloc\<close>, \<open>kfree\<close>,
  \<open>kcalloc\<close>, \<open>krealloc\<close>, \<open>allocate_page\<close> and \<open>free_page\<close>.

  An allocator is the record of the C struct: the address of its first unit, a table of 256 entries
  and the occupation bitmap. \<open>kernel_allocator\<close> counts bytes, \<open>page_allocator\<close> counts pages; the two
  structs have the same fields. Addresses are \<open>nat\<close>, with the wrap-around of 32-bit pointers written as
  \<open>w32\<close>. \<open>kcalloc\<close> and \<open>krealloc\<close> touch the memory behind the addresses: \<open>mem\<close> is the memory that is
  mapped from \<open>bottom\<close> upwards, and an access outside it ends in \<open>Out_of_bounds\<close>.
\<close>

section \<open>Definitions\<close>

record AllocEntry =
  base_ptr :: nat
  ae_range :: BitRange
  utilized :: bool

record AllocArray =
  bottom :: nat
  entries :: "AllocEntry list"
  bitmap :: "u32 list"
  active :: bool

definition MAX_ALLOCATIONS :: nat where
  "MAX_ALLOCATIONS = 256"

definition KERNEL_BITMAP_CAPACITY :: nat where
  "KERNEL_BITMAP_CAPACITY = 1024"

definition PAGE_BITMAP_CAPACITY :: nat where
  "PAGE_BITMAP_CAPACITY = 262144"

text \<open>The statically zeroed allocator, with the bitmap length of its struct.\<close>

definition zero_allocator :: "nat \<Rightarrow> AllocArray" where
  "zero_allocator words =
     \<lparr>bottom = 0,
      entries = replicate MAX_ALLOCATIONS \<lparr>base_ptr = 0, ae_range = no_range, utilized = False\<rparr>,
      bitmap = replicate words 0, active = False\<rparr>"

text \<open>The loops over the entry table: the first entry with a property, from index \<open>i\<close> on.\<close>

function find_entry :: "(AllocEntry \<Rightarrow> bool) \<Rightarrow> AllocEntry list \<Rightarrow> nat \<Rightarrow> nat option res" where
  "find_entry P es i =
     (if i < MAX_ALLOCATIONS then
        obind (rd es i) (\<lambda>e. if P e then Inr (Some i) else find_entry P es (i + 1))
      else Inr None)"
  by pat_completeness auto
termination
  by (relation "measure (\<lambda>(P, es, i). MAX_ALLOCATIONS - i)") auto

declare find_entry.simps [simp del]

definition kmalloc :: "AllocArray \<Rightarrow> nat \<Rightarrow> (nat \<times> AllocArray) res" where
  "kmalloc a sz =
     obind (assert_that (active a) ''allocator must be initialized first'') (\<lambda>_.
     obind (alloc_bitrange (bitmap a) KERNEL_BITMAP_CAPACITY sz True) (\<lambda>(allocation, bm).
       if br_length allocation = 0 then Inl (Panic ''Insufficient space in heap'')
       else
         let new_entry = \<lparr>base_ptr = w32 (bottom a + br_start allocation),
                          ae_range = allocation, utilized = True\<rparr> in
         obind (find_entry (\<lambda>e. \<not> utilized e) (entries a) 0) (\<lambda>slot.
           case slot of
             Some entry \<Rightarrow>
               Inr (base_ptr new_entry, a\<lparr>bitmap := bm, entries := (entries a)[entry := new_entry]\<rparr>)
           | None \<Rightarrow> Inl (Panic ''Maximum allocations reached''))))"

text \<open>The body \<open>kfree\<close>, \<open>krealloc\<close> and \<open>free_page\<close> share: retire the first entry with that address.\<close>

definition release_entry :: "AllocArray \<Rightarrow> nat \<Rightarrow> (BitRange \<times> AllocArray) option res" where
  "release_entry a ptr =
     obind (find_entry (\<lambda>e. base_ptr e = ptr) (entries a) 0) (\<lambda>slot.
       case slot of
         None \<Rightarrow> Inr None
       | Some entry \<Rightarrow>
           let rng = ae_range (entries a ! entry) in
           obind (dealloc_bitrange (bitmap a) rng) (\<lambda>bm.
             Inr (Some (rng, a\<lparr>bitmap := bm,
                               entries := (entries a)[entry := (entries a ! entry)\<lparr>utilized := False\<rparr>]\<rparr>))))"

definition kfree :: "AllocArray \<Rightarrow> nat \<Rightarrow> AllocArray res" where
  "kfree a ptr =
     obind (assert_that (active a) ''allocator must be initialized first'') (\<lambda>_.
     obind (release_entry a ptr) (\<lambda>r.
       case r of
         Some (_, a') \<Rightarrow> Inr a'
       | None \<Rightarrow> Inl (Panic ''Couldn't free ptr'')))"

text \<open>The offset of an address in the heap's memory; an address below it is outside.\<close>

definition heap_off :: "AllocArray \<Rightarrow> nat \<Rightarrow> nat res" where
  "heap_off a ptr = (if bottom a \<le> ptr then Inr (ptr - bottom a) else Inl Out_of_bounds)"

definition kcalloc :: "AllocArray \<Rightarrow> u8 list \<Rightarrow> nat \<Rightarrow> nat \<Rightarrow> (nat \<times> AllocArray \<times> u8 list) res" where
  "kcalloc a mem num sz =
     obind (assert_that (active a) ''allocator must be initialized first'') (\<lambda>_.
     obind (kmalloc a (w32 (num * sz))) (\<lambda>(ptr, a').
     obind (heap_off a' ptr) (\<lambda>off.
     obind (memset mem off 0 (w32 (num * sz))) (\<lambda>mem'.
       Inr (ptr, a', mem')))))"

definition krealloc :: "AllocArray \<Rightarrow> u8 list \<Rightarrow> nat \<Rightarrow> nat \<Rightarrow> (nat \<times> AllocArray \<times> u8 list) res" where
  "krealloc a mem ptr new_size =
     obind (assert_that (active a) ''allocator must be initialized first'') (\<lambda>_.
     obind (kmalloc a new_size) (\<lambda>(new_ptr, a1).
     obind (release_entry a1 ptr) (\<lambda>r.
       case r of
         None \<Rightarrow> Inl (Panic ''Couldn't realloc ptr'')
       | Some (rng, a2) \<Rightarrow>
           obind (heap_off a2 new_ptr) (\<lambda>d.
           obind (heap_off a2 ptr) (\<lambda>s.
           obind (memmove mem d s (br_length rng)) (\<lambda>mem'.
             Inr (new_ptr, a2, mem')))))))"

definition allocate_page :: "AllocArray \<Rightarrow> (nat \<times> AllocArray) res" where
  "allocate_page a =
     obind (assert_that (active a) ''allocator must be initialized first'') (\<lambda>_.
     obind (alloc_bitrange (bitmap a) PAGE_BITMAP_CAPACITY 1 False) (\<lambda>(allocation, bm).
       if br_length allocation = 0 then Inl (Panic ''Insufficient space in memory for page allocation'')
       else
         let new_entry = \<lparr>base_ptr = w32 (bottom a + w32 (br_start allocation * 4096)),
                          ae_range = allocation, utilized = True\<rparr> in
         obind (find_entry (\<lambda>e. \<not> utilized e) (entries a) 0) (\<lambda>slot.
           case slot of
             Some entry \<Rightarrow>
               Inr (base_ptr new_entry, a\<lparr>bitmap := bm, entries := (entries a)[entry := new_entry]\<rparr>)
           | None \<Rightarrow> Inl (Panic ''Maximum allocations reached''))))"

definition free_page :: "AllocArray \<Rightarrow> nat \<Rightarrow> AllocArray res" where
  "free_page a ptr =
     obind (assert_that (active a) ''allocator must be initialized first'') (\<lambda>_.
     obind (release_entry a ptr) (\<lambda>r.
       case r of
         Some (_, a') \<Rightarrow> Inr a'
       | None \<Rightarrow> Inl (Panic ''Couldn't free ptr'')))"

text \<open>The first half of \<open>initialize_allocator\<close>: the kernel takes the first 1024 pages.\<close>

definition reserve_kernel_pages :: "AllocArray \<Rightarrow> AllocArray res" where
  "reserve_kernel_pages a0 =
     (let a = a0\<lparr>bottom := 0, active := True\<rparr> in
      obind (alloc_bitrange (bitmap a) PAGE_BITMAP_CAPACITY 1024 False) (\<lambda>(kernel_range, bm).
      obind (assert_that (br_length kernel_range = 1024 \<and> br_start kernel_range = 0) ''Should be the same'') (\<lambda>_.
      obind (rd (entries a) 0) (\<lambda>e0.
      obind (assert_that (\<not> utilized e0) ''Shouldn't be currently utilized'') (\<lambda>_.
        Inr (a\<lparr>bitmap := bm,
               entries := (entries a)[0 := \<lparr>base_ptr = bottom a, ae_range = kernel_range, utilized = True\<rparr>]\<rparr>))))))"

text \<open>
  What the tables mean. \<open>live_ranges\<close> are the ranges of the entries in use; \<open>heap_live\<close> maps the
  address of every block in use to its size.
\<close>

definition live_ranges :: "AllocEntry list \<Rightarrow> BitRange list" where
  "live_ranges es = map ae_range (filter utilized es)"

definition heap_live :: "AllocArray \<Rightarrow> nat \<rightharpoonup> nat" where
  "heap_live a p = map_option (\<lambda>e. br_length (ae_range e)) (find (\<lambda>e. utilized e \<and> base_ptr e = p) (entries a))"

text \<open>
  The entry table is well formed when every entry in use holds the address of its range, and no
  retired entry stands before an entry in use with the same address: the loops that release a
  block take the first entry with the address, in use or not.
\<close>

definition table_inv :: "(nat \<Rightarrow> nat) \<Rightarrow> AllocEntry list \<Rightarrow> bool" where
  "table_inv addr es \<longleftrightarrow> length es = MAX_ALLOCATIONS \<and>
     (\<forall>i < length es. utilized (es ! i) \<longrightarrow> base_ptr (es ! i) = addr (br_start (ae_range (es ! i)))) \<and>
     (\<forall>j < length es. \<forall>i < j. utilized (es ! j) \<longrightarrow> \<not> utilized (es ! i) \<longrightarrow>
        base_ptr (es ! i) \<noteq> base_ptr (es ! j))"

section \<open>The entry table\<close>

lemma find_entry_from:
  assumes "length es = MAX_ALLOCATIONS" and "i \<le> MAX_ALLOCATIONS"
  shows "find_entry P es i = Inr None \<and> (\<forall>j < length es. i \<le> j \<longrightarrow> \<not> P (es ! j)) \<or>
    (\<exists>k. find_entry P es i = Inr (Some k) \<and> i \<le> k \<and> k < length es \<and> P (es ! k) \<and> (\<forall>j < k. i \<le> j \<longrightarrow> \<not> P (es ! j)))"
  using assms
proof (induction P es i rule: find_entry.induct)
  case (1 P es i)
  show ?case
  proof (cases "i < MAX_ALLOCATIONS \<and> \<not> P (es ! i)")
    case True
    then have "find_entry P es i = find_entry P es (i + 1)"
      using "1.prems" by (simp add: find_entry.simps [of P es i])
    moreover have *: "i \<le> j \<longleftrightarrow> j = i \<or> i + 1 \<le> j" for j by auto
    ultimately show ?thesis
      using "1.IH" [of "es ! i"] True "1.prems" by (auto simp: *)
  next
    case False
    then show ?thesis using "1.prems" by (auto simp: find_entry.simps [of P es i])
  qed
qed

lemma find_entry_cases:
  assumes "length es = MAX_ALLOCATIONS"
  obtains (none) "find_entry P es 0 = Inr None" and "\<And>j. j < length es \<Longrightarrow> \<not> P (es ! j)"
  | (some) k where "find_entry P es 0 = Inr (Some k)" and "k < length es" and "P (es ! k)"
      and "\<And>j. j < k \<Longrightarrow> \<not> P (es ! j)"
  using find_entry_from [OF assms, of 0 P] by auto

lemma find_entry_first:
  assumes "length es = MAX_ALLOCATIONS" and "k < length es" and "P (es ! k)" and "\<And>j. j < k \<Longrightarrow> \<not> P (es ! j)"
  shows "find_entry P es 0 = Inr (Some k)"
  using assms(1)
proof (cases rule: find_entry_cases [of es P])
  case (some k')
  then show ?thesis using assms(3,4) by (metis nat_neq_iff)
qed (use assms in auto)

lemma filter_update_live:
  assumes "k < length es" and "\<not> P (es ! k)" and "P e"
  shows "filter P (es[k := e]) = filter P (take k es) @ e # filter P (drop (Suc k) es)"
    and "filter P es = filter P (take k es) @ filter P (drop (Suc k) es)"
proof -
  show "filter P (es[k := e]) = filter P (take k es) @ e # filter P (drop (Suc k) es)"
    using assms by (simp add: upd_conv_take_nth_drop)
  have "filter P es = filter P (take k es @ es ! k # drop (Suc k) es)"
    using assms(1) by (simp add: id_take_nth_drop [symmetric])
  then show "filter P es = filter P (take k es) @ filter P (drop (Suc k) es)"
    using assms(2) by simp
qed

lemma filter_update_retired:
  assumes "k < length es" and "P (es ! k)" and "\<not> P e"
  shows "filter P es = filter P (take k es) @ es ! k # filter P (drop (Suc k) es)"
    and "filter P (es[k := e]) = filter P (take k es) @ filter P (drop (Suc k) es)"
proof -
  have "filter P es = filter P (take k es @ es ! k # drop (Suc k) es)"
    using assms(1) by (simp add: id_take_nth_drop [symmetric])
  then show "filter P es = filter P (take k es) @ es ! k # filter P (drop (Suc k) es)"
    using assms(2) by simp
  show "filter P (es[k := e]) = filter P (take k es) @ filter P (drop (Suc k) es)"
    using assms by (simp add: upd_conv_take_nth_drop)
qed

text \<open>Storing a new entry in the first unused slot keeps the table well formed.\<close>

lemma table_inv_install:
  assumes "table_inv addr es" and "k < length es" and "\<And>j. j < k \<Longrightarrow> utilized (es ! j)"
    and "utilized e" and "base_ptr e = addr (br_start (ae_range e))"
  shows "table_inv addr (es[k := e])"
  unfolding table_inv_def
proof (intro conjI allI impI)
  fix i j
  assume "j < length (es[k := e])" "i < j" "utilized (es[k := e] ! j)" "\<not> utilized (es[k := e] ! i)"
  then show "base_ptr (es[k := e] ! i) \<noteq> base_ptr (es[k := e] ! j)"
    using assms by (auto simp: table_inv_def nth_list_update split: if_splits)
qed (use assms in \<open>auto simp: table_inv_def nth_list_update\<close>)

lemma table_inv_retire:
  assumes "table_inv addr es" and "k < length es" and "utilized (es ! k)"
    and "\<And>j. j < length es \<Longrightarrow> utilized (es ! j) \<Longrightarrow> base_ptr (es ! j) = base_ptr (es ! k) \<Longrightarrow> j = k"
  shows "table_inv addr (es[k := (es ! k)\<lparr>utilized := False\<rparr>])"
  unfolding table_inv_def
proof (intro conjI allI impI)
  fix i j
  assume "j < length (es[k := (es ! k)\<lparr>utilized := False\<rparr>])" "i < j"
    "utilized (es[k := (es ! k)\<lparr>utilized := False\<rparr>] ! j)"
    "\<not> utilized (es[k := (es ! k)\<lparr>utilized := False\<rparr>] ! i)"
  then show "base_ptr (es[k := (es ! k)\<lparr>utilized := False\<rparr>] ! i) \<noteq> base_ptr (es[k := (es ! k)\<lparr>utilized := False\<rparr>] ! j)"
    using assms(1,2) assms(4) [of j] by (auto simp: table_inv_def nth_list_update split: if_splits)
qed (use assms in \<open>auto simp: table_inv_def nth_list_update split: if_splits\<close>)

lemma live_nth_disjoint:
  assumes "disjoint_ranges (live_ranges es)" and "i < j" and "j < length es"
    and "utilized (es ! i)" and "utilized (es ! j)"
  shows "br_set (ae_range (es ! i)) \<inter> br_set (ae_range (es ! j)) = {}"
proof -
  have "es = take i es @ es ! i # drop (Suc i) es" using assms by (simp add: id_take_nth_drop [symmetric])
  then have "live_ranges es = live_ranges (take i es) @ ae_range (es ! i) # live_ranges (drop (Suc i) es)"
    using assms(4) filter_update_retired(1) [of i es utilized "(es ! i)\<lparr>utilized := False\<rparr>"] assms(2,3)
    by (simp add: live_ranges_def)
  moreover have "es ! j \<in> set (drop (Suc i) es)"
    using assms(2,3) by (auto simp: in_set_conv_nth intro!: exI [of _ "j - Suc i"])
  then have "ae_range (es ! j) \<in> set (live_ranges (drop (Suc i) es))"
    using assms(5) by (auto simp: live_ranges_def)
  ultimately show ?thesis
    using assms(1) by (auto simp: disjoint_ranges_append disjoint_ranges_set simp del: disjoint_ranges.simps(2))
qed

lemma live_nth_mem: "i < length es \<Longrightarrow> utilized (es ! i) \<Longrightarrow> ae_range (es ! i) \<in> set (live_ranges es)"
  by (auto simp: live_ranges_def)

lemma live_nth_nonempty:
  assumes "disjoint_ranges (live_ranges es)" and "i < length es" and "utilized (es ! i)"
  shows "0 < br_length (ae_range (es ! i))"
proof -
  have "r \<in> set rs \<Longrightarrow> disjoint_ranges rs \<Longrightarrow> 0 < br_length r" for r rs by (induction rs) auto
  then show ?thesis using live_nth_mem [OF assms(2,3)] assms(1) by blast
qed

lemma live_nth_unique:
  assumes "disjoint_ranges (live_ranges es)" and "i < length es" and "j < length es"
    and "utilized (es ! i)" and "utilized (es ! j)"
    and "br_start (ae_range (es ! i)) = br_start (ae_range (es ! j))"
  shows "i = j"
proof (rule ccontr)
  assume "i \<noteq> j"
  then have "br_set (ae_range (es ! i)) \<inter> br_set (ae_range (es ! j)) = {}"
    using live_nth_disjoint [OF assms(1), of i j] live_nth_disjoint [OF assms(1), of j i] assms
    by (cases "i < j") auto
  moreover have "br_start (ae_range (es ! i)) \<in> br_set (ae_range (es ! i))"
    "br_start (ae_range (es ! i)) \<in> br_set (ae_range (es ! j))"
    using assms live_nth_nonempty [OF assms(1)] by (auto simp: br_set_def)
  ultimately show False by blast
qed

text \<open>An entry table whose blocks in use are disjoint and whose addresses are those of their ranges.\<close>

definition table_ok :: "(nat \<Rightarrow> nat) \<Rightarrow> nat \<Rightarrow> AllocEntry list \<Rightarrow> bool" where
  "table_ok addr lim es \<longleftrightarrow> table_inv addr es \<and> disjoint_ranges (live_ranges es) \<and> inj_on addr {..<lim} \<and>
     (\<forall>r \<in> set (live_ranges es). br_start r + br_length r \<le> lim)"

lemma table_ok_unique:
  assumes "table_ok addr lim es" and "i < length es" and "j < length es"
    and "utilized (es ! i)" and "utilized (es ! j)" and "base_ptr (es ! i) = base_ptr (es ! j)"
  shows "i = j"
proof -
  let ?s = "\<lambda>i. br_start (ae_range (es ! i))"
  have "addr (?s i) = addr (?s j)" using assms by (simp add: table_ok_def table_inv_def)
  moreover have "?s i < lim" "?s j < lim"
    using assms live_nth_nonempty [of es i] live_nth_nonempty [of es j] live_nth_mem [of i es] live_nth_mem [of j es]
    by (fastforce simp: table_ok_def)+
  ultimately have "?s i = ?s j" using assms(1) by (auto simp: table_ok_def dest: inj_onD)
  then show ?thesis using live_nth_unique [of es i j] assms by (simp add: table_ok_def)
qed

lemma heap_live_iff:
  assumes "table_ok addr lim (entries a)"
  shows "heap_live a p = Some n \<longleftrightarrow>
    (\<exists>i < length (entries a). utilized (entries a ! i) \<and> base_ptr (entries a ! i) = p \<and>
       br_length (ae_range (entries a ! i)) = n)"
proof
  assume "heap_live a p = Some n"
  then show "\<exists>i < length (entries a). utilized (entries a ! i) \<and> base_ptr (entries a ! i) = p \<and>
       br_length (ae_range (entries a ! i)) = n"
    by (auto simp: heap_live_def find_Some_iff)
next
  assume "\<exists>i < length (entries a). utilized (entries a ! i) \<and> base_ptr (entries a ! i) = p \<and>
       br_length (ae_range (entries a ! i)) = n"
  then obtain i where i: "i < length (entries a)" "utilized (entries a ! i)" "base_ptr (entries a ! i) = p"
    "br_length (ae_range (entries a ! i)) = n" by blast
  have "\<not> (utilized (entries a ! j) \<and> base_ptr (entries a ! j) = p)" if "j < i" for j
    using table_ok_unique [OF assms i(1), of j] i that by auto
  then have "find (\<lambda>e. utilized e \<and> base_ptr e = p) (entries a) = Some (entries a ! i)"
    unfolding find_Some_iff using i by (intro exI [of _ i]) simp
  then show "heap_live a p = Some n" using i by (simp add: heap_live_def)
qed

text \<open>Installing a block in the first unused slot: the table stays well formed and the new block is
  the only change to the blocks in use.\<close>

lemma table_ok_install:
  assumes ok: "table_ok addr lim es" and k: "k < length es" "\<not> utilized (es ! k)" "\<And>j. j < k \<Longrightarrow> utilized (es ! j)"
    and e: "utilized e" "base_ptr e = addr (br_start (ae_range e))"
    and r: "disjoint_ranges (ae_range e # live_ranges es)" "br_start (ae_range e) + br_length (ae_range e) \<le> lim"
  shows "table_ok addr lim (es[k := e])"
    and "mset (live_ranges (es[k := e])) = mset (ae_range e # live_ranges es)"
proof -
  note split = filter_update_live [OF k(1,2) e(1)]
  show ms: "mset (live_ranges (es[k := e])) = mset (ae_range e # live_ranges es)"
    by (simp add: live_ranges_def split)
  then have "set (live_ranges (es[k := e])) = set (ae_range e # live_ranges es)"
    by (metis set_mset_mset)
  moreover have "disjoint_ranges (live_ranges (es[k := e]))"
    using r(1) by (auto simp: live_ranges_def split disjoint_ranges_append disjoint_ranges_set
        simp del: disjoint_ranges.simps(2))
  ultimately show "table_ok addr lim (es[k := e])"
    using ok r(2) table_inv_install [of addr es k e] k e by (auto simp: table_ok_def)
qed

lemma heap_live_install:
  assumes "table_ok addr lim (entries a)" and "table_ok addr lim ((entries a)[k := e])"
    and "k < length (entries a)" and "\<not> utilized (entries a ! k)" and "utilized e"
  shows "heap_live a (base_ptr e) = None"
    and "heap_live (a\<lparr>bitmap := bm, entries := (entries a)[k := e]\<rparr>) = (heap_live a)(base_ptr e \<mapsto> br_length (ae_range e))"
proof -
  let ?es = "(entries a)[k := e]" and ?a = "a\<lparr>bitmap := bm, entries := (entries a)[k := e]\<rparr>"
  have ne: "i \<noteq> k \<Longrightarrow> i < length (entries a) \<Longrightarrow> utilized (entries a ! i) \<Longrightarrow> base_ptr (entries a ! i) \<noteq> base_ptr e" for i
    using table_ok_unique [OF assms(2), of i k] assms(3,5) by auto
  show "heap_live a (base_ptr e) = None"
    using heap_live_iff [OF assms(1), of "base_ptr e"] ne assms(4) by (metis not_Some_eq)
  show "heap_live ?a = (heap_live a)(base_ptr e \<mapsto> br_length (ae_range e))"
  proof (rule map_eqI)
    fix p n
    have "table_ok addr lim (entries ?a)" using assms(2) by simp
    then have "heap_live ?a p = Some n \<longleftrightarrow> (\<exists>i < length ?es. utilized (?es ! i) \<and> base_ptr (?es ! i) = p \<and>
        br_length (ae_range (?es ! i)) = n)"
      by (simp add: heap_live_iff)
    also have "\<dots> \<longleftrightarrow> ((heap_live a)(base_ptr e \<mapsto> br_length (ae_range e))) p = Some n"
      unfolding ex_update_iff [OF assms(3), of e "\<lambda>e. utilized e \<and> base_ptr e = p \<and> br_length (ae_range e) = n"]
      using heap_live_iff [OF assms(1), of p n] ne assms(3-5) by auto
    finally show "heap_live ?a p = Some n \<longleftrightarrow> ((heap_live a)(base_ptr e \<mapsto> br_length (ae_range e))) p = Some n" .
  qed
qed

text \<open>Retiring the block at an address in use: the loop finds its entry, and no other block changes.\<close>

lemma table_ok_retire:
  assumes ok: "table_ok addr lim es" and k: "k < length es" "utilized (es ! k)"
  shows "find_entry (\<lambda>e. base_ptr e = base_ptr (es ! k)) es 0 = Inr (Some k)"
    and "table_ok addr lim (es[k := (es ! k)\<lparr>utilized := False\<rparr>])"
    and "\<exists>rs1 rs2. live_ranges es = rs1 @ ae_range (es ! k) # rs2 \<and>
      live_ranges (es[k := (es ! k)\<lparr>utilized := False\<rparr>]) = rs1 @ rs2"
proof -
  let ?e = "(es ! k)\<lparr>utilized := False\<rparr>"
  have uniq: "\<And>j. j < length es \<Longrightarrow> utilized (es ! j) \<Longrightarrow> base_ptr (es ! j) = base_ptr (es ! k) \<Longrightarrow> j = k"
    using table_ok_unique [OF ok] k by blast
  have "base_ptr (es ! j) \<noteq> base_ptr (es ! k)" if "j < k" for j
    using ok k that uniq [of j] by (cases "utilized (es ! j)") (auto simp: table_ok_def table_inv_def)
  then show "find_entry (\<lambda>e. base_ptr e = base_ptr (es ! k)) es 0 = Inr (Some k)"
    using ok k by (intro find_entry_first) (auto simp: table_ok_def table_inv_def)
  note split = filter_update_retired [of k es utilized ?e]
  show split': "\<exists>rs1 rs2. live_ranges es = rs1 @ ae_range (es ! k) # rs2 \<and> live_ranges (es[k := ?e]) = rs1 @ rs2"
    using split k by (auto simp: live_ranges_def)
  show "table_ok addr lim (es[k := ?e])"
    using ok table_inv_retire [of addr es k] k uniq split'
    by (auto simp: table_ok_def disjoint_ranges_append)
qed

lemma heap_live_retire:
  assumes ok: "table_ok addr lim (entries a)" and k: "k < length (entries a)" "utilized (entries a ! k)"
  shows "heap_live (a\<lparr>bitmap := bm, entries := (entries a)[k := (entries a ! k)\<lparr>utilized := False\<rparr>]\<rparr>) =
    (heap_live a)(base_ptr (entries a ! k) := None)" (is "heap_live ?a = _")
proof (rule map_eqI)
  fix p n
  have "table_ok addr lim (entries ?a)" using table_ok_retire(2) [OF assms] by simp
  then have "heap_live ?a p = Some n \<longleftrightarrow> (\<exists>i < length (entries ?a). utilized (entries ?a ! i) \<and>
      base_ptr (entries ?a ! i) = p \<and> br_length (ae_range (entries ?a ! i)) = n)"
    by (rule heap_live_iff)
  also have "\<dots> \<longleftrightarrow> ((heap_live a)(base_ptr (entries a ! k) := None)) p = Some n"
    using heap_live_iff [OF ok, of p n] table_ok_unique [OF ok _ k(1) _ k(2)] k
      ex_update_iff [OF k(1), of "(entries a ! k)\<lparr>utilized := False\<rparr>" "\<lambda>e. utilized e \<and> base_ptr e = p \<and> br_length (ae_range e) = n"]
    by (auto split: if_splits)
  finally show "heap_live ?a p = Some n \<longleftrightarrow> ((heap_live a)(base_ptr (entries a ! k) := None)) p = Some n" .
qed

section \<open>The kernel heap\<close>

interpretation heap_bm: range_allocator bm_used "bm_inv 1024"
    "\<lambda>b count. alloc_bitrange b KERNEL_BITMAP_CAPACITY count True" dealloc_bitrange
  by (rule bitmap_range_allocator) simp

text \<open>The invariant of \<open>kernel_allocator\<close>: the occupied bytes of the bitmap are exactly those of the
  disjoint blocks of the entries in use, and the heap does not wrap around the address space.\<close>

definition heap_inv :: "AllocArray \<Rightarrow> bool" where
  "heap_inv a \<longleftrightarrow> active a \<and> bottom a + 32768 \<le> 4294967296 \<and>
     table_ok (\<lambda>s. bottom a + s) 32768 (entries a) \<and>
     heap_bm.tracks (bitmap a) (live_ranges (entries a))"

lemma tracks_permuted:
  assumes "heap_bm.tracks b rs" and "mset rs = mset rs'" and "disjoint_ranges rs'"
  shows "heap_bm.tracks b rs'"
  using assms by (metis heap_bm.tracks_def set_mset_mset)

lemma bm_used_bound: "bm_inv n b \<Longrightarrow> bm_used b \<subseteq> {..< 32 * n}"
  by (auto simp: bm_inv_def bm_used_def)

lemma heap_alloc_bitrange:
  assumes "heap_inv a" and "0 < n"
    and "alloc_bitrange (bitmap a) KERNEL_BITMAP_CAPACITY n True = Inr (r, bm)" and "br_length r \<noteq> 0"
  shows "br_length r = n" and "br_start r mod 4 = 0" and "br_start r + n \<le> 8192"
    and "heap_bm.tracks bm (r # live_ranges (entries a))"
proof -
  have tr: "heap_bm.tracks (bitmap a) (live_ranges (entries a))" using assms(1) by (simp add: heap_inv_def)
  then have len: "length (bitmap a) = 1024" by (simp add: heap_bm.tracks_def bm_inv_def)
  show "br_length r = n" "heap_bm.tracks bm (r # live_ranges (entries a))"
    using heap_bm.tracks_alloc [OF tr assms(2-4)] by simp_all
  show "br_start r mod 4 = 0" "br_start r + n \<le> 8192"
    using alloc_bitrange_sound [OF assms(2) _ _ assms(3)] assms(4) len
    by (auto simp: no_range_def step_of_def KERNEL_BITMAP_CAPACITY_def)
qed

lemma kmalloc_result:
  assumes inv: "heap_inv a" and n: "0 < n" and ok: "kmalloc a n = Inr (p, a')"
  shows "heap_inv a'" and "bottom a' = bottom a"
    and "heap_live a p = None" and "heap_live a' = (heap_live a)(p \<mapsto> n)"
    and "\<exists>s. p = bottom a + s \<and> s mod 4 = 0 \<and> s + n \<le> 8192"
proof -
  obtain r bm slot where al: "alloc_bitrange (bitmap a) KERNEL_BITMAP_CAPACITY n True = Inr (r, bm)"
    and r: "br_length r \<noteq> 0"
    and slot: "find_entry (\<lambda>e. \<not> utilized e) (entries a) 0 = Inr (Some slot)"
    and p: "p = w32 (bottom a + br_start r)"
    and a': "a' = a\<lparr>bitmap := bm, entries := (entries a)[slot := \<lparr>base_ptr = p, ae_range = r, utilized = True\<rparr>]\<rparr>"
    using ok by (auto simp: kmalloc_def Let_def split: if_splits option.splits)
  note r' = heap_alloc_bitrange [OF inv n al r]
  let ?e = "\<lparr>base_ptr = p, ae_range = r, utilized = True\<rparr>"
  have tok: "table_ok (\<lambda>s. bottom a + s) 32768 (entries a)" using inv by (simp add: heap_inv_def)
  then have "length (entries a) = MAX_ALLOCATIONS" by (simp add: table_ok_def table_inv_def)
  then have k: "slot < length (entries a)" "\<not> utilized (entries a ! slot)" "\<And>j. j < slot \<Longrightarrow> utilized (entries a ! j)"
    using slot find_entry_cases [of "entries a" "\<lambda>e. \<not> utilized e"] by (metis Inr_inject option.distinct(1) option.inject)+
  have pe: "p = bottom a + br_start r" using p inv r'(1,3) n by (simp add: heap_inv_def)
  have dis: "disjoint_ranges (r # live_ranges (entries a))"
    using r'(4) by (simp add: heap_bm.tracks_def del: disjoint_ranges.simps)
  have tok': "table_ok (\<lambda>s. bottom a + s) 32768 ((entries a)[slot := ?e])"
    and ms: "mset (live_ranges ((entries a)[slot := ?e])) = mset (r # live_ranges (entries a))"
    using table_ok_install [OF tok k, of ?e] dis pe r'(1,3) by (simp_all del: disjoint_ranges.simps mset.simps)
  have "heap_bm.tracks bm (live_ranges ((entries a)[slot := ?e]))"
    using tracks_permuted [OF r'(4) ms [symmetric]] tok' by (simp add: table_ok_def)
  then show "heap_inv a'" using inv tok' a' by (simp add: heap_inv_def)
  show "bottom a' = bottom a" using a' by simp
  show "heap_live a p = None"
    using heap_live_install(1) [OF tok tok' k(1,2)] by simp
  show "heap_live a' = (heap_live a)(p \<mapsto> n)"
    using heap_live_install(2) [OF tok tok' k(1,2), of bm] a' r'(1) by simp
  show "\<exists>s. p = bottom a + s \<and> s mod 4 = 0 \<and> s + n \<le> 8192" 
    using pe r'(2,3) by (intro exI [of _ "br_start r"]) simp
qed

lemma heap_live_disjoint:
  assumes "heap_inv a" and "heap_live a p = Some n" and "heap_live a q = Some m" and "p \<noteq> q"
  shows "{p ..< p + n} \<inter> {q ..< q + m} = {}"
proof -
  have tok: "table_ok (\<lambda>s. bottom a + s) 32768 (entries a)" using assms(1) by (simp add: heap_inv_def)
  obtain i j where i: "i < length (entries a)" "utilized (entries a ! i)" "base_ptr (entries a ! i) = p" "br_length (ae_range (entries a ! i)) = n"
    and j: "j < length (entries a)" "utilized (entries a ! j)" "base_ptr (entries a ! j) = q" "br_length (ae_range (entries a ! j)) = m"
    using heap_live_iff [OF tok] assms(2,3) by metis
  have dis: "disjoint_ranges (live_ranges (entries a))" using tok by (simp add: table_ok_def)
  have "i \<noteq> j" using i j assms(4) by auto
  then have "br_set (ae_range (entries a ! i)) \<inter> br_set (ae_range (entries a ! j)) = {}"
    using live_nth_disjoint [OF dis, of i j] live_nth_disjoint [OF dis, of j i] i j by (cases "i < j") auto
  moreover have "p = bottom a + br_start (ae_range (entries a ! i))" "q = bottom a + br_start (ae_range (entries a ! j))"
    using tok i j by (auto simp: table_ok_def table_inv_def)
  moreover have "0 < n" "0 < m" using live_nth_nonempty [OF dis] i j by auto
  ultimately show ?thesis
    using i j br_set_disjoint_iff [of "ae_range (entries a ! i)" "ae_range (entries a ! j)"] by auto
qed

lemma release_entry_live:
  assumes inv: "heap_inv a" and live: "heap_live a p = Some n"
  shows "\<exists>r a'. release_entry a p = Inr (Some (r, a')) \<and> br_length r = n \<and> heap_inv a' \<and>
    heap_live a' = (heap_live a)(p := None) \<and> bottom a' = bottom a"
proof -
  have tok: "table_ok (\<lambda>s. bottom a + s) 32768 (entries a)" using inv by (simp add: heap_inv_def)
  obtain k where k: "k < length (entries a)" "utilized (entries a ! k)" "base_ptr (entries a ! k) = p"
    "br_length (ae_range (entries a ! k)) = n"
    using heap_live_iff [OF tok] live by metis
  let ?es = "(entries a)[k := (entries a ! k)\<lparr>utilized := False\<rparr>]"
  obtain rs1 rs2 where split: "live_ranges (entries a) = rs1 @ ae_range (entries a ! k) # rs2"
      "live_ranges ?es = rs1 @ rs2"
    using table_ok_retire(3) [OF tok k(1,2)] by blast
  have "heap_bm.tracks (bitmap a) (rs1 @ ae_range (entries a ! k) # rs2)"
    using inv split by (simp add: heap_inv_def)
  then obtain bm where bm: "dealloc_bitrange (bitmap a) (ae_range (entries a ! k)) = Inr bm"
      "heap_bm.tracks bm (rs1 @ rs2)"
    by (rule heap_bm.tracks_dealloc)
  let ?a = "a\<lparr>bitmap := bm, entries := ?es\<rparr>"
  have "release_entry a p = Inr (Some (ae_range (entries a ! k), ?a))"
    using table_ok_retire(1) [OF tok k(1,2)] k bm(1) by (simp add: release_entry_def Let_def)
  moreover have "heap_inv ?a" using inv bm(2) split(2) table_ok_retire(2) [OF tok k(1,2)] by (simp add: heap_inv_def)
  moreover have "heap_live ?a = (heap_live a)(p := None)" using heap_live_retire [OF tok k(1,2)] k(3) by simp
  ultimately show ?thesis using k(4) by auto
qed

lemma heap_inv_active [simp]: "heap_inv a \<Longrightarrow> active a"
  by (simp add: heap_inv_def)

lemma kfree_live:
  assumes "heap_inv a" and "heap_live a p = Some n"
  shows "\<exists>a'. kfree a p = Inr a' \<and> heap_inv a' \<and> heap_live a' = (heap_live a)(p := None)"
  using release_entry_live [OF assms] assms(1) by (auto simp: kfree_def)

subsection \<open>The contract of a heap\<close>

text \<open>
  What the clients of \<open>kmalloc\<close> and \<open>kfree\<close> rely on, in terms of the blocks in use only: a new block
  has an address not in use, blocks in use never overlap, and releasing a block in use succeeds and
  removes that block and no other.
\<close>

locale block_heap =
  fixes live :: "'s \<Rightarrow> nat \<rightharpoonup> nat"
    and inv :: "'s \<Rightarrow> bool"
    and malloc :: "'s \<Rightarrow> nat \<Rightarrow> (nat \<times> 's) res"
    and free :: "'s \<Rightarrow> nat \<Rightarrow> 's res"
  assumes malloc_new: "inv s \<Longrightarrow> 0 < n \<Longrightarrow> malloc s n = Inr (p, s') \<Longrightarrow>
      inv s' \<and> live s p = None \<and> live s' = (live s)(p \<mapsto> n)"
    and live_apart: "inv s \<Longrightarrow> live s p = Some n \<Longrightarrow> live s q = Some m \<Longrightarrow> p \<noteq> q \<Longrightarrow>
      {p ..< p + n} \<inter> {q ..< q + m} = {}"
    and free_block: "inv s \<Longrightarrow> live s p = Some n \<Longrightarrow>
      \<exists>s'. free s p = Inr s' \<and> inv s' \<and> live s' = (live s)(p := None)"
begin

lemma malloc_apart:
  assumes "inv s" and "0 < n" and "malloc s n = Inr (p, s')" and "live s q = Some m"
  shows "{p ..< p + n} \<inter> {q ..< q + m} = {}"
proof -
  have *: "inv s'" "live s p = None" "live s' = (live s)(p \<mapsto> n)" using malloc_new [OF assms(1-3)] by auto
  then have "p \<noteq> q" "live s' p = Some n" "live s' q = Some m" using assms(4) by auto
  then show ?thesis using live_apart [OF *(1)] by blast
qed

lemma malloc_free:
  assumes "inv s" and "0 < n" and "malloc s n = Inr (p, s')"
  shows "\<exists>s''. free s' p = Inr s'' \<and> inv s'' \<and> live s'' = live s"
proof -
  have *: "inv s'" "live s p = None" "live s' = (live s)(p \<mapsto> n)" using malloc_new [OF assms] by auto
  then have "(live s')(p := None) = live s" by (auto simp: fun_upd_idem)
  then show ?thesis using free_block [OF *(1), of p n] * by auto
qed

text \<open>The pattern of the path-handling code: two temporaries, taken and released in the same order.\<close>

lemma two_temporaries:
  assumes "inv s" and "0 < n" and "malloc s n = Inr (p, s1)" and "0 < m" and "malloc s1 m = Inr (q, s2)"
  shows "p \<noteq> q" and "\<exists>s3 s4. free s2 p = Inr s3 \<and> free s3 q = Inr s4 \<and> inv s4 \<and> live s4 = live s"
proof -
  have 1: "inv s1" "live s p = None" "live s1 = (live s)(p \<mapsto> n)" using malloc_new [OF assms(1-3)] by auto
  have 2: "inv s2" "live s1 q = None" "live s2 = (live s1)(q \<mapsto> m)" using malloc_new [OF 1(1) assms(4,5)] by auto
  show pq: "p \<noteq> q" using 1(3) 2(2) by auto
  then have "live s2 p = Some n" using 1 2 by simp
  then obtain s3 where 3: "free s2 p = Inr s3" "inv s3" "live s3 = (live s2)(p := None)"
    using free_block [OF 2(1)] by blast
  then have "live s3 q = Some m" using 2 pq by simp
  then obtain s4 where "free s3 q = Inr s4" "inv s4" "live s4 = (live s3)(q := None)"
    using free_block [OF 3(2)] by blast
  moreover have "((live s2)(p := None))(q := None) = live s" using 1 2 pq by (auto simp: fun_eq_iff)
  ultimately show "\<exists>s3 s4. free s2 p = Inr s3 \<and> free s3 q = Inr s4 \<and> inv s4 \<and> live s4 = live s"
    using 3 by auto
qed

end

interpretation kheap: block_heap heap_live heap_inv kmalloc kfree
proof
  show "heap_inv a' \<and> heap_live a p = None \<and> heap_live a' = (heap_live a)(p \<mapsto> n)"
    if "heap_inv a" "0 < n" "kmalloc a n = Inr (p, a')" for a p n a'
    using kmalloc_result [OF that] by simp
  show "{p ..< p + n} \<inter> {q ..< q + m} = {}"
    if "heap_inv a" "heap_live a p = Some n" "heap_live a q = Some m" "p \<noteq> q" for a p n q m
    using heap_live_disjoint [OF that] .
  show "\<exists>a'. kfree a p = Inr a' \<and> heap_inv a' \<and> heap_live a' = (heap_live a)(p := None)"
    if "heap_inv a" "heap_live a p = Some n" for a p n
    using kfree_live [OF that] .
qed

subsection \<open>When \<open>kmalloc\<close> succeeds\<close>

lemma heap_inv_lengths:
  assumes "heap_inv a"
  shows "length (bitmap a) = 1024" and "length (entries a) = MAX_ALLOCATIONS"
  using assms by (simp_all add: heap_inv_def heap_bm.tracks_def bm_inv_def table_ok_def table_inv_def)

lemma kmalloc_no_space:
  assumes "heap_inv a" and "0 < n" and "\<And>s. \<not> run_fits (bitmap a) 8192 n True s"
  shows "kmalloc a n = Inl (Panic ''Insufficient space in heap'')"
  using assms alloc_bitrange_none [of n "bitmap a" KERNEL_BITMAP_CAPACITY True] heap_inv_lengths [of a]
  by (simp add: kmalloc_def KERNEL_BITMAP_CAPACITY_def no_range_def)

lemma kmalloc_space:
  assumes inv: "heap_inv a" and n: "0 < n" and s0: "run_fits (bitmap a) 8192 n True s0"
  obtains s where "run_fits (bitmap a) 8192 n True s" and "\<And>s'. s' < s \<Longrightarrow> \<not> run_fits (bitmap a) 8192 n True s'"
    and "(\<forall>e \<in> set (entries a). utilized e) \<Longrightarrow> kmalloc a n = Inl (Panic ''Maximum allocations reached'')"
    and "\<not> (\<forall>e \<in> set (entries a). utilized e) \<Longrightarrow> \<exists>a'. kmalloc a n = Inr (bottom a + s, a') \<and>
           bm_used (bitmap a') = bm_used (bitmap a) \<union> {s ..< s + n} \<and> (\<exists>k e. entries a' = (entries a)[k := e])"
proof -
  note len = heap_inv_lengths [OF inv]
  have le: "s0 + n \<le> 8192" using s0 by (simp add: run_fits_def)
  have lim: "32 * min (KERNEL_BITMAP_CAPACITY div 4) (length (bitmap a)) = 8192"
    using len by (simp add: KERNEL_BITMAP_CAPACITY_def)
  obtain s bm where al: "alloc_bitrange (bitmap a) KERNEL_BITMAP_CAPACITY n True = Inr (\<lparr>br_start = s, br_length = n\<rparr>, bm)"
    and fit: "run_fits (bitmap a) 8192 n True s" "\<And>s'. s' < s \<Longrightarrow> \<not> run_fits (bitmap a) 8192 n True s'"
    and used: "bm_used bm = bm_used (bitmap a) \<union> {s ..< s + n}"
    by (rule alloc_bitrange_found [of n "bitmap a" KERNEL_BITMAP_CAPACITY True s0, unfolded lim]) (use s0 n le len in simp_all)
  have b: "w32 (bottom a + s) = bottom a + s"
    using fit(1) inv by (simp add: run_fits_def heap_inv_def)
  show ?thesis
  proof (rule that [OF fit])
    assume "\<forall>e \<in> set (entries a). utilized e"
    then have "find_entry (\<lambda>e. \<not> utilized e) (entries a) 0 = Inr None"
      by (cases rule: find_entry_cases [OF len(2), of "\<lambda>e. \<not> utilized e"]) auto
    then show "kmalloc a n = Inl (Panic ''Maximum allocations reached'')"
      using al inv n by (simp add: kmalloc_def Let_def)
  next
    assume "\<not> (\<forall>e \<in> set (entries a). utilized e)"
    then obtain k where "find_entry (\<lambda>e. \<not> utilized e) (entries a) 0 = Inr (Some k)"
      by (cases rule: find_entry_cases [OF len(2), of "\<lambda>e. \<not> utilized e"]) (auto simp: in_set_conv_nth)
    then show "\<exists>a'. kmalloc a n = Inr (bottom a + s, a') \<and> bm_used (bitmap a') = bm_used (bitmap a) \<union> {s ..< s + n} \<and>
        (\<exists>k e. entries a' = (entries a)[k := e])"
      using al inv n b used by (auto simp: kmalloc_def Let_def)
  qed
qed

lemma kmalloc_0: "heap_inv a \<Longrightarrow> kmalloc a 0 \<noteq> Inr (p, a')"
proof
  assume inv: "heap_inv a" and ok: "kmalloc a 0 = Inr (p, a')"
  have "alloc_scan bm n 0 al i b cs cl = Inr (Some r) \<Longrightarrow> br_length r = 0" for bm n al i b cs cl r
    by (induction bm n "0 :: nat" al i b cs cl rule: alloc_scan.induct)
       (subst (asm) (2) alloc_scan.simps, auto split: if_splits prod.splits)
  then have "alloc_bitrange b c 0 al = Inr (r, bm) \<Longrightarrow> br_length r = 0" for b c al r bm
    by (auto simp: alloc_bitrange_def no_range_def split: option.splits)
  then show False using ok by (auto simp: kmalloc_def Let_def split: if_splits)
qed

text \<open>The state \<open>initialize_allocator\<close> leaves: nothing in use, the first byte at address \<open>b\<close>.\<close>

definition fresh_heap :: "nat \<Rightarrow> AllocArray" where
  "fresh_heap b = (zero_allocator 1024)\<lparr>bottom := b, active := True\<rparr>"

lemma bm_used_replicate [simp]: "bm_used (replicate n 0) = {}"
  by (auto simp: bm_used_def bm_bit_def div_less_iff_less_mult)

lemma heap_inv_fresh: "b + 32768 \<le> 4294967296 \<Longrightarrow> heap_inv (fresh_heap b)"
  by (simp add: heap_inv_def fresh_heap_def zero_allocator_def table_ok_def table_inv_def live_ranges_def
      heap_bm.tracks_def bm_inv_def inj_on_def)

lemma heap_live_fresh [simp]: "heap_live (fresh_heap b) = (\<lambda>p. None)"
  by (simp add: fun_eq_iff heap_live_def fresh_heap_def zero_allocator_def find_None_iff)

lemma run_fits_fresh [simp]: "run_fits (bitmap (fresh_heap b)) 8192 n True 0 \<longleftrightarrow> n \<le> 8192"
  by (auto simp: run_fits_def free_run_def fresh_heap_def zero_allocator_def bm_bit_def div_less_iff_less_mult)

lemma unused_slot_fresh [simp]: "\<not> (\<forall>e \<in> set (entries (fresh_heap b)). utilized e)"
  by (simp add: fresh_heap_def zero_allocator_def MAX_ALLOCATIONS_def)

lemma kmalloc_fresh:
  assumes "b + 32768 \<le> 4294967296" and "0 < n" and "n \<le> 8192"
  shows "\<exists>a. kmalloc (fresh_heap b) n = Inr (b, a) \<and> bm_used (bitmap a) = {..< n} \<and> \<not> (\<forall>e \<in> set (entries a). utilized e)"
proof -
  note inv = heap_inv_fresh [OF assms(1)]
  have b: "bm_used (bitmap (fresh_heap b)) = {}" "bottom (fresh_heap b) = b"
    by (simp_all add: fresh_heap_def zero_allocator_def)
  have fit: "run_fits (bitmap (fresh_heap b)) 8192 n True 0" using assms(3) by simp
  obtain s a k e where s: "\<And>s'. s' < s \<Longrightarrow> \<not> run_fits (bitmap (fresh_heap b)) 8192 n True s'"
    and a: "kmalloc (fresh_heap b) n = Inr (b + s, a)" "bm_used (bitmap a) = {s ..< s + n}"
      "entries a = (entries (fresh_heap b))[k := e]"
    by (rule kmalloc_space [OF inv assms(2) fit]) (use b unused_slot_fresh in auto)
  have "s = 0" using s fit by blast
  moreover have "\<not> (\<forall>e \<in> set (entries a). utilized e)"
  proof -
    let ?j = "if k = 0 then 1 else 0 :: nat"
    have "?j < length (entries a)" "\<not> utilized (entries a ! ?j)"
      using a(3) by (simp_all add: fresh_heap_def zero_allocator_def MAX_ALLOCATIONS_def)
    then show ?thesis by (meson nth_mem)
  qed
  ultimately show ?thesis using a by (simp add: atLeast0LessThan)
qed

subsection \<open>Memory behind the blocks\<close>

lemma kcalloc_zeroes:
  assumes "heap_inv a" and "0 < w32 (num * sz)" and "kmalloc a (w32 (num * sz)) = Inr (p, a')"
    and "p - bottom a + w32 (num * sz) \<le> length mem"
  shows "kcalloc a mem num sz = Inr (p, a', overlay (p - bottom a) (replicate (w32 (num * sz)) 0) mem)"
  using assms kmalloc_result(2,5) [OF assms(1-3)] by (auto simp: kcalloc_def heap_off_def memset_overlay)

lemma memset_outside: "length mem \<le> d \<Longrightarrow> 0 < n \<Longrightarrow> memset mem d v n = Inl Out_of_bounds"
  by (simp add: memset_def memset_loop.simps [of mem])

lemma krealloc_moves:
  assumes inv: "heap_inv a" and live: "heap_live a p = Some m" and n: "0 < n" "kmalloc a n = Inr (q, a1)"
    and mem: "p - bottom a + m \<le> length mem" "q - bottom a + m \<le> length mem" and pb: "bottom a \<le> p"
  shows "\<exists>a2. krealloc a mem p n = Inr (q, a2, overlay (q - bottom a) (take m (drop (p - bottom a) mem)) mem) \<and>
    heap_inv a2 \<and> heap_live a2 = (heap_live a)(q \<mapsto> n, p := None)"
proof -
  note 1 = kmalloc_result [OF inv n]
  have pq: "p \<noteq> q" using 1(3) live by auto
  then have "heap_live a1 p = Some m" using 1(4) live by simp
  then obtain r a2 where 2: "release_entry a1 p = Inr (Some (r, a2))" "br_length r = m" "heap_inv a2"
      "heap_live a2 = (heap_live a1)(p := None)" "bottom a2 = bottom a1"
    using release_entry_live [OF 1(1)] by blast
  moreover have "bottom a \<le> q" using 1(5) by auto
  ultimately have "krealloc a mem p n = Inr (q, a2, overlay (q - bottom a) (take m (drop (p - bottom a) mem)) mem)"
    using inv n mem pb 1(2) by (simp add: krealloc_def heap_off_def memmove_overlay)
  then show ?thesis using 2 1(4) by simp
qed

section \<open>The page allocator\<close>

text \<open>
  The bitmap of \<open>page_allocator\<close> covers far more pages than the 256 entries can name: the first entry
  is the kernel's 1024 pages, the others hold one page each. The invariant says so, and that is
  what keeps every page number below 1280, far from the positions where the loops of the bitmaps or the
  address arithmetic would wrap around.
\<close>

definition page_inv :: "AllocArray \<Rightarrow> bool" where
  "page_inv a \<longleftrightarrow> active a \<and> bottom a = 0 \<and> length (bitmap a) = 262144 \<and>
     table_ok (\<lambda>s. s * 4096) 1280 (entries a) \<and>
     bm_used (bitmap a) = (\<Union>r \<in> set (live_ranges (entries a)). br_set r) \<and>
     utilized (entries a ! 0) \<and> ae_range (entries a ! 0) = \<lparr>br_start = 0, br_length = 1024\<rparr> \<and>
     (\<forall>i < length (entries a). 0 < i \<longrightarrow> utilized (entries a ! i) \<longrightarrow> br_length (ae_range (entries a ! i)) = 1)"

lemma card_ranges: "card (\<Union>r \<in> set rs. br_set r) \<le> sum_list (map br_length rs)"
proof (induction rs)
  case (Cons r rs)
  have "card (\<Union>r \<in> set (r # rs). br_set r) \<le> card (br_set r) + card (\<Union>r \<in> set rs. br_set r)"
    using card_Un_le by simp
  then show ?case using Cons by (simp add: br_set_def)
qed simp

lemma page_inv_free:
  assumes inv: "page_inv a" and k: "k < length (entries a)" "\<not> utilized (entries a ! k)"
  shows "\<exists>p < 1279. p \<notin> bm_used (bitmap a)"
proof (rule ccontr)
  assume "\<not> ?thesis"
  then have sub: "{..<1279} \<subseteq> bm_used (bitmap a)" by auto
  let ?es = "entries a"
  have len: "length ?es = 256" using inv by (simp add: page_inv_def table_ok_def table_inv_def MAX_ALLOCATIONS_def)
  have k0: "0 < k" using inv k by (cases k) (auto simp: page_inv_def)
  then obtain e es' where es: "?es = e # es'" using len by (cases ?es) auto
  then have es'_nth: "\<And>i. es' ! i = ?es ! Suc i" and len': "length es' = 255"
    using len by simp_all
  have one: "br_length r = 1" if "r \<in> set (live_ranges es')" for r
    using that inv es'_nth len len' by (auto simp: live_ranges_def page_inv_def in_set_conv_nth)
  have "es' ! (k - 1) \<in> set es'" using k k0 len len' by (intro nth_mem) simp
  moreover have "\<not> utilized (es' ! (k - 1))" using es'_nth [of "k - 1"] k k0 by simp
  ultimately have "length (filter utilized es') < length es'" by (rule length_filter_less)
  then have "length (live_ranges es') \<le> 254" using len' by (simp add: live_ranges_def)
  moreover have "map br_length (live_ranges es') = map (\<lambda>_. 1) (live_ranges es')" using one by simp
  ultimately have "sum_list (map br_length (live_ranges es')) \<le> 254" by (simp only: sum_list_triv) simp
  moreover have "live_ranges ?es = ae_range (?es ! 0) # live_ranges es'"
    using es inv by (simp add: live_ranges_def page_inv_def)
  ultimately have "sum_list (map br_length (live_ranges ?es)) \<le> 1278" using inv by (simp add: page_inv_def)
  then have "card (bm_used (bitmap a)) \<le> 1278"
    using card_ranges [of "live_ranges ?es"] inv by (simp add: page_inv_def)
  moreover have "finite (bm_used (bitmap a))" by (simp add: bm_used_def)
  then have "1279 \<le> card (bm_used (bitmap a))" using card_mono [OF _ sub] by simp
  ultimately show False by simp
qed

lemma run_fits_1: "run_fits b lim (Suc 0) False s \<longleftrightarrow> s < lim \<and> \<not> bm_bit b s"
  by (auto simp: run_fits_def free_run_def step_of_def)

lemma allocate_page_result:
  assumes inv: "page_inv a" and free: "\<not> (\<forall>e \<in> set (entries a). utilized e)"
  shows "\<exists>s a'. allocate_page a = Inr (s * 4096, a') \<and> s < 1279 \<and> s \<notin> bm_used (bitmap a) \<and>
    (\<forall>s' < s. s' \<in> bm_used (bitmap a)) \<and> page_inv a' \<and>
    bm_used (bitmap a') = insert s (bm_used (bitmap a)) \<and> heap_live a' = (heap_live a)(s * 4096 \<mapsto> 1)"
proof -
  have tok: "table_ok (\<lambda>s. s * 4096) 1280 (entries a)" and lenb: "length (bitmap a) = 262144"
    and inv': "active a" "bottom a = 0" "bm_used (bitmap a) = (\<Union>r \<in> set (live_ranges (entries a)). br_set r)"
    using inv by (simp_all add: page_inv_def)
  have len: "length (entries a) = MAX_ALLOCATIONS" using tok by (simp add: table_ok_def table_inv_def)
  obtain k where slot: "find_entry (\<lambda>e. \<not> utilized e) (entries a) 0 = Inr (Some k)"
    and k: "k < length (entries a)" "\<not> utilized (entries a ! k)" "\<And>j. j < k \<Longrightarrow> utilized (entries a ! j)"
    by (cases rule: find_entry_cases [OF len, of "\<lambda>e. \<not> utilized e"]) (use free in \<open>auto simp: in_set_conv_nth\<close>)
  obtain p where p: "p < 1279" "p \<notin> bm_used (bitmap a)" using page_inv_free [OF inv k(1,2)] by blast
  have lim: "32 * min (PAGE_BITMAP_CAPACITY div 4) (length (bitmap a)) = 2097152"
    using lenb by (simp add: PAGE_BITMAP_CAPACITY_def)
  have bits: "\<And>q. q < 2097152 \<Longrightarrow> bm_bit (bitmap a) q \<longleftrightarrow> q \<in> bm_used (bitmap a)"
    using lenb by (auto simp: bm_used_def)
  have fitp: "run_fits (bitmap a) 2097152 1 False p" using p bits [of p] by (simp add: run_fits_1)
  obtain s bm where al: "alloc_bitrange (bitmap a) PAGE_BITMAP_CAPACITY 1 False = Inr (\<lparr>br_start = s, br_length = 1\<rparr>, bm)"
    and fit: "run_fits (bitmap a) 2097152 1 False s" "\<And>s'. s' < s \<Longrightarrow> \<not> run_fits (bitmap a) 2097152 1 False s'"
    and bm: "length bm = length (bitmap a)" "s \<le> p" "bm_used bm = bm_used (bitmap a) \<union> {s ..< s + 1}"
    by (rule alloc_bitrange_found [of 1 "bitmap a" PAGE_BITMAP_CAPACITY False p, unfolded lim])
       (use fitp p lenb in simp_all)
  have s: "s < 1279" "s \<notin> bm_used (bitmap a)" "\<forall>s' < s. s' \<in> bm_used (bitmap a)"
    using bm(2) p fit bits by (auto simp: run_fits_1)
  let ?r = "\<lparr>br_start = s, br_length = 1\<rparr>"
  let ?e = "\<lparr>base_ptr = s * 4096, ae_range = ?r, utilized = True\<rparr>"
  let ?a = "a\<lparr>bitmap := bm, entries := (entries a)[k := ?e]\<rparr>"
  have "disjoint_ranges (?r # live_ranges (entries a))"
    using s(2) tok inv' by (auto simp: disjoint_ranges_set br_set_def table_ok_def simp del: disjoint_ranges.simps(2))
  then have tok': "table_ok (\<lambda>s. s * 4096) 1280 ((entries a)[k := ?e])"
    and ms: "mset (live_ranges ((entries a)[k := ?e])) = mset (?r # live_ranges (entries a))"
    using table_ok_install [OF tok k, of ?e] s(1) by (simp_all del: disjoint_ranges.simps mset.simps)
  have k0: "0 < k" using inv k(2) by (cases k) (simp_all add: page_inv_def)
  from ms have "set (live_ranges ((entries a)[k := ?e])) = insert ?r (set (live_ranges (entries a)))"
    by (metis set_mset_mset list.simps(15))
  then have "page_inv ?a"
    using inv inv' tok' bm k k0 by (auto simp: page_inv_def nth_list_update br_set_def)
  moreover have "allocate_page a = Inr (s * 4096, ?a)"
    using al slot inv' s(1) by (simp add: allocate_page_def Let_def)
  moreover have "heap_live ?a = (heap_live a)(s * 4096 \<mapsto> 1)"
    using heap_live_install(2) [OF tok tok' k(1,2), of bm] by simp
  moreover have "bm_used (bitmap ?a) = insert s (bm_used (bitmap a))" using bm(3) by auto
  ultimately show ?thesis using s by blast
qed

lemma allocate_page_full:
  assumes inv: "page_inv a" and "\<forall>e \<in> set (entries a). utilized e"
  shows "allocate_page a = Inl (Panic ''Maximum allocations reached'')"
proof -
  have tok: "table_ok (\<lambda>s. s * 4096) 1280 (entries a)" and lenb: "length (bitmap a) = 262144"
    and inv': "active a" "bottom a = 0" "bm_used (bitmap a) = (\<Union>r \<in> set (live_ranges (entries a)). br_set r)"
    using inv by (simp_all add: page_inv_def)
  have len: "length (entries a) = MAX_ALLOCATIONS" using tok by (simp add: table_ok_def table_inv_def)
  have none: "find_entry (\<lambda>e. \<not> utilized e) (entries a) 0 = Inr None"
    by (cases rule: find_entry_cases [OF len, of "\<lambda>e. \<not> utilized e"]) (use assms(2) in auto)
  have "1280 \<notin> bm_used (bitmap a)" using tok inv'(3) by (fastforce simp: table_ok_def br_set_def)
  then have fits: "run_fits (bitmap a) 2097152 (Suc 0) False 1280" using lenb by (simp add: run_fits_1 bm_used_def)
  have lim: "32 * min (PAGE_BITMAP_CAPACITY div 4) (length (bitmap a)) = 2097152"
    using lenb by (simp add: PAGE_BITMAP_CAPACITY_def)
  obtain s bm where "alloc_bitrange (bitmap a) PAGE_BITMAP_CAPACITY 1 False = Inr (\<lparr>br_start = s, br_length = 1\<rparr>, bm)"
    by (rule alloc_bitrange_found [of 1 "bitmap a" PAGE_BITMAP_CAPACITY False 1280, unfolded lim])
       (use lenb fits in simp_all)
  then show ?thesis
    using none inv' by (simp add: allocate_page_def Let_def)
qed

lemma free_page_live:
  assumes inv: "page_inv a" and live: "heap_live a p = Some n" and p: "p \<noteq> 0"
  shows "\<exists>a'. free_page a p = Inr a' \<and> page_inv a' \<and> heap_live a' = (heap_live a)(p := None) \<and>
    bm_used (bitmap a') = bm_used (bitmap a) - {p div 4096}"
proof -
  have tok: "table_ok (\<lambda>s. s * 4096) 1280 (entries a)" and lenb: "length (bitmap a) = 262144"
    and used: "bm_used (bitmap a) = (\<Union>r \<in> set (live_ranges (entries a)). br_set r)"
    using inv by (simp_all add: page_inv_def)
  obtain k where k: "k < length (entries a)" "utilized (entries a ! k)" "base_ptr (entries a ! k) = p"
    using heap_live_iff [OF tok] live by metis
  let ?r = "ae_range (entries a ! k)" and ?es = "(entries a)[k := (entries a ! k)\<lparr>utilized := False\<rparr>]"
  have pk: "p = br_start ?r * 4096" using tok k by (auto simp: table_ok_def table_inv_def)
  then have k0: "0 < k" using inv p by (cases k) (auto simp: page_inv_def)
  then have one: "br_length ?r = 1" using inv k by (simp add: page_inv_def)
  have sr: "br_start ?r < 1280" using tok live_nth_mem [OF k(1,2)] one by (fastforce simp: table_ok_def)
  then obtain bm where bm: "dealloc_bitrange (bitmap a) ?r = Inr bm" "length bm = length (bitmap a)"
      "bm_used bm = bm_used (bitmap a) - br_set ?r"
    using dealloc_bitrange_used [of ?r "bitmap a"] one lenb by auto
  obtain rs1 rs2 where split: "live_ranges (entries a) = rs1 @ ?r # rs2" "live_ranges ?es = rs1 @ rs2"
    using table_ok_retire(3) [OF tok k(1,2)] by blast
  let ?a = "a\<lparr>bitmap := bm, entries := ?es\<rparr>"
  have "disjoint_ranges (rs1 @ ?r # rs2)" using tok split by (simp add: table_ok_def)
  then have "(\<Union>r \<in> set (live_ranges ?es). br_set r) = bm_used bm"
    unfolding bm(3) used split by (auto simp: disjoint_ranges_append disjoint_ranges_set simp del: disjoint_ranges.simps(2))
  then have "page_inv ?a"
    using inv bm(2) k k0 table_ok_retire(2) [OF tok k(1,2)] by (auto simp: page_inv_def nth_list_update split: if_splits)
  moreover have "free_page a p = Inr ?a"
    using table_ok_retire(1) [OF tok k(1,2)] k bm(1) inv
    by (simp add: free_page_def release_entry_def Let_def page_inv_def)
  moreover have "heap_live ?a = (heap_live a)(p := None)" using heap_live_retire [OF tok k(1,2)] k(3) by simp
  ultimately show ?thesis using bm(3) one pk by (auto simp: br_set_def)
qed

lemma reserve_kernel_pages_ok:
  obtains a where "reserve_kernel_pages (zero_allocator 262144) = Inr a" and "page_inv a"
    and "bm_used (bitmap a) = {..<1024}" and "\<not> (\<forall>e \<in> set (entries a). utilized e)"
    and "heap_live a = [0 \<mapsto> 1024]"
proof -
  let ?b = "replicate 262144 0 :: u32 list"
  have fits: "run_fits ?b 2097152 1024 False 0"
    by (simp add: run_fits_def free_run_def bm_bit_def div_less_iff_less_mult)
  have lim: "32 * min (PAGE_BITMAP_CAPACITY div 4) (length ?b) = 2097152"
    by (simp add: PAGE_BITMAP_CAPACITY_def)
  obtain s bm where al: "alloc_bitrange ?b PAGE_BITMAP_CAPACITY 1024 False = Inr (\<lparr>br_start = s, br_length = 1024\<rparr>, bm)"
    and bm: "length bm = length ?b" "s \<le> 0" "bm_used bm = bm_used ?b \<union> {s ..< s + 1024}"
    by (rule alloc_bitrange_found [of 1024 ?b PAGE_BITMAP_CAPACITY False 0, unfolded lim]) (use fits in simp_all)
  let ?e = "\<lparr>base_ptr = 0, ae_range = \<lparr>br_start = 0, br_length = 1024\<rparr>, utilized = True\<rparr>"
  let ?es = "(replicate 256 \<lparr>base_ptr = 0, ae_range = no_range, utilized = False\<rparr>)[0 := ?e]"
  let ?a = "\<lparr>bottom = 0, entries = ?es, bitmap = bm, active = True\<rparr>"
  have eq: "reserve_kernel_pages (zero_allocator 262144) = Inr ?a"
    using al bm(2) by (simp add: reserve_kernel_pages_def zero_allocator_def MAX_ALLOCATIONS_def Let_def)
  have es: "?es = ?e # replicate 255 \<lparr>base_ptr = 0, ae_range = no_range, utilized = False\<rparr>"
    by (simp add: list_update_code numeral_eq_Suc del: replicate.simps(2)) (simp add: replicate.simps(2))
  have lr: "live_ranges ?es = [\<lparr>br_start = 0, br_length = 1024\<rparr>]" unfolding es by (simp add: live_ranges_def)
  have "table_inv (\<lambda>s. s * 4096) ?es"
    by (auto simp: table_inv_def MAX_ALLOCATIONS_def nth_list_update split: if_splits)
  then have "page_inv ?a"
    using lr bm by (auto simp: page_inv_def table_ok_def inj_on_def br_set_def nth_list_update split: if_splits)
  moreover have "heap_live ?a = [0 \<mapsto> 1024]" unfolding es by (auto simp: fun_eq_iff heap_live_def find_None_iff)
  moreover have "bm_used (bitmap ?a) = {..<1024}"
    using bm(2,3) by (simp add: bm_used_replicate atLeast0LessThan)
  moreover have "\<not> (\<forall>e \<in> set (entries ?a). utilized e)" unfolding es by simp
  ultimately show ?thesis using that [OF eq] by blast
qed

section \<open>Properties\<close>

text \<open>C12: \<open>kmalloc\<close> is safe: in a state where the bitmap and the entry table agree, a successful call
  returns a 4-byte aligned address that was not in use, whose block overlaps no block in use, and the
  blocks in use change by exactly the new one; the invariant is kept.\<close>

theorem kmalloc_safe:
  assumes "heap_inv a" and "0 < n" and "kmalloc a n = Inr (p, a')"
  shows "heap_inv a' \<and> heap_live a p = None \<and> heap_live a' = (heap_live a)(p \<mapsto> n) \<and>
    bottom a \<le> p \<and> (p - bottom a) mod 4 = 0 \<and>
    (\<forall>q m. heap_live a q = Some m \<longrightarrow> {p ..< p + n} \<inter> {q ..< q + m} = {})"
  using kmalloc_result [OF assms] kheap.malloc_apart [OF assms] by auto

theorem kmalloc_safe_witness:
  "\<exists>a p a'. kmalloc (fresh_heap 0x400000) 5 = Inr (0x400000, a) \<and> kmalloc a 7 = Inr (p, a') \<and>
     heap_live a' = [0x400000 \<mapsto> 5, p \<mapsto> 7] \<and> {p ..< p + 7} \<inter> {0x400000 ..< 0x400000 + 5} = {}"
proof -
  have inv: "heap_inv (fresh_heap 0x400000)" by (rule heap_inv_fresh) simp
  obtain a where a: "kmalloc (fresh_heap 0x400000) 5 = Inr (0x400000, a)" "bm_used (bitmap a) = {..<5}"
      "\<not> (\<forall>e \<in> set (entries a). utilized e)"
    using kmalloc_fresh [of "0x400000" 5] by auto
  have inv_a: "heap_inv a" and live: "heap_live a = [0x400000 \<mapsto> 5]"
    using kmalloc_safe [OF inv _ a(1)] by simp_all
  have "\<not> bm_bit (bitmap a) (8 + p)" if "p < 7" for p
  proof -
    have "8 + p \<notin> bm_used (bitmap a)" using a(2) by simp
    then show ?thesis using heap_inv_lengths(1) [OF inv_a] that by (simp add: bm_used_def)
  qed
  then have fits: "run_fits (bitmap a) 8192 7 True 8" by (simp add: run_fits_def free_run_def step_of_def)
  obtain p a' where p: "kmalloc a 7 = Inr (p, a')"
    by (rule kmalloc_space [OF inv_a _ fits]) (use a(3) in auto)
  have "heap_live a' = [0x400000 \<mapsto> 5, p \<mapsto> 7]"
    and "\<And>q m. heap_live a q = Some m \<Longrightarrow> {p ..< p + 7} \<inter> {q ..< q + m} = {}"
    using kmalloc_safe [OF inv_a _ p] live by simp_all
  moreover from this(2) [of "0x400000" 5] have "{p ..< p + 7} \<inter> {0x400000 ..< 0x400000 + 5} = {}"
    using live by simp
  ultimately show ?thesis using a(1) p by blast
qed

text \<open>C35: \<open>kfree\<close> of a block in use succeeds, removes exactly that block and keeps the invariant, even
  when retired entries with the same address are still in the table.\<close>

theorem kfree_releases_block:
  assumes "heap_inv a" and "heap_live a p = Some n"
  shows "\<exists>a'. kfree a p = Inr a' \<and> heap_inv a' \<and> heap_live a' = (heap_live a)(p := None)"
  using kheap.free_block [OF assms] .

theorem kfree_releases_block_witness:
  "\<exists>a a'. kmalloc (fresh_heap 0x400000) 5 = Inr (0x400000, a) \<and> kfree a 0x400000 = Inr a' \<and> heap_live a' = (\<lambda>_. None)"
proof -
  have inv: "heap_inv (fresh_heap 0x400000)" by (rule heap_inv_fresh) simp
  obtain a where a: "kmalloc (fresh_heap 0x400000) 5 = Inr (0x400000, a)" using kmalloc_fresh [of "0x400000" 5] by auto
  have "heap_inv a" "heap_live a = [0x400000 \<mapsto> 5]" using kmalloc_result(1,4) [OF inv _ a] by simp_all
  then show ?thesis using a kfree_releases_block [of a "0x400000" 5] by auto
qed

text \<open>C36: \<open>kmalloc\<close> decides every request: it panics for lack of space exactly when no 4-aligned free run of
  that size exists among the 8192 positions searched, panics for lack of entries exactly when all 256 are
  in use, and otherwise returns the lowest such run.\<close>

theorem kmalloc_outcome:
  assumes "heap_inv a" and "0 < n"
  shows "if \<forall>s. \<not> run_fits (bitmap a) 8192 n True s then kmalloc a n = Inl (Panic ''Insufficient space in heap'')
    else if \<forall>e \<in> set (entries a). utilized e then kmalloc a n = Inl (Panic ''Maximum allocations reached'')
    else \<exists>s a'. kmalloc a n = Inr (bottom a + s, a') \<and> run_fits (bitmap a) 8192 n True s \<and>
           (\<forall>s' < s. \<not> run_fits (bitmap a) 8192 n True s')"
  using kmalloc_no_space [OF assms] by (auto elim: kmalloc_space [OF assms])

theorem kmalloc_outcome_witness:
  "kmalloc (fresh_heap 0x400000) 8193 = Inl (Panic ''Insufficient space in heap'') \<and>
   (\<exists>s a'. kmalloc (fresh_heap 0x400000) 8192 = Inr (0x400000 + s, a'))"
proof -
  have inv: "heap_inv (fresh_heap 0x400000)" by (rule heap_inv_fresh) simp
  have b: "bottom (fresh_heap 0x400000) = 0x400000" by (simp add: fresh_heap_def)
  have "\<forall>s. \<not> run_fits (bitmap (fresh_heap 0x400000)) 8192 8193 True s" by (simp add: run_fits_def)
  then have 1: "kmalloc (fresh_heap 0x400000) 8193 = Inl (Panic ''Insufficient space in heap'')"
    using kmalloc_outcome [OF inv, of 8193] by simp
  have fits: "\<not> (\<forall>s. \<not> run_fits (bitmap (fresh_heap 0x400000)) 8192 8192 True s)"
    using run_fits_fresh [of "0x400000" 8192] by (metis le_refl)
  have 2: "\<exists>s a'. kmalloc (fresh_heap 0x400000) 8192 = Inr (0x400000 + s, a')"
    using kmalloc_outcome [OF inv, of 8192] unfolding if_not_P [OF fits] if_not_P [OF unused_slot_fresh] b
    by auto
  show ?thesis using 1 2 by simp
qed

text \<open>C37: \<open>krealloc\<close> to a block at least as large keeps the contents: the bytes of the old block are the
  first bytes of the new one, the old block is released and the bytes of every other block are unchanged.\<close>

theorem krealloc_keeps_contents:
  assumes "heap_inv a" and "heap_live a p = Some m" and "m \<le> n" and "kmalloc a n = Inr (q, a1)"
    and "bottom a \<le> p" and "p - bottom a + m \<le> length mem" and "q - bottom a + n \<le> length mem"
  shows "\<exists>a2 mem'. krealloc a mem p n = Inr (q, a2, mem') \<and> heap_inv a2 \<and>
    heap_live a2 = (heap_live a)(q \<mapsto> n, p := None) \<and> length mem' = length mem \<and>
    take m (drop (q - bottom a) mem') = take m (drop (p - bottom a) mem) \<and>
    (\<forall>r k. heap_live a r = Some k \<longrightarrow> bottom a \<le> r \<longrightarrow> r - bottom a + k \<le> length mem \<longrightarrow>
       take k (drop (r - bottom a) mem') = take k (drop (r - bottom a) mem))"
proof -
  have n: "0 < n" using assms(4) kmalloc_0 [OF assms(1)] by (cases n) auto
  note new = kmalloc_result [OF assms(1) n assms(4)]
  let ?new = "take m (drop (p - bottom a) mem)"
  have len: "length ?new = m" using assms(6) by simp
  have fit: "q - bottom a + length ?new \<le> length mem" using assms(3,7) len by linarith
  have keep: "take k (drop (r - bottom a) (overlay (q - bottom a) ?new mem)) = take k (drop (r - bottom a) mem)"
    if r: "heap_live a r = Some k" "bottom a \<le> r" "r - bottom a + k \<le> length mem" for r k
  proof (cases "k = 0")
    case False
    show ?thesis
    proof (rule take_drop_overlay_other [OF fit r(3)])
      have "{q ..< q + n} \<inter> {r ..< r + k} = {}" using kheap.malloc_apart [OF assms(1) n assms(4) r(1)] .
      then have "q + n \<le> r \<or> r + k \<le> q" using n False by (auto simp: ivl_disj_un)
      then show "r - bottom a + k \<le> q - bottom a \<or> q - bottom a + length ?new \<le> r - bottom a"
        using len assms(3) new(5) r(2) by auto
    qed
  qed simp
  show ?thesis
    using krealloc_moves [OF assms(1,2) n assms(4) assms(6) _ assms(5)] fit len keep take_drop_overlay_same [OF fit]
    by (auto simp del: take_drop_overlay_same)
qed

theorem krealloc_keeps_contents_witness:
  "\<exists>a q a1 a2 mem'. kmalloc (fresh_heap 0x400000) 2 = Inr (0x400000, a) \<and> kmalloc a 4 = Inr (q, a1) \<and>
     krealloc a (65 # 66 # replicate 8190 0) 0x400000 4 = Inr (q, a2, mem') \<and>
     heap_live a2 = [q \<mapsto> 4] \<and> take 2 (drop (q - 0x400000) mem') = [65, 66]"
proof -
  have inv: "heap_inv (fresh_heap 0x400000)" by (rule heap_inv_fresh) simp
  obtain a where a: "kmalloc (fresh_heap 0x400000) 2 = Inr (0x400000, a)" "bm_used (bitmap a) = {..<2}"
      "\<not> (\<forall>e \<in> set (entries a). utilized e)"
    using kmalloc_fresh [of "0x400000" 2] by auto
  note r = kmalloc_result [OF inv _ a(1)]
  have inv_a: "heap_inv a" and live: "heap_live a = [0x400000 \<mapsto> 2]" and b: "bottom a = 0x400000"
    using r(1,4) r(2) [unfolded fresh_heap_def] by simp_all
  have "\<not> bm_bit (bitmap a) (4 + p)" if "p < 4" for p
  proof -
    have "4 + p \<notin> bm_used (bitmap a)" using a(2) by simp
    then show ?thesis using heap_inv_lengths(1) [OF inv_a] that by (simp add: bm_used_def)
  qed
  then have fits: "run_fits (bitmap a) 8192 4 True 4" by (simp add: run_fits_def free_run_def step_of_def)
  obtain q a1 where q: "kmalloc a 4 = Inr (q, a1)"
    by (rule kmalloc_space [OF inv_a _ fits]) (use a(3) in auto)
  have q8: "q - 0x400000 + 4 \<le> 8192" and qn: "q \<noteq> 0x400000"
    using kmalloc_result(3,5) [OF inv_a _ q] b live by (auto split: if_splits)
  have "([0x400000 \<mapsto> 2 :: nat, q \<mapsto> 4])(0x400000 := None) = [q \<mapsto> 4]" using qn by auto
  then show ?thesis
    using krealloc_keeps_contents [OF inv_a _ _ q, of "0x400000" 2 "65 # 66 # replicate 8190 0"] live b q8 a(1) q by auto
qed

text \<open>The bitmap of the heap covers twice the memory that is mapped for it: once the 4096 mapped bytes are
  taken, a further \<open>kcalloc\<close> does not end in the panic for lack of space but in an access outside the
  mapped page.\<close>

theorem kcalloc_past_mapped_page:
  assumes "heap_inv a" and "{..<4096} \<subseteq> bm_used (bitmap a)" and "length mem = 4096"
    and "0 < n" and "n < 4294967296" and "run_fits (bitmap a) 8192 n True s0" and "\<not> (\<forall>e \<in> set (entries a). utilized e)"
  shows "kcalloc a mem 1 n = Inl Out_of_bounds"
proof -
  obtain s a' where fits: "run_fits (bitmap a) 8192 n True s" and ok: "kmalloc a n = Inr (bottom a + s, a')"
    by (rule kmalloc_space [OF assms(1,4,6)]) (use assms(7) in auto)
  have "s \<notin> bm_used (bitmap a)"
    using fits assms(4) by (auto simp: run_fits_def free_run_def bm_used_def)
  then have "4096 \<le> s" using assms(2) by (meson lessThan_iff not_le subsetD)
  then show ?thesis
    using ok assms(1,3-5) kmalloc_result(2) [OF assms(1,4) ok]
    by (simp add: kcalloc_def heap_off_def memset_outside)
qed

theorem kcalloc_past_mapped_page_witness:
  "\<exists>a. kmalloc (fresh_heap 0x400000) 4096 = Inr (0x400000, a) \<and> kcalloc a (replicate 4096 0) 1 4 = Inl Out_of_bounds"
proof -
  have inv: "heap_inv (fresh_heap 0x400000)" by (rule heap_inv_fresh) simp
  obtain a where a: "kmalloc (fresh_heap 0x400000) 4096 = Inr (0x400000, a)" "bm_used (bitmap a) = {..<4096}"
      "\<not> (\<forall>e \<in> set (entries a). utilized e)"
    using kmalloc_fresh [of "0x400000" 4096] by auto
  have inv_a: "heap_inv a" using kmalloc_result(1) [OF inv _ a(1)] by simp
  have "\<not> bm_bit (bitmap a) (4096 + p)" if "p < 4" for p
  proof -
    have "4096 + p \<notin> bm_used (bitmap a)" using a(2) by simp
    then show ?thesis using heap_inv_lengths(1) [OF inv_a] that by (simp add: bm_used_def)
  qed
  then have "run_fits (bitmap a) 8192 4 True 4096" by (simp add: run_fits_def free_run_def step_of_def)
  then show ?thesis using kcalloc_past_mapped_page [OF inv_a, of "replicate 4096 0" 4 4096] a by auto
qed

text \<open>\<open>allocate_page\<close> never runs out of pages before it runs out of entries: while an entry is unused it
  returns the lowest free page, page-aligned, below page 1279 and above the kernel's own 1024 pages, and marks
  exactly that page.\<close>

theorem allocate_page_lowest_free:
  assumes "page_inv a" and "\<not> (\<forall>e \<in> set (entries a). utilized e)"
  shows "\<exists>s a'. allocate_page a = Inr (s * 4096, a') \<and> 1024 \<le> s \<and> s < 1279 \<and> page_inv a' \<and>
    heap_live a (s * 4096) = None \<and> heap_live a' = (heap_live a)(s * 4096 \<mapsto> 1) \<and>
    (\<forall>s' < s. s' \<in> bm_used (bitmap a))"
proof -
  obtain s a' where s: "allocate_page a = Inr (s * 4096, a')" "s < 1279" "s \<notin> bm_used (bitmap a)"
      "\<forall>s' < s. s' \<in> bm_used (bitmap a)" "page_inv a'" "heap_live a' = (heap_live a)(s * 4096 \<mapsto> 1)"
    using allocate_page_result [OF assms] by blast
  have tok: "table_ok (\<lambda>s. s * 4096) 1280 (entries a)" and used: "bm_used (bitmap a) = (\<Union>r \<in> set (live_ranges (entries a)). br_set r)"
    using assms(1) by (simp_all add: page_inv_def)
  have nolive: "br_start (ae_range (entries a ! i)) \<noteq> s" if "i < length (entries a)" "utilized (entries a ! i)" for i
    using s(3) used live_nth_mem [OF that] live_nth_nonempty [of "entries a" i] that tok
    by (auto simp: table_ok_def br_set_def)
  have "heap_live a (s * 4096) \<noteq> Some n" for n
    using heap_live_iff [OF tok, of "s * 4096" n] nolive tok by (auto simp: table_ok_def table_inv_def)
  then have "heap_live a (s * 4096) = None" by (rule not_Some_eq [THEN iffD1, OF allI])
  moreover have "ae_range (entries a ! 0) \<in> set (live_ranges (entries a))"
    using assms(1) tok by (intro live_nth_mem) (auto simp: page_inv_def table_ok_def table_inv_def MAX_ALLOCATIONS_def)
  then have "br_set (ae_range (entries a ! 0)) \<subseteq> bm_used (bitmap a)" unfolding used by (rule UN_upper)
  then have "{..<1024} \<subseteq> bm_used (bitmap a)" using assms(1) by (simp add: page_inv_def br_set_def atLeast0LessThan)
  then have "1024 \<le> s" using s(3) by (meson lessThan_iff not_le subsetD)
  ultimately show ?thesis using s by blast
qed

theorem allocate_page_lowest_free_witness:
  "\<exists>a a'. reserve_kernel_pages (zero_allocator 262144) = Inr a \<and> allocate_page a = Inr (0x400000, a') \<and> page_inv a'"
proof -
  obtain a where a: "reserve_kernel_pages (zero_allocator 262144) = Inr a" "page_inv a"
    "bm_used (bitmap a) = {..<1024}" "\<not> (\<forall>e \<in> set (entries a). utilized e)"
    by (rule reserve_kernel_pages_ok)
  obtain s a' where s: "allocate_page a = Inr (s * 4096, a')" "1024 \<le> s" "page_inv a'" "\<forall>s' < s. s' \<in> bm_used (bitmap a)"
    using allocate_page_lowest_free [OF a(2,4)] by blast
  have "s = 1024" using s(2,4) a(3) by (metis lessThan_iff le_neq_implies_less less_irrefl)
  then show ?thesis using a(1) s by auto
qed

end
