(* ===== verification/Ports.thy ===== *)
theory Ports
  imports Yorha_Prelude "HOL-Library.While_Combinator" "HOL-Library.Signed_Division"
begin

text \<open>
  Port input and output (\<open>src/include/asm/cpu_io.h\<close>) and the drivers that use nothing else: the serial
  port (\<open>src/src/serial.c\<close>) and the programmable timer (\<open>src/src/io.c\<close>).

  The devices are not part of the program. They are the parameter \<open>hw\<close>: what a port reads is some
  function of everything that was read and written before, so a driver threads the trace of its port
  accesses, the latest first. A loop that polls a port may never end: it is a \<open>while_option\<close>, and
  \<open>None\<close> is the device that never becomes ready.
\<close>

section \<open>Definitions\<close>

datatype io_event = Outb u16 u8 | Outw u16 u16 | Inb u16 u8 | Inw u16 u16

type_synonym trace = "io_event list"

record hardware =
  hw_inb :: "trace \<Rightarrow> u16 \<Rightarrow> u8"
  hw_inw :: "trace \<Rightarrow> u16 \<Rightarrow> u16"

definition outb :: "u16 \<Rightarrow> u8 \<Rightarrow> trace \<Rightarrow> trace" where
  "outb port v t = Outb port v # t"

definition outsw :: "u16 \<Rightarrow> u16 \<Rightarrow> trace \<Rightarrow> trace" where
  "outsw port v t = Outw port v # t"

definition inb :: "hardware \<Rightarrow> u16 \<Rightarrow> trace \<Rightarrow> u8 \<times> trace" where
  "inb hw port t = (let v = hw_inb hw t port in (v, Inb port v # t))"

definition inw :: "hardware \<Rightarrow> u16 \<Rightarrow> trace \<Rightarrow> u16 \<times> trace" where
  "inw hw port t = (let v = hw_inw hw t port in (v, Inw port v # t))"

text \<open>\<open>rep insw\<close>: \<open>count\<close> words from one port, each stored low byte first.\<close>

fun rep_insw :: "hardware \<Rightarrow> u16 \<Rightarrow> nat \<Rightarrow> trace \<Rightarrow> u8 list \<times> trace" where
  "rep_insw hw port 0 t = ([], t)"
| "rep_insw hw port (Suc n) t =
     (let (w, t1) = inw hw port t; (bs, t2) = rep_insw hw port n t1
      in (ucast w # ucast (drop_bit 8 w) # bs, t2))"

text \<open>\<open>while (!ready(inb(port)));\<close>, with the value that ended it.\<close>

definition poll :: "hardware \<Rightarrow> (u8 \<Rightarrow> bool) \<Rightarrow> u16 \<Rightarrow> trace \<Rightarrow> (u8 \<times> trace) option" where
  "poll hw ready port t = while_option (\<lambda>(v, t). \<not> ready v) (\<lambda>(v, t). inb hw port t) (inb hw port t)"

definition COM1 :: u16 where "COM1 = 0x3f8"

definition init_serial :: "hardware \<Rightarrow> trace \<Rightarrow> int \<times> trace" where
  "init_serial hw t0 =
     (let t1 = outb (COM1 + 1) 0x01 t0;
          t2 = outb (COM1 + 3) 0x80 t1;
          t3 = outb (COM1 + 0) 0x01 t2;
          t4 = outb (COM1 + 1) 0x00 t3;
          t5 = outb (COM1 + 3) 0x0 t4;
          t6 = outb (COM1 + 2) 0xC7 t5;
          t7 = outb (COM1 + 3) 0x03 t6;
          t8 = outb (COM1 + 4) 0x1E t7;
          t9 = outb (COM1 + 0) 0xAE t8;
          (v, t10) = inb hw (COM1 + 0) t9
      in if v \<noteq> 0xAE then (- 1, t10) else (0, outb (COM1 + 4) 0x0F t10))"

definition is_transmit_empty :: "hardware \<Rightarrow> trace \<Rightarrow> u8 \<times> trace" where
  "is_transmit_empty hw t = (let (v, t') = inb hw (COM1 + 5) t in (v AND 0x20, t'))"

definition write_serial :: "hardware \<Rightarrow> u8 \<Rightarrow> trace \<Rightarrow> trace option" where
  "write_serial hw a t = map_option (\<lambda>(_, t'). outb COM1 a t') (poll hw (\<lambda>v. v AND 0x20 \<noteq> 0) (COM1 + 5) t)"

definition serial_received :: "hardware \<Rightarrow> trace \<Rightarrow> u8 \<times> trace" where
  "serial_received hw t = (let (v, t') = inb hw (COM1 + 5) t in (v AND 1, t'))"

definition read_serial :: "hardware \<Rightarrow> trace \<Rightarrow> (u8 \<times> trace) option" where
  "read_serial hw t = map_option (\<lambda>(_, t'). inb hw COM1 t') (poll hw (\<lambda>v. v AND 1 \<noteq> 0) (COM1 + 5) t)"

text \<open>\<open>serial_handler\<close> of \<open>src/src/file_handlers.c\<close>: the file operations of \<open>/dev/ttyS\<close>, at most one byte
  and never waiting.\<close>

definition serial_handler ::
    "hardware \<Rightarrow> bool \<Rightarrow> u8 list \<Rightarrow> nat \<Rightarrow> trace \<Rightarrow> (nat \<times> u8 list \<times> trace) res" where
  "serial_handler hw read buf count t =
     (if read then
        let (r, t1) = serial_received hw t in
        if r \<noteq> 0 then
          let (v, t2) = inb hw COM1 t1 in obind (wr buf 0 v) (\<lambda>buf'. Inr (1, buf', t2))
        else Inr (0, buf, t1)
      else
        let (r, t1) = is_transmit_empty hw t in
        if r \<noteq> 0 then obind (rd buf 0) (\<lambda>v. Inr (1, buf, outb COM1 v t1))
        else Inr (0, buf, t1))"

text \<open>\<open>timer_phase\<close> programs the divisor of the timer; the division is C's on \<open>int\<close>.\<close>

definition timer_phase :: "int \<Rightarrow> trace \<Rightarrow> trace res" where
  "timer_phase hz t =
     (if hz = 0 then Inl (Panic ''Division By Zero'')
      else let divisor = (1193180 sdiv hz :: int);
               t1 = outb 0x43 0x36 t;
               t2 = outb 0x40 (word_of_int (take_bit 8 divisor)) t1
           in Inr (outb 0x40 (word_of_int (drop_bit 8 divisor)) t2))"

definition timer_handler :: "u64 \<Rightarrow> u64" where
  "timer_handler timer_counter = timer_counter + 1"

section \<open>Polling\<close>

lemma poll_ready: "poll hw ready port t = Some (v, t') \<Longrightarrow> ready v"
  by (auto simp: poll_def dest!: while_option_stop)

text \<open>A polling loop only reads its own port, and the value it ends with is the last one read.\<close>

lemma poll_trace:
  assumes "poll hw ready port t = Some (v, t')"
  shows "\<exists>vs. t' = Inb port v # map (Inb port) vs @ t \<and> ready v \<and> (\<forall>u \<in> set vs. \<not> ready u)"
proof -
  let ?P = "\<lambda>(v, t'). \<exists>vs. t' = Inb port v # map (Inb port) vs @ t \<and> (\<forall>u \<in> set vs. \<not> ready u)"
  have "?P (v, t')"
  proof (rule while_option_rule [where P = ?P, OF _ assms [unfolded poll_def]])
    show "?P (inb hw port t)" by (auto simp: inb_def Let_def intro!: exI [of _ "[]"])
    show "?P (case s of (v, t) \<Rightarrow> inb hw port t)" if P: "?P s" and b: "case s of (v, t) \<Rightarrow> \<not> ready v" for s
    proof -
      obtain u vs where "s = (u, Inb port u # map (Inb port) vs @ t)" "\<forall>u \<in> set vs. \<not> ready u" "\<not> ready u"
        using P b by (cases s) auto
      then show ?thesis by (auto simp: inb_def Let_def intro!: exI [of _ "u # vs"])
    qed
  qed
  then show ?thesis using poll_ready [OF assms] by auto
qed

text \<open>A loop returns when some measure of the device's state falls with every unsuccessful reading.\<close>

lemma poll_returns:
  assumes "\<And>t. I t \<Longrightarrow> \<not> ready (hw_inb hw t port) \<Longrightarrow>
      I (Inb port (hw_inb hw t port) # t) \<and> f (Inb port (hw_inb hw t port) # t) < (f t :: nat)" and "I t"
  shows "\<exists>v t'. poll hw ready port t = Some (v, t')"
proof -
  let ?c = "\<lambda>(v, t'). inb hw port t' :: u8 \<times> trace"
  let ?I = "\<lambda>(v, t'). \<exists>t0. I t0 \<and> v = hw_inb hw t0 port \<and> t' = Inb port v # t0"
  have "\<exists>s. while_option (\<lambda>(v, t). \<not> ready v) ?c (inb hw port t) = Some s"
  proof (rule measure_while_option_Some [where P = ?I and f = "\<lambda>(v, t'). f (tl t')"])
    show "?I (inb hw port t)" using assms(2) by (auto simp: inb_def Let_def)
    show "?I (?c s) \<and> (case ?c s of (v, t') \<Rightarrow> f (tl t')) < (case s of (v, t') \<Rightarrow> f (tl t'))"
      if "?I s" and "case s of (v, t) \<Rightarrow> \<not> ready v" for s
      using that assms(1) by (cases s) (auto simp: inb_def Let_def)
  qed
  then show ?thesis by (auto simp: poll_def)
qed

lemma poll_ready_now:
  "ready (hw_inb hw t port) \<Longrightarrow> poll hw ready port t = Some (hw_inb hw t port, Inb port (hw_inb hw t port) # t)"
  by (simp add: poll_def inb_def Let_def while_option_unfold)

section \<open>The serial port\<close>

lemma read_serial_byte:
  assumes "read_serial hw t = Some (c, t')"
  shows "\<exists>v vs. t' = Inb COM1 c # Inb (COM1 + 5) v # map (Inb (COM1 + 5)) vs @ t \<and> bit v 0 \<and> (\<forall>u \<in> set vs. \<not> bit u 0)"
proof -
  obtain v t1 where p: "poll hw (\<lambda>v. v AND 1 \<noteq> 0) (COM1 + 5) t = Some (v, t1)" "inb hw COM1 t1 = (c, t')"
    using assms by (auto simp: read_serial_def)
  have b: "u AND 1 \<noteq> 0 \<longleftrightarrow> bit u 0" for u :: u8 by (simp add: and_one_eq bit_0 odd_iff_mod_2_eq_one)
  from poll_trace [OF p(1)] p(2) show ?thesis unfolding b by (auto simp: inb_def Let_def)
qed

lemma write_serial_byte:
  assumes "write_serial hw a t = Some t'"
  shows "\<exists>v vs. t' = Outb COM1 a # Inb (COM1 + 5) v # map (Inb (COM1 + 5)) vs @ t \<and> v AND 0x20 \<noteq> 0 \<and> (\<forall>u \<in> set vs. u AND 0x20 = 0)"
proof -
  obtain v t1 where p: "poll hw (\<lambda>v. v AND 0x20 \<noteq> 0) (COM1 + 5) t = Some (v, t1)" "t' = outb COM1 a t1"
    using assms by (auto simp: write_serial_def)
  from poll_trace [OF p(1)] p(2) show ?thesis by (auto simp: outb_def)
qed

section \<open>Properties\<close>

text \<open>The serial driver only sends when the transmitter reported itself empty and only takes a byte
  after the receiver reported one: the accesses of \<open>write_serial\<close> are unsuccessful readings of the line
  status, one successful reading, and then the byte.\<close>

theorem write_serial_handshake:
  assumes "write_serial hw a t = Some t'"
  shows "\<exists>v vs. t' = Outb COM1 a # Inb (COM1 + 5) v # map (Inb (COM1 + 5)) vs @ t \<and>
    v AND 0x20 \<noteq> 0 \<and> (\<forall>u \<in> set vs. u AND 0x20 = 0)"
  using write_serial_byte [OF assms] .

theorem write_serial_handshake_witness:
  "\<exists>v vs. [Outb COM1 65, Inb (COM1 + 5) 0x20] = Outb COM1 65 # Inb (COM1 + 5) v # map (Inb (COM1 + 5)) vs @ [] \<and>
    v AND 0x20 \<noteq> 0 \<and> (\<forall>u \<in> set vs. u AND 0x20 = 0)"
proof -
  have "write_serial \<lparr>hw_inb = \<lambda>_ _. 0x20, hw_inw = \<lambda>_ _. 0\<rparr> 65 [] = Some [Outb COM1 65, Inb (COM1 + 5) 0x20]"
    by (simp add: write_serial_def poll_ready_now outb_def)
  from write_serial_handshake [OF this] show ?thesis .
qed

end
