(* ===== verification/Input.thy ===== *)
theory Input
  imports Ports
begin

text \<open>
  Keyboard and serial input (\<open>src/src/io.c\<close>, the ring buffers of \<open>src/include/file_handlers.h\<close>
  and the reading half of \<open>tty_handler\<close> in \<open>src/src/file_handlers.c\<close>).

  The interrupt handlers put characters into a ring buffer of 64 cells, the \<open>read\<close> of \<open>/dev/tty\<close> takes
  them out. One cell always stays empty, so at most 63 characters wait and further ones are dropped.
  The handlers run between any two operations of the reader: the interleavings are the sequences of the
  inductive relation \<open>kb_steps\<close>.
\<close>

section \<open>Definitions\<close>

definition RING_BUFFER_CAPACITY :: nat where
  "RING_BUFFER_CAPACITY = 64"

record RingBuffer =
  char_buffer :: "u8 list"
  tty_fd :: nat
  in_index :: nat
  out_index :: nat

definition zero_ring :: RingBuffer where
  "zero_ring = \<lparr>char_buffer = replicate RING_BUFFER_CAPACITY 0, tty_fd = 0, in_index = 0, out_index = 0\<rparr>"

definition scancode_to_ascii :: "u8 list" where
  "scancode_to_ascii =
     [0, 0] @ map of_char ''1234567890-='' @ [8, 9] @ map of_char ''qwertyuiop[]'' @ [10, 0] @
     map of_char ''asdfghjkl;'' @ [39, 96, 0, 92] @ map of_char ''zxcvbnm,./'' @ [0, 42, 0, 32, 0] @
     replicate 69 0"

definition scancode_to_ascii_shifted :: "u8 list" where
  "scancode_to_ascii_shifted =
     [0, 0] @ map of_char ''!@#$%^&*()_+'' @ [8, 9] @ map of_char ''QWERTYUIOP{}'' @ [10, 0] @
     map of_char ''ASDFGHJKL:'' @ [34, 126, 0, 124] @ map of_char ''ZXCVBNM<>?'' @ [0, 42, 0, 32, 0] @
     replicate 69 0"

text \<open>Storing a character, as both interrupt handlers do it: only when the next index is not the one
  the reader is at.\<close>

definition ring_put :: "RingBuffer \<Rightarrow> u8 \<Rightarrow> RingBuffer res" where
  "ring_put rb c =
     (let next_index = w32 (in_index rb + 1) mod RING_BUFFER_CAPACITY in
      if next_index \<noteq> out_index rb then
        obind (wr (char_buffer rb) (in_index rb) c) (\<lambda>cb. Inr (rb\<lparr>char_buffer := cb, in_index := next_index\<rparr>))
      else Inr rb)"

text \<open>\<open>keyboard_handler\<close> after it has read the scancode; the first component is \<open>shift_pressed\<close>.\<close>

definition keyboard_key :: "bool \<Rightarrow> RingBuffer \<Rightarrow> u8 \<Rightarrow> (bool \<times> RingBuffer) res" where
  "keyboard_key shift_pressed rb scancode =
     (if scancode AND 0x80 \<noteq> 0 then
        if scancode = 0xAA \<or> scancode = 0xB6 then Inr (False, rb) else Inr (shift_pressed, rb)
      else if scancode = 0x2A \<or> scancode = 0x36 then Inr (True, rb)
      else obind (rd (if shift_pressed then scancode_to_ascii_shifted else scancode_to_ascii) (unat scancode))
             (\<lambda>output_char.
                if output_char \<noteq> 0 then obind (ring_put rb output_char) (\<lambda>rb'. Inr (shift_pressed, rb'))
                else Inr (shift_pressed, rb)))"

definition keyboard_handler :: "hardware \<Rightarrow> bool \<Rightarrow> RingBuffer \<Rightarrow> trace \<Rightarrow> (bool \<times> RingBuffer \<times> trace) res" where
  "keyboard_handler hw shift_pressed rb t =
     (let (scancode, t') = inb hw 0x60 t in
      obind (keyboard_key shift_pressed rb scancode) (\<lambda>(s, rb'). Inr (s, rb', t')))"

definition get_keypress :: "hardware \<Rightarrow> trace \<Rightarrow> (u8 option res \<times> trace) option" where
  "get_keypress hw t =
     map_option (\<lambda>(_, t1).
       let (scancode, t2) = inb hw 0x60 t1 in
       (if scancode AND 0x80 \<noteq> 0 then Inr None
        else obind (rd scancode_to_ascii (unat scancode)) (\<lambda>c. Inr (Some c)), t2))
     (poll hw (\<lambda>v. v AND 1 \<noteq> 0) 0x64 t)"

definition serial_interrupt_handler :: "hardware \<Rightarrow> RingBuffer \<Rightarrow> trace \<Rightarrow> (RingBuffer \<times> trace) res option" where
  "serial_interrupt_handler hw rb t =
     map_option (\<lambda>(output_char, t').
       if output_char \<noteq> 0 then obind (ring_put rb output_char) (\<lambda>rb'. Inr (rb', t')) else Inr (rb, t'))
     (read_serial hw t)"

text \<open>The reading half of \<open>tty_handler\<close>: at most \<open>count\<close> characters, as long as there are any.\<close>

function tty_read_loop ::
    "RingBuffer \<Rightarrow> u8 list \<Rightarrow> nat \<Rightarrow> nat \<Rightarrow> nat \<Rightarrow> (nat \<times> u8 list \<times> RingBuffer) res" where
  "tty_read_loop rb small_buf count byte rd_count =
     (if byte < count then
        if out_index rb = in_index rb then Inr (rd_count, small_buf, rb)
        else
          obind (rd (char_buffer rb) (out_index rb)) (\<lambda>c.
          obind (wr small_buf rd_count c) (\<lambda>small_buf'.
            tty_read_loop (rb\<lparr>out_index := w32 (out_index rb + 1) mod RING_BUFFER_CAPACITY\<rparr>)
              small_buf' count (byte + 1) (rd_count + 1)))
      else Inr (rd_count, small_buf, rb))"
  by pat_completeness auto
termination
  by (relation "measure (\<lambda>(rb, b, count, byte, r). count - byte)") auto

declare tty_read_loop.simps [simp del]

definition tty_read :: "RingBuffer \<Rightarrow> u8 list \<Rightarrow> nat \<Rightarrow> (nat \<times> u8 list \<times> RingBuffer) res" where
  "tty_read rb small_buf count = tty_read_loop rb small_buf count 0 0"

text \<open>What a ring buffer holds: the cells from \<open>out_index\<close> up to \<open>in_index\<close>, cyclically.\<close>

definition ring_inv :: "RingBuffer \<Rightarrow> bool" where
  "ring_inv rb \<longleftrightarrow> length (char_buffer rb) = 64 \<and> in_index rb < 64 \<and> out_index rb < 64"

definition ring_size :: "RingBuffer \<Rightarrow> nat" where
  "ring_size rb = (in_index rb + 64 - out_index rb) mod 64"

definition ring_abs :: "RingBuffer \<Rightarrow> u8 list" where
  "ring_abs rb = map (\<lambda>k. char_buffer rb ! ((out_index rb + k) mod 64)) [0 ..< ring_size rb]"

section \<open>The ring buffer as a queue\<close>

lemma ring_size_less [simp]: "ring_size rb < 64"
  by (simp add: ring_size_def)

lemma length_ring_abs [simp]: "length (ring_abs rb) = ring_size rb"
  by (simp add: ring_abs_def)

lemma mod_add_cancel_64: "(a :: nat) < 64 \<Longrightarrow> b < 64 \<Longrightarrow> (a + (b + 64 - a) mod 64) mod 64 = b"
  by (cases "a \<le> b") (auto simp: mod_add_right_eq)

lemma succ_mod_64: "i < 64 \<Longrightarrow> Suc i mod 64 = (if i = 63 then 0 else Suc i)"
  by auto

lemma ring_size_alt:
  "ring_inv rb \<Longrightarrow> ring_size rb =
     (if out_index rb \<le> in_index rb then in_index rb - out_index rb else in_index rb + 64 - out_index rb)"
  unfolding ring_inv_def ring_size_def by (auto simp: mod_if)

lemma ring_full_iff:
  "ring_inv rb \<Longrightarrow> (in_index rb + 1) mod 64 = out_index rb \<longleftrightarrow> ring_size rb = 63"
  by (auto simp: ring_size_alt) (auto simp: ring_inv_def mod_if split: if_splits)

lemma ring_empty_iff: "ring_inv rb \<Longrightarrow> out_index rb = in_index rb \<longleftrightarrow> ring_abs rb = []"
  unfolding length_0_conv [symmetric] length_ring_abs
  by (auto simp: ring_size_alt) (auto simp: ring_inv_def split: if_splits)

lemma ring_put_room:
  assumes inv: "ring_inv rb" and room: "ring_size rb < 63"
  shows "\<exists>rb'. ring_put rb c = Inr rb' \<and> ring_inv rb' \<and> ring_abs rb' = ring_abs rb @ [c] \<and> out_index rb' = out_index rb"
proof -
  let ?n = "(in_index rb + 1) mod 64"
  let ?rb = "rb\<lparr>char_buffer := (char_buffer rb)[in_index rb := c], in_index := ?n\<rparr>"
  have ix: "in_index rb < 64" "out_index rb < 64" "length (char_buffer rb) = 64" using inv by (simp_all add: ring_inv_def)
  have put: "ring_put rb c = Inr ?rb"
    using ix room ring_full_iff [OF inv] by (simp add: ring_put_def Let_def RING_BUFFER_CAPACITY_def)
  have inv': "ring_inv ?rb" using inv by (simp add: ring_inv_def)
  have sz: "ring_size ?rb = Suc (ring_size rb)"
    using room ix unfolding ring_size_alt [OF inv] ring_size_alt [OF inv']
    by (auto simp: succ_mod_64 split: if_splits)
  have last: "(out_index rb + ring_size rb) mod 64 = in_index rb"
    using mod_add_cancel_64 [OF ix(2,1)] by (simp add: ring_size_def)
  have other: "(out_index rb + k) mod 64 \<noteq> in_index rb" if "k < ring_size rb" for k
    using that ix unfolding ring_size_alt [OF inv] by (auto simp: mod_if [of "out_index rb + k"] split: if_splits)
  have "ring_abs ?rb = ring_abs rb @ [c]"
    unfolding ring_abs_def sz using ix last other [THEN not_sym] by (auto intro!: map_cong)
  with put inv' show ?thesis by simp
qed

lemma ring_put_full: "ring_inv rb \<Longrightarrow> ring_size rb = 63 \<Longrightarrow> ring_put rb c = Inr rb"
  using ring_full_iff [of rb] by (simp add: ring_put_def Let_def RING_BUFFER_CAPACITY_def ring_inv_def)

lemma ring_take:
  assumes inv: "ring_inv rb" and ne: "out_index rb \<noteq> in_index rb"
  shows "ring_abs rb = char_buffer rb ! out_index rb # ring_abs (rb\<lparr>out_index := (out_index rb + 1) mod 64\<rparr>)"
    and "ring_inv (rb\<lparr>out_index := (out_index rb + 1) mod 64\<rparr>)"
proof -
  let ?rb = "rb\<lparr>out_index := (out_index rb + 1) mod 64\<rparr>"
  have ix: "in_index rb < 64" "out_index rb < 64" using inv by (simp_all add: ring_inv_def)
  show inv': "ring_inv ?rb" using inv by (simp add: ring_inv_def)
  have sz: "ring_size rb = Suc (ring_size ?rb)"
    using ne ix unfolding ring_size_alt [OF inv] ring_size_alt [OF inv']
    by (auto simp: succ_mod_64 split: if_splits)
  show "ring_abs rb = char_buffer rb ! out_index rb # ring_abs ?rb"
    unfolding ring_abs_def sz upt_conv_Cons [OF zero_less_Suc] map_upt_Suc [symmetric]
    using ix by (simp add: upt_rec [of 0] map_Suc_upt [symmetric] mod_add_left_eq o_def del: upt_Suc)
qed

lemma tty_read_loop_queue:
  assumes "ring_inv rb" and "rd_count \<le> byte" and "byte \<le> count" and "length small_buf \<ge> rd_count + (count - byte)"
  shows "\<exists>rb'. tty_read_loop rb small_buf count byte rd_count =
      Inr (rd_count + length (take (count - byte) (ring_abs rb)),
           overlay rd_count (take (count - byte) (ring_abs rb)) small_buf, rb') \<and>
    ring_inv rb' \<and> ring_abs rb' = drop (count - byte) (ring_abs rb)"
  using assms
proof (induction rb small_buf count byte rd_count rule: tty_read_loop.induct)
  case (1 rb small_buf count byte rd_count)
  show ?case
  proof (cases "byte < count \<and> out_index rb \<noteq> in_index rb")
    case True
    let ?rb = "rb\<lparr>out_index := (out_index rb + 1) mod 64\<rparr>" and ?c = "char_buffer rb ! out_index rb"
    let ?n = "count - Suc byte"
    have n: "count - byte = Suc ?n" using True by linarith
    have ix: "out_index rb < length (char_buffer rb)" "out_index rb < 64" "rd_count < length small_buf"
      using "1.prems" True by (auto simp: ring_inv_def)
    have w: "w32 (out_index rb + 1) mod RING_BUFFER_CAPACITY = (out_index rb + 1) mod 64"
      using ix by (simp add: RING_BUFFER_CAPACITY_def)
    note tk = ring_take [OF "1.prems"(1) conjunct2 [OF True]]
    have "\<exists>rb'. tty_read_loop ?rb (small_buf[rd_count := ?c]) count (byte + 1) (rd_count + 1) =
        Inr (rd_count + 1 + length (take (count - (byte + 1)) (ring_abs ?rb)),
             overlay (rd_count + 1) (take (count - (byte + 1)) (ring_abs ?rb)) (small_buf[rd_count := ?c]), rb') \<and>
      ring_inv rb' \<and> ring_abs rb' = drop (count - (byte + 1)) (ring_abs ?rb)"
      using "1.IH" [OF _ _ rd_in wr_in, unfolded w] True ix "1.prems" tk(2) by simp
    moreover have "overlay (rd_count + 1) (take ?n (ring_abs ?rb)) (small_buf[rd_count := ?c]) =
        overlay rd_count (take (count - byte) (ring_abs rb)) small_buf"
      unfolding n tk(1) using "1.prems"(4) n
      by (intro nth_equalityI) (auto simp: nth_overlay nth_list_update nth_Cons')
    ultimately show ?thesis
      using True ix w by (auto simp: tty_read_loop.simps [of rb] n tk(1))
  next
    case False
    then show ?thesis
      using "1.prems" ring_empty_iff [OF "1.prems"(1)] ring_size_alt [OF "1.prems"(1)]
      by (auto simp: tty_read_loop.simps [of rb])
  qed
qed

lemma tty_read_queue:
  assumes "ring_inv rb" and "count \<le> length small_buf"
  shows "\<exists>rb'. tty_read rb small_buf count =
      Inr (min count (length (ring_abs rb)), overlay 0 (take count (ring_abs rb)) small_buf, rb') \<and>
    ring_inv rb' \<and> ring_abs rb' = drop count (ring_abs rb)"
  using tty_read_loop_queue [OF assms(1), of 0 0 count small_buf] assms(2) by (simp add: tty_read_def min.commute)

subsection \<open>The contract of a bounded queue\<close>

text \<open>
  What the interrupt handlers and the reader rely on. Whatever the order in which characters are put
  and taken, the characters taken followed by those still waiting are the characters that were
  accepted, in order; a character is refused only when the queue is full.
\<close>

datatype 'a queue_op = Put 'a | Get nat

locale bounded_queue =
  fixes cap :: nat
    and inv :: "'q \<Rightarrow> bool"
    and abs :: "'q \<Rightarrow> 'a list"
    and put :: "'q \<Rightarrow> 'a \<Rightarrow> 'q res"
    and get :: "'q \<Rightarrow> nat \<Rightarrow> ('a list \<times> 'q) res"
  assumes put_law: "inv q \<Longrightarrow> \<exists>q'. put q c = Inr q' \<and> inv q' \<and> abs q' = (if length (abs q) < cap then abs q @ [c] else abs q)"
    and get_law: "inv q \<Longrightarrow> \<exists>q'. get q n = Inr (take n (abs q), q') \<and> inv q' \<and> abs q' = drop n (abs q)"
begin

fun exec :: "'a queue_op list \<Rightarrow> 'q \<Rightarrow> ('a list \<times> 'q) res" where
  "exec [] q = Inr ([], q)"
| "exec (Put c # ops) q = obind (put q c) (exec ops)"
| "exec (Get n # ops) q = obind (get q n) (\<lambda>(cs, q'). obind (exec ops q') (\<lambda>(ds, q''). Inr (cs @ ds, q'')))"

fun spec :: "'a queue_op list \<Rightarrow> 'a list \<Rightarrow> 'a list \<times> 'a list" where
  "spec [] cs = ([], cs)"
| "spec (Put c # ops) cs = spec ops (if length cs < cap then cs @ [c] else cs)"
| "spec (Get n # ops) cs = (let (ds, cs') = spec ops (drop n cs) in (take n cs @ ds, cs'))"

fun accepted :: "'a queue_op list \<Rightarrow> 'a list \<Rightarrow> 'a list" where
  "accepted [] cs = []"
| "accepted (Put c # ops) cs = (if length cs < cap then c # accepted ops (cs @ [c]) else accepted ops cs)"
| "accepted (Get n # ops) cs = accepted ops (drop n cs)"

fun puts :: "'a queue_op list \<Rightarrow> 'a list" where
  "puts [] = []"
| "puts (Put c # ops) = c # puts ops"
| "puts (Get n # ops) = puts ops"

lemma accepted_all: "length cs + length (puts ops) \<le> cap \<Longrightarrow> accepted ops cs = puts ops"
  by (induction ops cs rule: accepted.induct) auto

lemma exec_refines:
  "inv q \<Longrightarrow> \<exists>q'. exec ops q = Inr (fst (spec ops (abs q)), q') \<and> inv q' \<and> abs q' = snd (spec ops (abs q))"
proof (induction ops arbitrary: q)
  case (Cons op ops)
  show ?case
  proof (cases op)
    case (Put c)
    obtain q' where "put q c = Inr q'" "inv q'" "abs q' = (if length (abs q) < cap then abs q @ [c] else abs q)"
      using put_law [OF Cons.prems] by blast
    then show ?thesis using Put Cons.IH [of q'] by auto
  next
    case (Get n)
    obtain q' where "get q n = Inr (take n (abs q), q')" "inv q'" "abs q' = drop n (abs q)"
      using get_law [OF Cons.prems] by blast
    then show ?thesis using Get Cons.IH [of q'] by (auto split: prod.splits)
  qed
qed simp

lemma spec_fifo: "fst (spec ops cs) @ snd (spec ops cs) = cs @ accepted ops cs"
proof (induction ops arbitrary: cs)
  case (Cons op ops)
  then show ?case
  proof (cases op)
    case (Get n)
    have "fst (spec (op # ops) cs) @ snd (spec (op # ops) cs) =
        take n cs @ (fst (spec ops (drop n cs)) @ snd (spec ops (drop n cs)))"
      by (simp add: Get case_prod_beta)
    also have "\<dots> = (take n cs @ drop n cs) @ accepted ops (drop n cs)" unfolding Cons.IH by simp
    finally show ?thesis by (simp add: Get)
  qed simp
qed simp

lemma fifo:
  assumes "inv q"
  shows "\<exists>ds q'. exec ops q = Inr (ds, q') \<and> inv q' \<and> ds @ abs q' = abs q @ accepted ops (abs q)"
  using exec_refines [OF assms, of ops] spec_fifo [of ops "abs q"]
  by (elim exE conjE, intro exI conjI) (assumption, assumption, simp)

end

definition ring_get :: "RingBuffer \<Rightarrow> nat \<Rightarrow> (u8 list \<times> RingBuffer) res" where
  "ring_get rb n = obind (tty_read rb (replicate n 0) n) (\<lambda>(k, buf, rb'). Inr (take k buf, rb'))"

interpretation ring: bounded_queue 63 ring_inv ring_abs ring_put ring_get
proof
  show "\<exists>rb'. ring_put rb c = Inr rb' \<and> ring_inv rb' \<and>
      ring_abs rb' = (if length (ring_abs rb) < 63 then ring_abs rb @ [c] else ring_abs rb)" if "ring_inv rb" for rb c
    using ring_put_room [OF that, of c] ring_put_full [OF that, of c] that ring_size_less [of rb]
    by (cases "ring_size rb < 63") auto
  show "\<exists>rb'. ring_get rb n = Inr (take n (ring_abs rb), rb') \<and> ring_inv rb' \<and> ring_abs rb' = drop n (ring_abs rb)"
    if inv: "ring_inv rb" for rb n
  proof -
    obtain rb' where "tty_read rb (replicate n 0) n =
        Inr (min n (length (ring_abs rb)), overlay 0 (take n (ring_abs rb)) (replicate n 0), rb')"
        "ring_inv rb'" "ring_abs rb' = drop n (ring_abs rb)"
      using tty_read_queue [OF inv, of n "replicate n 0"] by auto
    moreover have "take (min n (length (ring_abs rb))) (overlay 0 (take n (ring_abs rb)) (replicate n 0)) = take n (ring_abs rb)"
      using take_drop_overlay_same [of 0 "take n (ring_abs rb)" "replicate n (0 :: u8)"] by (simp add: min.commute)
    ultimately show ?thesis by (simp add: ring_get_def)
  qed
qed

section \<open>The keyboard\<close>

text \<open>
  What a scancode means: the new state of the shift key and the character it stands for, if any. The
  step relation interleaves key interrupts with reads; its third argument is what the read returned.
\<close>

definition decode :: "bool \<Rightarrow> u8 \<Rightarrow> bool \<times> u8 option" where
  "decode s sc =
     (if bit sc 7 then (s \<and> sc \<noteq> 0xAA \<and> sc \<noteq> 0xB6, None)
      else if sc = 0x2A \<or> sc = 0x36 then (True, None)
      else let c = (if s then scancode_to_ascii_shifted else scancode_to_ascii) ! unat sc
           in (s, if c = 0 then None else Some c))"

datatype kb_event = Key u8 | Read nat

inductive kb_step :: "bool \<times> RingBuffer \<Rightarrow> kb_event \<Rightarrow> u8 list \<Rightarrow> bool \<times> RingBuffer \<Rightarrow> bool" where
  key: "keyboard_key s rb sc = Inr (s', rb') \<Longrightarrow> kb_step (s, rb) (Key sc) [] (s', rb')"
| read: "tty_read rb (replicate n 0) n = Inr (k, buf, rb') \<Longrightarrow> kb_step (s, rb) (Read n) (take k buf) (s, rb')"

inductive kb_steps :: "bool \<times> RingBuffer \<Rightarrow> kb_event list \<Rightarrow> u8 list \<Rightarrow> bool \<times> RingBuffer \<Rightarrow> bool" where
  nil: "kb_steps st [] [] st"
| step: "kb_step st e out st' \<Longrightarrow> kb_steps st' es outs st'' \<Longrightarrow> kb_steps st (e # es) (out @ outs) st''"

inductive_cases kb_step_keyE: "kb_step st (Key sc) out st'"
inductive_cases kb_step_readE: "kb_step st (Read n) out st'"
inductive_cases kb_steps_NilE: "kb_steps st [] out st'"
inductive_cases kb_steps_ConsE: "kb_steps st (e # es) out st'"

fun keys :: "kb_event list \<Rightarrow> u8 list" where
  "keys [] = []"
| "keys (Key sc # es) = sc # keys es"
| "keys (Read n # es) = keys es"

text \<open>The characters a sequence of scancodes stands for.\<close>

fun typed :: "bool \<Rightarrow> u8 list \<Rightarrow> u8 list" where
  "typed s [] = []"
| "typed s (sc # scs) = (case decode s sc of (s', None) \<Rightarrow> typed s' scs | (s', Some c) \<Rightarrow> c # typed s' scs)"

fun ops_of :: "bool \<Rightarrow> kb_event list \<Rightarrow> u8 queue_op list" where
  "ops_of s [] = []"
| "ops_of s (Key sc # es) = (case decode s sc of (s', None) \<Rightarrow> ops_of s' es | (s', Some c) \<Rightarrow> Put c # ops_of s' es)"
| "ops_of s (Read n # es) = Get n # ops_of s es"

lemma length_scancodes [simp]: "length scancode_to_ascii = 128" "length scancode_to_ascii_shifted = 128"
  by (simp_all add: scancode_to_ascii_def scancode_to_ascii_shifted_def)

lemma bit7_u8: "(w :: u8) AND 0x80 \<noteq> 0 \<longleftrightarrow> bit w 7"
proof -
  have "w AND 0x80 = (if bit w 7 then 0x80 else 0)"
  proof (rule bit_eqI)
    fix n assume n: "possible_bit TYPE(u8) n"
    have "(0x80 :: u8) = push_bit 7 1" by simp
    then have "bit (0x80 :: u8) n \<longleftrightarrow> n = 7"
      using n by (simp only: bit_push_bit_iff bit_1_iff possible_bit_def) auto
    then show "bit (w AND 0x80) n \<longleftrightarrow> bit (if bit w 7 then 0x80 else 0 :: u8) n" by (auto simp: bit_and_iff)
  qed
  then show ?thesis by simp
qed

lemma not_bit7_less: "\<not> bit (w :: u8) 7 \<Longrightarrow> unat w < 128"
proof -
  assume "\<not> bit w 7"
  then have "take_bit 7 w = w" by (intro bit_eqI) (auto simp: bit_take_bit_iff possible_bit_def less_Suc_eq numeral_eq_Suc)
  then have "unat w = take_bit 7 (unat w)" by (metis unsigned_take_bit_eq)
  moreover have "take_bit 7 (unat w) < 2 ^ 7" by (rule take_bit_nat_less_exp)
  ultimately show ?thesis by simp
qed

lemma keyboard_key_decode:
  "keyboard_key s rb sc =
     (case decode s sc of (s', None) \<Rightarrow> Inr (s', rb)
      | (s', Some c) \<Rightarrow> obind (ring_put rb c) (\<lambda>rb'. Inr (s', rb')))"
  by (auto simp: keyboard_key_def decode_def bit7_u8 Let_def not_bit7_less)

lemma puts_ops_of: "ring.puts (ops_of s es) = typed s (keys es)"
  by (induction s es rule: ops_of.induct) (auto split: prod.splits option.splits)

text \<open>Every sequence of interrupts and reads is a run of the queue operations it amounts to.\<close>

lemma kb_steps_exec:
  assumes "ring.exec (ops_of s es) rb = Inr (out, rb')"
  shows "\<exists>s'. kb_steps (s, rb) es out (s', rb')"
  using assms
proof (induction es arbitrary: s rb out)
  case Nil
  then show ?case by (auto intro: kb_steps.nil)
next
  case (Cons e es)
  show ?case
  proof (cases e)
    case (Key sc)
    obtain s1 co where d: "decode s sc = (s1, co)" by fastforce
    obtain rb1 where k: "keyboard_key s rb sc = Inr (s1, rb1)" "ring.exec (ops_of s1 es) rb1 = Inr (out, rb')"
      using Cons.prems d Key by (cases co) (auto simp: keyboard_key_decode)
    then obtain s' where "kb_steps (s1, rb1) es out (s', rb')" using Cons.IH by blast
    then show ?thesis using kb_steps.step [OF kb_step.key [OF k(1)]] Key by fastforce
  next
    case (Read n)
    then obtain cs rb1 ds where g: "ring_get rb n = Inr (cs, rb1)" "ring.exec (ops_of s es) rb1 = Inr (ds, rb')" "out = cs @ ds"
      using Cons.prems by auto
    then obtain k buf where r: "tty_read rb (replicate n 0) n = Inr (k, buf, rb1)" "cs = take k buf"
      by (auto simp: ring_get_def)
    obtain s' where "kb_steps (s, rb1) es ds (s', rb')" using Cons.IH g(2) by blast
    then show ?thesis using kb_steps.step [OF kb_step.read [OF r(1)]] Read g(3) r(2) by blast
  qed
qed

lemma kb_steps_deterministic:
  "kb_steps st es out st' \<Longrightarrow> kb_steps st es out2 st2 \<Longrightarrow> out2 = out \<and> st2 = st'"
proof (induction arbitrary: out2 st2 rule: kb_steps.induct)
  case (nil st)
  then show ?case by (auto elim: kb_steps_NilE)
next
  case (step st e out st' es outs st'')
  from step.prems obtain o1 s1 o2 where 2: "kb_step st e o1 s1" "kb_steps s1 es o2 st2" "out2 = o1 @ o2"
    by (auto elim: kb_steps_ConsE)
  have "o1 = out \<and> s1 = st'"
    using step.hyps(1) 2(1) by (cases e) (auto elim!: kb_step_keyE kb_step_readE)
  then show ?case using step.IH [of o2 st2] 2 by simp
qed

lemma zero_ring_ok [simp]: "ring_inv zero_ring" "ring_abs zero_ring = []"
  by (simp_all add: zero_ring_def ring_inv_def ring_abs_def ring_size_def RING_BUFFER_CAPACITY_def)

section \<open>Properties\<close>

text \<open>The ring buffer is a first-in first-out queue of 63 characters: in every order of storing and
  taking, nothing fails, and the characters taken followed by those left are the ones that were there and
  the ones accepted, in order.\<close>

theorem ring_buffer_fifo:
  assumes "ring_inv rb"
  shows "\<exists>out rb'. ring.exec ops rb = Inr (out, rb') \<and> ring_inv rb' \<and>
    out @ ring_abs rb' = ring_abs rb @ ring.accepted ops (ring_abs rb)"
  using ring.fifo [OF assms] .

theorem ring_buffer_fifo_witness:
  "\<exists>out rb'. ring.exec [Put 1, Put 2, Get 1, Put 3] zero_ring = Inr (out, rb') \<and> out @ ring_abs rb' = [1, 2, 3]"
  using ring_buffer_fifo [OF zero_ring_ok(1), of "[Put 1, Put 2, Get 1, Put 3]"] by auto

text \<open>C17: No keystroke is lost or reordered by the interleaving of interrupts and reads: for every sequence of
  scancodes and reads whose characters fit the buffer, the handlers never fault, and what the reads
  returned followed by what still waits is exactly the text typed, with the shift key applied.\<close>

theorem keyboard_interleaving_lossless:
  assumes "length (typed False (keys es)) \<le> 63"
  shows "\<exists>out s rb. kb_steps (False, zero_ring) es out (s, rb) \<and> out @ ring_abs rb = typed False (keys es) \<and>
    (\<forall>out' st'. kb_steps (False, zero_ring) es out' st' \<longrightarrow> out' = out \<and> st' = (s, rb))"
proof -
  let ?ops = "ops_of False es"
  obtain out rb where e: "ring.exec ?ops zero_ring = Inr (out, rb)"
      "out @ ring_abs rb = ring_abs zero_ring @ ring.accepted ?ops (ring_abs zero_ring)"
    using ring.fifo [OF zero_ring_ok(1), of ?ops] by blast
  have "out @ ring_abs rb = typed False (keys es)"
    using e(2) ring.accepted_all [of "[]" ?ops] assms by (simp add: puts_ops_of)
  moreover obtain s where "kb_steps (False, zero_ring) es out (s, rb)" using kb_steps_exec [OF e(1)] by blast
  ultimately show ?thesis using kb_steps_deterministic by blast
qed

theorem keyboard_interleaving_lossless_witness:
  "\<exists>out s rb. kb_steps (False, zero_ring) [Key 0x2A, Key 0x23, Key 0xAA, Read 4, Key 0x17] out (s, rb) \<and>
     out @ ring_abs rb = [of_char (CHR ''H''), of_char (CHR ''i'')]"
proof -
  have t: "typed False (keys [Key 0x2A, Key 0x23, Key 0xAA, Read 4, Key 0x17]) = [of_char (CHR ''H''), of_char (CHR ''i'')]"
    by code_simp
  show ?thesis using keyboard_interleaving_lossless [of "[Key 0x2A, Key 0x23, Key 0xAA, Read 4, Key 0x17]"] unfolding t by auto
qed

text \<open>A key interrupt never faults: the scancode tables cover every code that reaches them, the write goes
  inside the ring buffer, and a full buffer drops the new character and keeps the old ones.\<close>

theorem keyboard_key_never_faults:
  assumes "ring_inv rb"
  shows "\<exists>s' rb'. keyboard_key s rb sc = Inr (s', rb') \<and> ring_inv rb' \<and>
    (ring_abs rb' = ring_abs rb \<or> length (ring_abs rb) < 63 \<and> (\<exists>c. c \<noteq> 0 \<and> ring_abs rb' = ring_abs rb @ [c]))"
proof (cases "snd (decode s sc)")
  case None
  then show ?thesis using assms by (auto simp: keyboard_key_decode split: prod.splits)
next
  case (Some c)
  have "c \<noteq> 0" using Some by (auto simp: decode_def Let_def split: if_splits)
  moreover obtain rb' where "ring_put rb c = Inr rb'" "ring_inv rb'"
      "ring_abs rb' = (if length (ring_abs rb) < 63 then ring_abs rb @ [c] else ring_abs rb)"
    using ring.put_law [OF assms, of c] by blast
  ultimately show ?thesis using Some by (auto simp: keyboard_key_decode split: prod.splits)
qed

theorem keyboard_key_never_faults_witness:
  "\<exists>s' rb'. keyboard_key True zero_ring 0x1E = Inr (s', rb') \<and> ring_inv rb'"
  using keyboard_key_never_faults [OF zero_ring_ok(1), of True "0x1E"] by blast

end
