(* ===== verification/Console.thy ===== *)
theory Console
  imports Ports CString
begin

text \<open>
  The text screen (\<open>src/src/vga.c\<close>, up to \<open>kprint\<close>) and the terminal drawn on it (\<open>src/src/tty.c\<close> and
  the writing half of \<open>tty_handler\<close> in \<open>src/src/file_handlers.c\<close>).

  The screen memory is the page that is mapped at \<open>0xC03FF000\<close>, 2048 cells of which 2000 are
  visible; a cell outside the page faults. \<open>size_t\<close> values are \<open>nat\<close> with \<open>w32\<close> where they can
  wrap around. Moving the hardware cursor is output to two ports, recorded in the trace.
\<close>

section \<open>Definitions\<close>

definition VGA_WIDTH :: nat where "VGA_WIDTH = 80"
definition VGA_HEIGHT :: nat where "VGA_HEIGHT = 25"

record vga =
  terminal_row :: nat
  terminal_column :: nat
  terminal_color :: u8
  terminal_buffer :: "u16 list"

definition vga_entry_color :: "u8 \<Rightarrow> u8 \<Rightarrow> u8" where
  "vga_entry_color fg bg = fg OR push_bit 4 bg"

definition vga_entry :: "u8 \<Rightarrow> u8 \<Rightarrow> u16" where
  "vga_entry uc color = ucast uc OR push_bit 8 (ucast color)"

definition VGA_COLOR_BLACK :: u8 where "VGA_COLOR_BLACK = 0"
definition VGA_COLOR_LIGHT_GREY :: u8 where "VGA_COLOR_LIGHT_GREY = 7"

definition move_cursor :: "nat \<Rightarrow> nat \<Rightarrow> trace \<Rightarrow> trace" where
  "move_cursor x y t =
     (let pos = of_nat (y * VGA_WIDTH + x) :: u16;
          t1 = outb 0x3D4 0x0F t;
          t2 = outb 0x3D5 (ucast (pos AND 0xFF)) t1;
          t3 = outb 0x3D4 0x0E t2
      in outb 0x3D5 (ucast (drop_bit 8 pos AND 0xFF)) t3)"

function clear_row :: "u8 \<Rightarrow> nat \<Rightarrow> nat \<Rightarrow> u16 list \<Rightarrow> u16 list res" where
  "clear_row color y x buf =
     (if x < VGA_WIDTH then obind (wr buf (y * VGA_WIDTH + x) (vga_entry 32 color)) (clear_row color y (x + 1))
      else Inr buf)"
  by pat_completeness auto
termination
  by (relation "measure (\<lambda>(c, y, x, b). VGA_WIDTH - x)") auto

function clear_rows :: "u8 \<Rightarrow> nat \<Rightarrow> u16 list \<Rightarrow> u16 list res" where
  "clear_rows color y buf =
     (if y < VGA_HEIGHT then obind (clear_row color y 0 buf) (clear_rows color (y + 1)) else Inr buf)"
  by pat_completeness auto
termination
  by (relation "measure (\<lambda>(c, y, b). VGA_HEIGHT - y)") auto

declare clear_row.simps [simp del] clear_rows.simps [simp del]

definition terminal_clear :: "vga \<Rightarrow> vga res" where
  "terminal_clear v =
     (let color = vga_entry_color VGA_COLOR_LIGHT_GREY VGA_COLOR_BLACK in
      obind (clear_rows color 0 (terminal_buffer v)) (\<lambda>buf.
        Inr \<lparr>terminal_row = 0, terminal_column = 0, terminal_color = color, terminal_buffer = buf\<rparr>))"

text \<open>\<open>initialize_terminal\<close> does the same after it has set \<open>terminal_buffer\<close> to the page \<open>page\<close> at
  \<open>0xC03FF000\<close>.\<close>

definition initialize_terminal :: "u16 list \<Rightarrow> vga res" where
  "initialize_terminal page =
     terminal_clear \<lparr>terminal_row = 0, terminal_column = 0, terminal_color = 0, terminal_buffer = page\<rparr>"

definition terminal_setcolor :: "u8 \<Rightarrow> vga \<Rightarrow> vga" where
  "terminal_setcolor color v = v\<lparr>terminal_color := color\<rparr>"

definition terminal_putentryat :: "u8 \<Rightarrow> u8 \<Rightarrow> nat \<Rightarrow> nat \<Rightarrow> vga \<Rightarrow> vga res" where
  "terminal_putentryat c color x y v =
     obind (wr (terminal_buffer v) (w32 (y * VGA_WIDTH + x)) (vga_entry c color)) (\<lambda>buf.
       Inr (v\<lparr>terminal_buffer := buf\<rparr>))"

definition kputc :: "u8 \<Rightarrow> vga \<times> trace \<Rightarrow> (vga \<times> trace) res" where
  "kputc c = (\<lambda>(v, t).
     if c = 10 then Inr (v\<lparr>terminal_column := 0, terminal_row := w32 (terminal_row v + 1)\<rparr>, t)
     else if c = 8 then
       let v1 = v\<lparr>terminal_column := w32 (terminal_column v + 4294967295)\<rparr> in
       obind (terminal_putentryat 32 (terminal_color v1) (terminal_column v1) (terminal_row v1) v1) (\<lambda>v2.
         Inr (v2, move_cursor (terminal_column v2) (terminal_row v2) t))
     else
       obind (terminal_putentryat c (terminal_color v) (terminal_column v) (terminal_row v) v) (\<lambda>v1.
         let col = w32 (terminal_column v1 + 1);
             v2 = (if col = VGA_WIDTH
                   then let row = w32 (terminal_row v1 + 1)
                        in v1\<lparr>terminal_column := 0, terminal_row := if row = VGA_HEIGHT then 0 else row\<rparr>
                   else v1\<lparr>terminal_column := col\<rparr>)
         in Inr (v2, move_cursor (terminal_column v2) (terminal_row v2) t)))"

function kwrite_loop :: "u8 list \<Rightarrow> nat \<Rightarrow> nat \<Rightarrow> nat \<Rightarrow> vga \<times> trace \<Rightarrow> (vga \<times> trace) res" where
  "kwrite_loop data d sz i s =
     (if i < sz then obind (rd data (d + i)) (\<lambda>c. obind (kputc c s) (kwrite_loop data d sz (i + 1))) else Inr s)"
  by pat_completeness auto
termination
  by (relation "measure (\<lambda>(data, d, sz, i, s). sz - i)") auto

declare kwrite_loop.simps [simp del]

definition kwrite :: "u8 list \<Rightarrow> nat \<Rightarrow> nat \<Rightarrow> vga \<times> trace \<Rightarrow> (vga \<times> trace) res" where
  "kwrite data d sz s = kwrite_loop data d sz 0 s"

function kprint_loop :: "u8 list \<Rightarrow> nat \<Rightarrow> vga \<times> trace \<Rightarrow> (vga \<times> trace) res" where
  "kprint_loop str i s =
     obind (rd str i) (\<lambda>c. if c \<noteq> 0 then obind (kputc c s) (kprint_loop str (i + 1)) else Inr s)"
  by pat_completeness auto
termination
  by (relation "measure (\<lambda>(str, i, s). length str - i)") (auto simp: rd_def split: if_splits)

declare kprint_loop.simps [simp del]

definition kprint :: "u8 list \<Rightarrow> vga \<times> trace \<Rightarrow> (vga \<times> trace) res" where
  "kprint str s = kprint_loop str 0 s"

text \<open>The terminal: a cyclic text buffer, redrawn from \<open>base_index\<close> after every write.\<close>

definition TERMINAL_BUFFER_SIZE :: nat where "TERMINAL_BUFFER_SIZE = 1024"
definition TERMINAL_HEIGHT :: nat where "TERMINAL_HEIGHT = 20"

record Terminal =
  tty_buffer :: "u8 list"
  t_index :: nat
  base_index :: nat

definition zero_terminal :: Terminal where
  "zero_terminal = \<lparr>tty_buffer = replicate TERMINAL_BUFFER_SIZE 0, t_index = 0, base_index = 0\<rparr>"

text \<open>Counting the lines and remembering where the last 20 begin.\<close>

function scan_lines :: "u8 list \<Rightarrow> nat \<Rightarrow> nat \<Rightarrow> nat \<Rightarrow> nat list \<Rightarrow> (nat \<times> nat list) res" where
  "scan_lines buf i to lines lines_indices =
     (if i < to then
        obind (rd buf i) (\<lambda>c.
          if c = 10 then
            obind (wr lines_indices (w32 (lines + 1) mod TERMINAL_HEIGHT) (w32 (i + 1))) (\<lambda>li.
              scan_lines buf (i + 1) to (w32 (lines + 1)) li)
          else scan_lines buf (i + 1) to lines lines_indices)
      else Inr (lines, lines_indices))"
  by pat_completeness auto
termination
  by (relation "measure (\<lambda>(buf, i, to, lines, li). to - i)") auto

declare scan_lines.simps [simp del]

definition render_terminal :: "Terminal \<Rightarrow> vga \<times> trace \<Rightarrow> (Terminal \<times> vga \<times> trace) res" where
  "render_terminal tm = (\<lambda>(v, t).
     obind (terminal_clear v) (\<lambda>v1.
     obind (scan_lines (tty_buffer tm) (base_index tm) (t_index tm) 0 (replicate TERMINAL_HEIGHT 0)) (\<lambda>(lines, li).
     obind (rd li (w32 (lines + 1) mod 10)) (\<lambda>first_line_starter.
       let tm1 = (if TERMINAL_HEIGHT \<le> lines then tm\<lparr>base_index := first_line_starter\<rparr> else tm) in
       obind (if base_index tm1 < t_index tm1
              then kwrite (tty_buffer tm1) (base_index tm1) (t_index tm1 - base_index tm1) (v1, t)
              else obind (kwrite (tty_buffer tm1) (base_index tm1) (w32 (TERMINAL_BUFFER_SIZE + 4294967296 - base_index tm1)) (v1, t))
                     (kwrite (tty_buffer tm1) 0 (t_index tm1))) (\<lambda>s.
         Inr (tm1, s))))))"

text \<open>The writing half of \<open>tty_handler\<close>.\<close>

function tty_store :: "u8 list \<Rightarrow> nat \<Rightarrow> nat \<Rightarrow> Terminal \<Rightarrow> Terminal res" where
  "tty_store buf count written tm =
     (if written < count then
        obind (rd buf written) (\<lambda>c.
        obind (wr (tty_buffer tm) (t_index tm) c) (\<lambda>tb.
          tty_store buf count (written + 1)
            (tm\<lparr>tty_buffer := tb, t_index := w32 (t_index tm + 1) mod TERMINAL_BUFFER_SIZE\<rparr>)))
      else Inr tm)"
  by pat_completeness auto
termination
  by (relation "measure (\<lambda>(buf, count, written, tm). count - written)") auto

declare tty_store.simps [simp del]

definition tty_write :: "u8 list \<Rightarrow> nat \<Rightarrow> Terminal \<Rightarrow> vga \<times> trace \<Rightarrow> (nat \<times> Terminal \<times> vga \<times> trace) res" where
  "tty_write buf count tm s =
     obind (tty_store buf count 0 tm) (\<lambda>tm1. obind (render_terminal tm1 s) (\<lambda>(tm2, s2). Inr (count, tm2, s2)))"

text \<open>
  What printing text means: a position in the sequence of cells, and the cells. A line feed moves
  to the start of the next row of 80, a backspace clears the cell before the position and moves there, any other character
  fills the cell at the position. \<open>on_screen\<close> are the texts that can be printed from a position on: no step leaves the 25 rows,
  and no backspace comes at the start of a row, where the code goes wrong.
\<close>

definition cursor :: "vga \<Rightarrow> nat" where
  "cursor v = terminal_row v * 80 + terminal_column v"

definition screen_ok :: "vga \<Rightarrow> bool" where
  "screen_ok v \<longleftrightarrow> length (terminal_buffer v) = 2048 \<and> terminal_row v < 25 \<and> terminal_column v < 80"

definition draw_char :: "u8 \<Rightarrow> nat \<times> u16 list \<Rightarrow> u8 \<Rightarrow> nat \<times> u16 list" where
  "draw_char color s c =
     (if c = 10 then ((fst s div 80 + 1) * 80, snd s)
      else if c = 8 then (fst s - 1, (snd s)[fst s - 1 := vga_entry 32 color])
      else (fst s + 1, (snd s)[fst s := vga_entry c color]))"

definition draw :: "u8 \<Rightarrow> u8 list \<Rightarrow> nat \<times> u16 list \<Rightarrow> nat \<times> u16 list" where
  "draw color cs s = foldl (draw_char color) s cs"

definition next_position :: "nat \<Rightarrow> u8 \<Rightarrow> nat" where
  "next_position p c = (if c = 10 then (p div 80 + 1) * 80 else if c = 8 then p - 1 else p + 1)"

fun on_screen :: "u8 list \<Rightarrow> nat \<Rightarrow> bool" where
  "on_screen [] p \<longleftrightarrow> True"
| "on_screen (c # cs) p \<longleftrightarrow> (c = 8 \<longrightarrow> p mod 80 \<noteq> 0) \<and> next_position p c < 2000 \<and> on_screen cs (next_position p c)"

section \<open>The screen\<close>

lemma draw_simps [simp]:
  "draw color [] s = s"
  "draw color (c # cs) s = draw color cs (draw_char color s c)"
  by (simp_all add: draw_def)

lemma draw_char_position [simp]: "fst (draw_char color s c) = next_position (fst s) c"
  by (simp add: draw_char_def next_position_def)

lemma cursor_less: "screen_ok v \<Longrightarrow> cursor v < 2000"
  by (auto simp: screen_ok_def cursor_def)

lemma cursor_div_mod: "screen_ok v \<Longrightarrow> cursor v div 80 = terminal_row v \<and> cursor v mod 80 = terminal_column v"
  by (simp add: screen_ok_def cursor_def)

lemma kputc_draws:
  assumes ok: "screen_ok v" and c: "c = 8 \<longrightarrow> cursor v mod 80 \<noteq> 0" and d: "draw_char (terminal_color v) (cursor v, terminal_buffer v) c = (p, buf)"
    and p: "p < 2000"
  shows "\<exists>v' t'. kputc c (v, t) = Inr (v', t') \<and> screen_ok v' \<and> cursor v' = p \<and> terminal_buffer v' = buf \<and>
    terminal_color v' = terminal_color v"
proof -
  have r: "terminal_row v < 25" "terminal_column v < 80" "length (terminal_buffer v) = 2048" using ok by (simp_all add: screen_ok_def)
  have ix: "terminal_row v * 80 + terminal_column v < 2000" using cursor_less [OF ok] by (simp add: cursor_def)
  consider "c = 10" | "c = 8" "0 < terminal_column v" | "c \<noteq> 10" "c \<noteq> 8" using c cursor_div_mod [OF ok] by fastforce
  then show ?thesis
  proof cases
    case 1
    have "p = (terminal_row v + 1) * 80" "buf = terminal_buffer v" using d 1 cursor_div_mod [OF ok] by (auto simp: draw_char_def)
    moreover from this have "terminal_row v + 1 < 25" using p by simp
    ultimately show ?thesis using 1 ok by (simp add: kputc_def screen_ok_def cursor_def)
  next
    case 2
    have pb: "p = cursor v - 1" "buf = (terminal_buffer v)[cursor v - 1 := vga_entry 32 (terminal_color v)]" using d 2(1) by (auto simp: draw_char_def)
    have "w32 (terminal_column v + 4294967295) = terminal_column v - 1" using 2(2) r(2) by (simp add: w32_def mod_if)
    moreover have "terminal_row v * 80 + (terminal_column v - 1) = cursor v - 1" using 2(2) by (simp add: cursor_def)
    ultimately show ?thesis using 2 r ix pb by (simp add: kputc_def terminal_putentryat_def VGA_WIDTH_def cursor_def screen_ok_def Let_def)
  next
    case 3
    have pb: "p = cursor v + 1" "buf = (terminal_buffer v)[cursor v := vga_entry c (terminal_color v)]" using d 3 by (auto simp: draw_char_def)
    have row: "terminal_row v + 1 \<noteq> 25" if "terminal_column v + 1 = 80" using that p pb(1) by (auto simp: cursor_def)
    show ?thesis
      using 3 r ix row pb
      by (auto simp: kputc_def terminal_putentryat_def VGA_WIDTH_def VGA_HEIGHT_def cursor_def screen_ok_def Let_def)
  qed
qed

text \<open>A text that stays on the screen is drawn cell by cell.\<close>

lemma kwrite_loop_draws:
  assumes "screen_ok v" and "d + sz \<le> length data" and "i \<le> sz" and "on_screen (take (sz - i) (drop (d + i) data)) (cursor v)"
    and "draw (terminal_color v) (take (sz - i) (drop (d + i) data)) (cursor v, terminal_buffer v) = (p, buf)"
  shows "\<exists>v' t'. kwrite_loop data d sz i (v, t) = Inr (v', t') \<and> screen_ok v' \<and> cursor v' = p \<and>
    terminal_buffer v' = buf \<and> terminal_color v' = terminal_color v"
  using assms(1,3-5)
proof (induction "sz - i" arbitrary: i v t)
  case 0
  then show ?case by (auto simp: kwrite_loop.simps [of data])
next
  case (Suc n)
  let ?c = "data ! (d + i)"
  have i: "i < sz" "d + i < length data" using Suc.hyps(2) assms(2) by linarith+
  have split: "take (sz - i) (drop (d + i) data) = ?c # take (sz - Suc i) (drop (d + Suc i) data)"
    using i Suc.hyps(2) by (simp add: Cons_nth_drop_Suc [symmetric] take_Cons' Suc_diff_Suc)
  obtain p1 b1 where d1: "draw_char (terminal_color v) (cursor v, terminal_buffer v) ?c = (p1, b1)" by fastforce
  have p1: "p1 = next_position (cursor v) ?c" using draw_char_position [of "terminal_color v" "(cursor v, terminal_buffer v)" ?c] d1 by simp
  have on: "?c = 8 \<longrightarrow> cursor v mod 80 \<noteq> 0" "p1 < 2000" "on_screen (take (sz - Suc i) (drop (d + Suc i) data)) p1"
    using Suc.prems(3) unfolding split p1 by simp_all
  then obtain v1 t1 where 1: "kputc ?c (v, t) = Inr (v1, t1)" "screen_ok v1" "cursor v1 = p1" "terminal_buffer v1 = b1"
      "terminal_color v1 = terminal_color v"
    using kputc_draws [OF Suc.prems(1) on(1) d1 on(2), of t] by blast
  have "\<exists>v' t'. kwrite_loop data d sz (Suc i) (v1, t1) = Inr (v', t') \<and> screen_ok v' \<and> cursor v' = p \<and>
      terminal_buffer v' = buf \<and> terminal_color v' = terminal_color v1"
    using Suc.prems Suc.hyps(2) i 1 d1 on(3) by (intro Suc.hyps(1)) (auto simp: split)
  then show ?case using 1 i by (simp add: kwrite_loop.simps [of data d sz i])
qed

lemma kwrite_text:
  assumes "screen_ok v" and "d + sz \<le> length data" and "on_screen (take sz (drop d data)) (cursor v)"
    and "draw (terminal_color v) (take sz (drop d data)) (cursor v, terminal_buffer v) = (p, buf)"
  shows "\<exists>v' t'. kwrite data d sz (v, t) = Inr (v', t') \<and> screen_ok v' \<and> cursor v' = p \<and>
    terminal_buffer v' = buf \<and> terminal_color v' = terminal_color v"
  using kwrite_loop_draws [of v d sz data 0 p buf t] assms by (simp add: kwrite_def)

lemma clear_row_overlay:
  assumes "y * 80 + 80 \<le> length buf" and "x \<le> 80"
  shows "clear_row color y x buf = Inr (overlay (y * 80 + x) (replicate (80 - x) (vga_entry 32 color)) buf)"
  using assms
proof (induction color y x buf rule: clear_row.induct)
  case (1 color y x buf)
  show ?case
  proof (cases "x < 80")
    case True
    then have r: "replicate (80 - x) (vga_entry 32 color) = vga_entry 32 color # replicate (80 - Suc x) (vga_entry 32 color)"
      by (metis Suc_diff_Suc replicate_Suc)
    have "clear_row color y (x + 1) (buf[y * 80 + x := vga_entry 32 color]) =
        Inr (overlay (y * 80 + (x + 1)) (replicate (80 - (x + 1)) (vga_entry 32 color)) (buf[y * 80 + x := vga_entry 32 color]))"
      using "1.IH" True "1.prems" by (simp add: VGA_WIDTH_def)
    moreover have "overlay (y * 80 + (x + 1)) (replicate (80 - (x + 1)) (vga_entry 32 color)) (buf[y * 80 + x := vga_entry 32 color]) =
        overlay (y * 80 + x) (replicate (80 - x) (vga_entry 32 color)) buf"
      using True "1.prems"(1) by (intro nth_equalityI) (auto simp: nth_overlay nth_list_update)
    ultimately show ?thesis using True "1.prems" by (simp add: clear_row.simps [of color y x] VGA_WIDTH_def)
  qed (use "1.prems" in \<open>simp add: clear_row.simps VGA_WIDTH_def\<close>)
qed

lemma clear_rows_overlay:
  assumes "2000 \<le> length buf" and "y \<le> 25"
  shows "clear_rows color y buf = Inr (overlay (y * 80) (replicate (2000 - y * 80) (vga_entry 32 color)) buf)"
  using assms
proof (induction color y buf rule: clear_rows.induct)
  case (1 color y buf)
  let ?e = "vga_entry 32 color"
  show ?case
  proof (cases "y < 25")
    case True
    let ?b = "overlay (y * 80) (replicate 80 ?e) buf"
    have y80: "y * 80 + 80 \<le> 2000" using True by simp
    have row: "clear_row color y 0 buf = Inr ?b" using clear_row_overlay [of y buf 0 color] y80 "1.prems" by simp
    moreover have "clear_rows color (y + 1) ?b = Inr (overlay ((y + 1) * 80) (replicate (2000 - (y + 1) * 80) ?e) ?b)"
      using "1.IH" [OF _ row] True y80 "1.prems" by (simp add: VGA_HEIGHT_def)
    moreover have "overlay ((y + 1) * 80) (replicate (2000 - (y + 1) * 80) ?e) ?b = overlay (y * 80) (replicate (2000 - y * 80) ?e) buf"
      using y80 "1.prems"(1) by (intro nth_equalityI) (auto simp: nth_overlay)
    ultimately show ?thesis using True by (simp add: clear_rows.simps [of color y] VGA_HEIGHT_def)
  qed (use "1.prems" in \<open>simp add: clear_rows.simps VGA_HEIGHT_def\<close>)
qed

definition blank :: "u16 list \<Rightarrow> u16 list" where
  "blank buf = replicate 2000 (vga_entry 32 7) @ drop 2000 buf"

lemma terminal_clear_blank:
  assumes "length (terminal_buffer v) = 2048"
  shows "terminal_clear v = Inr \<lparr>terminal_row = 0, terminal_column = 0, terminal_color = 7, terminal_buffer = blank (terminal_buffer v)\<rparr>"
  using clear_rows_overlay [of "terminal_buffer v" 0 7] assms
  by (simp add: terminal_clear_def vga_entry_color_def VGA_COLOR_LIGHT_GREY_def VGA_COLOR_BLACK_def overlay_def blank_def)

section \<open>The terminal\<close>

definition line_count :: "u8 list \<Rightarrow> nat" where
  "line_count cs = length (filter (\<lambda>c. c = 10) cs)"

lemma scan_lines_counts:
  assumes "to \<le> length buf" and "i \<le> to" and "length li = 20" and "lines + to < 4294967296 + i"
  shows "\<exists>li'. scan_lines buf i to lines li = Inr (lines + line_count (take (to - i) (drop i buf)), li') \<and> length li' = 20"
  using assms
proof (induction buf i to lines li rule: scan_lines.induct)
  case (1 buf i to lines li)
  show ?case
  proof (cases "i < to")
    case True
    have split: "take (to - i) (drop i buf) = buf ! i # take (to - Suc i) (drop (Suc i) buf)"
      using True "1.prems"(1) by (simp add: Cons_nth_drop_Suc [symmetric] take_Cons' Suc_diff_Suc)
    have l: "w32 (lines + 1) = lines + 1" using "1.prems"(4) True by simp
    show ?thesis
    proof (cases "buf ! i = 10")
      case nl: True
      have "\<exists>li'. scan_lines buf (i + 1) to (w32 (lines + 1)) (li[w32 (lines + 1) mod TERMINAL_HEIGHT := w32 (i + 1)]) =
          Inr (w32 (lines + 1) + line_count (take (to - (i + 1)) (drop (i + 1) buf)), li') \<and> length li' = 20"
        by (rule "1.IH"(1) [OF True rd_in nl wr_in]) (use True l "1.prems" in \<open>simp_all add: TERMINAL_HEIGHT_def\<close>)
      then show ?thesis
        using True "1.prems" nl l by (auto simp: scan_lines.simps [of buf i] split line_count_def TERMINAL_HEIGHT_def)
    next
      case nl: False
      have "\<exists>li'. scan_lines buf (i + 1) to lines li =
          Inr (lines + line_count (take (to - (i + 1)) (drop (i + 1) buf)), li') \<and> length li' = 20"
        by (rule "1.IH"(2) [OF True rd_in nl]) (use True "1.prems" in simp_all)
      then show ?thesis
        using True "1.prems" nl by (auto simp: scan_lines.simps [of buf i] split line_count_def)
    qed
  qed (use "1.prems" in \<open>simp add: scan_lines.simps line_count_def\<close>)
qed

lemma tty_store_overlay:
  assumes "length (tty_buffer tm) = 1024" and "t_index tm + (count - written) < 1024" and "written \<le> count" and "count \<le> length buf"
  shows "tty_store buf count written tm =
    Inr (tm\<lparr>tty_buffer := overlay (t_index tm) (take (count - written) (drop written buf)) (tty_buffer tm),
            t_index := t_index tm + (count - written)\<rparr>)"
  using assms
proof (induction buf count written tm rule: tty_store.induct)
  case (1 buf count written tm)
  show ?case
  proof (cases "written < count")
    case True
    let ?c = "buf ! written" and ?tm = "tm\<lparr>tty_buffer := (tty_buffer tm)[t_index tm := buf ! written], t_index := t_index tm + 1\<rparr>"
    have split: "take (count - written) (drop written buf) = ?c # take (count - Suc written) (drop (Suc written) buf)"
      using True "1.prems"(4) by (simp add: Cons_nth_drop_Suc [symmetric] take_Cons' Suc_diff_Suc)
    have w: "w32 (t_index tm + 1) mod TERMINAL_BUFFER_SIZE = t_index tm + 1"
      using "1.prems"(2) True by (simp add: TERMINAL_BUFFER_SIZE_def)
    have "tty_store buf count (written + 1) ?tm =
        Inr (?tm\<lparr>tty_buffer := overlay (t_index ?tm) (take (count - (written + 1)) (drop (written + 1) buf)) (tty_buffer ?tm),
                t_index := t_index ?tm + (count - (written + 1))\<rparr>)"
      by (rule "1.IH" [OF True rd_in wr_in, unfolded w]) (use True "1.prems" in simp_all)
    moreover have "overlay (t_index tm + 1) (take (count - (written + 1)) (drop (written + 1) buf)) ((tty_buffer tm)[t_index tm := ?c]) =
        overlay (t_index tm) (take (count - written) (drop written buf)) (tty_buffer tm)"
      using True "1.prems" by (intro nth_equalityI) (auto simp: nth_overlay nth_list_update split nth_Cons')
    ultimately show ?thesis using True "1.prems" w by (simp add: tty_store.simps [of buf count written])
  qed (use "1.prems" in \<open>simp add: tty_store.simps\<close>)
qed

lemma render_terminal_draws:
  assumes "length (terminal_buffer v) = 2048" and "length (tty_buffer tm) = 1024"
    and "base_index tm < t_index tm" and "t_index tm \<le> 1024"
    and shown: "shown = take (t_index tm - base_index tm) (drop (base_index tm) (tty_buffer tm))"
    and "line_count shown < 20" and "on_screen shown 0" and "draw 7 shown (0, blank (terminal_buffer v)) = (p, buf)"
  shows "\<exists>v' t'. render_terminal tm (v, t) = Inr (tm, v', t') \<and> screen_ok v' \<and> cursor v' = p \<and> terminal_buffer v' = buf"
proof -
  let ?v = "\<lparr>terminal_row = 0, terminal_column = 0, terminal_color = 7, terminal_buffer = blank (terminal_buffer v)\<rparr>"
  have ok: "screen_ok ?v" "cursor ?v = 0" using assms(1) by (simp_all add: screen_ok_def cursor_def blank_def)
  obtain li where li: "scan_lines (tty_buffer tm) (base_index tm) (t_index tm) 0 (replicate TERMINAL_HEIGHT 0) = Inr (line_count shown, li)"
      "length li = 20"
    using scan_lines_counts [of "t_index tm" "tty_buffer tm" "base_index tm" "replicate TERMINAL_HEIGHT 0" 0] assms(2-5)
    by (auto simp: TERMINAL_HEIGHT_def)
  have ix: "w32 (line_count shown + 1) mod 10 < length li" using li(2) by (simp add: pos_mod_bound less_trans [of _ 10 20])
  obtain v' t' where "kwrite (tty_buffer tm) (base_index tm) (t_index tm - base_index tm) (?v, t) = Inr (v', t')"
      "screen_ok v'" "cursor v' = p" "terminal_buffer v' = buf"
    using kwrite_text [OF ok(1), of "base_index tm" "t_index tm - base_index tm" "tty_buffer tm" p buf t] assms ok(2) by auto
  then show ?thesis
    using terminal_clear_blank [OF assms(1)] li(1) rd_in [OF ix] assms(3,6)
    by (simp add: render_terminal_def TERMINAL_HEIGHT_def)
qed

section \<open>Properties\<close>

text \<open>Printing a text that stays on the screen draws exactly that text: starting at
  the cursor, every character fills the next cell with its code and the current color, a line feed goes
  to the start of the next row, a backspace clears the cell before, and no other cell changes.\<close>

theorem kwrite_draws_text:
  assumes "screen_ok v" and "d + sz \<le> length data" and "on_screen (take sz (drop d data)) (cursor v)"
    and "draw (terminal_color v) (take sz (drop d data)) (cursor v, terminal_buffer v) = (p, buf)"
  shows "\<exists>v' t'. kwrite data d sz (v, t) = Inr (v', t') \<and> screen_ok v' \<and> cursor v' = p \<and> terminal_buffer v' = buf"
  using kwrite_text [OF assms, of t] by auto

theorem kwrite_draws_text_witness:
  "\<exists>v' t'. kwrite [65, 10, 66] 0 3 (\<lparr>terminal_row = 0, terminal_column = 0, terminal_color = 7, terminal_buffer = replicate 2048 0\<rparr>, []) = Inr (v', t') \<and>
     cursor v' = 81 \<and> terminal_buffer v' = (replicate 2048 0)[0 := vga_entry 65 7, 80 := vga_entry 66 7]"
  using kwrite_draws_text [of "\<lparr>terminal_row = 0, terminal_column = 0, terminal_color = 7, terminal_buffer = replicate 2048 0\<rparr>" 0 3 "[65, 10, 66]"
      81 "(replicate 2048 0)[0 := vga_entry 65 7, 80 := vga_entry 66 7]" "[]"]
  by (auto simp: screen_ok_def cursor_def draw_char_def next_position_def)

text \<open>C38: A write to \<open>/dev/tty\<close> is shown. As long as the text since \<open>base_index\<close>, with what is written, does not reach the end of the text buffer, has fewer than 20
  line feeds, and can be printed on the 25 rows without a backspace at the start of a row, the bytes are appended to the buffer, and the screen shows exactly that text drawn from
  the top left of a blank screen: characters in order, line feeds as new rows, backspaces, as the line editor of the shell writes them, taking a character away. (With 20 lines
  or more the terminal drops lines, from a place it looks up wrongly; a backspace at the start of a row leaves the row.)\<close>

theorem tty_write_shows_text:
  assumes "length (terminal_buffer v) = 2048" and "length (tty_buffer tm) = 1024" and "base_index tm \<le> t_index tm"
    and "0 < count" and "count \<le> length buf" and "t_index tm + count < 1024"
    and "shown = take (t_index tm - base_index tm) (drop (base_index tm) (tty_buffer tm)) @ take count buf"
    and "line_count shown < 20" and "on_screen shown 0"
  shows "\<exists>tm' v' t'. tty_write buf count tm (v, t) = Inr (count, tm', v', t') \<and>
    t_index tm' = t_index tm + count \<and> base_index tm' = base_index tm \<and>
    take (t_index tm' - base_index tm') (drop (base_index tm') (tty_buffer tm')) = shown \<and>
    (cursor v', terminal_buffer v') = draw 7 shown (0, blank (terminal_buffer v))"
proof -
  let ?tm = "tm\<lparr>tty_buffer := overlay (t_index tm) (take count buf) (tty_buffer tm), t_index := t_index tm + count\<rparr>"
  have st: "tty_store buf count 0 tm = Inr ?tm" using tty_store_overlay [of tm count 0 buf] assms by simp
  have shown: "shown = take (t_index ?tm - base_index ?tm) (drop (base_index ?tm) (tty_buffer ?tm))"
    using assms(2,3,5-7) by (intro nth_equalityI) (auto simp: nth_overlay nth_append add.commute)
  obtain p cells where d: "draw 7 shown (0, blank (terminal_buffer v)) = (p, cells)" by fastforce
  obtain v' t' where "render_terminal ?tm (v, t) = Inr (?tm, v', t')" "cursor v' = p" "terminal_buffer v' = cells"
    using render_terminal_draws [OF assms(1) _ _ _ shown assms(8,9) d, of t] assms(2-6) by auto
  then show ?thesis using st shown d by (simp add: tty_write_def)
qed

theorem tty_write_shows_text_witness:
  "\<exists>tm' v' t'. tty_write [72, 120, 8, 105] 4 zero_terminal
      (\<lparr>terminal_row = 3, terminal_column = 4, terminal_color = 0, terminal_buffer = replicate 2048 0\<rparr>, []) = Inr (4, tm', v', t') \<and>
     cursor v' = 2 \<and> terminal_buffer v' = (blank (replicate 2048 0))[0 := vga_entry 72 7, 1 := vga_entry 105 7]"
proof -
  let ?v = "\<lparr>terminal_row = 3, terminal_column = 4, terminal_color = 0, terminal_buffer = replicate 2048 0\<rparr>"
  have "on_screen [72, 120, 8, 105] 0" by (simp add: next_position_def)
  moreover have "draw 7 [72, 120, 8, 105] (0, b) = (2, b[0 := vga_entry 72 7, 1 := vga_entry 105 7])" for b by (simp add: draw_char_def)
  ultimately show ?thesis using tty_write_shows_text [of ?v zero_terminal 4 "[72, 120, 8, 105]" "[72, 120, 8, 105]" "[]"]
    by (auto simp: zero_terminal_def TERMINAL_BUFFER_SIZE_def line_count_def)
qed

text \<open>Line feeds never wrap to the top: once more than 25 rows have been fed, the next character is
  written outside the page of the screen.\<close>

theorem newlines_leave_the_screen:
  assumes "screen_ok v" and "26 \<le> terminal_row v + n" and "n < 50000000" and "c \<noteq> 10" and "c \<noteq> 8"
  shows "kwrite (replicate n 10 @ [c]) 0 (n + 1) (v, t) = Inl Out_of_bounds"
proof -
  have "kwrite_loop (replicate n 10 @ [c]) 0 (n + 1) i (w, t) = Inl Out_of_bounds"
    if "i \<le> n" "26 \<le> terminal_row w + (n - i)" "terminal_row w + (n - i) < 53687000"
      "terminal_column w < 80" "length (terminal_buffer w) = 2048" for i w
    using that
  proof (induction "n - i" arbitrary: i w)
    case 0
    then have "i = n" by simp
    then show ?case
      using 0 assms(4,5)
      by (simp add: kwrite_loop.simps [of _ 0 "Suc n" n] nth_append kputc_def terminal_putentryat_def VGA_WIDTH_def)
  next
    case (Suc m)
    let ?w = "w\<lparr>terminal_column := 0, terminal_row := terminal_row w + 1\<rparr>"
    have "kwrite_loop (replicate n 10 @ [c]) 0 (n + 1) (i + 1) (?w, t) = Inl Out_of_bounds"
      using Suc.hyps(2) Suc.prems by (intro Suc.hyps(1)) auto
    moreover have "i < n" using Suc.hyps(2) by linarith
    ultimately show ?case
      using Suc.prems
      by (simp add: kwrite_loop.simps [of _ 0 "Suc n" i] nth_append kputc_def)
  qed
  from this [of 0 v] show ?thesis using assms by (simp add: kwrite_def screen_ok_def)
qed

theorem newlines_leave_the_screen_witness:
  "kwrite (replicate 26 10 @ [65]) 0 (26 + 1)
     (\<lparr>terminal_row = 0, terminal_column = 0, terminal_color = 7, terminal_buffer = replicate 2048 0\<rparr>, []) = Inl Out_of_bounds"
  by (rule newlines_leave_the_screen) (simp_all add: screen_ok_def)

end
