(* ===== verification/Format.thy ===== *)
theory Format
  imports Console
begin

text \<open>
  Formatted output (\<open>kputint\<close>, \<open>kprintf\<close> and \<open>fmt\<close> of \<open>src/src/vga.c\<close>).

  Two things come from the compiler and not from the program, and are parameters (the record \<open>environ\<close>): how many
  bytes it sets aside for an array of \<open>n\<close> bytes whose length is computed at run time (\<open>vla n\<close>, at least \<open>n\<close>), and
  what an array holds that was never written (\<open>junk n\<close>, a list of \<open>n\<close> bytes). The variable arguments are a list;
  taking an argument that is not there, or of the other kind, reads outside the arguments.
\<close>

section \<open>Definitions\<close>

record environ =
  vla :: "nat \<Rightarrow> nat"
  junk :: "nat \<Rightarrow> u8 list"

datatype va_arg = Va_string "u8 list" nat | Va_word u32

definition kputint :: "environ \<Rightarrow> int \<Rightarrow> vga \<times> trace \<Rightarrow> (vga \<times> trace) res" where
  "kputint env v s =
     (let len = intlen v mod 65536; len' = (if 0 < len then len else 1) in
      obind (int_to_string v (junk env (vla env len'))) (\<lambda>buffer. kwrite buffer 0 len' s))"

definition kprintf_conv :: "environ \<Rightarrow> u8 \<Rightarrow> u8 \<Rightarrow> va_arg list \<Rightarrow> vga \<times> trace \<Rightarrow> (va_arg list \<times> vga \<times> trace) res" where
  "kprintf_conv env c nxt args s =
     (if nxt = 115 then
        case args of Va_string m p # rest \<Rightarrow> obind (kprint_loop m p s) (\<lambda>s'. Inr (rest, s')) | _ \<Rightarrow> Inl Out_of_bounds
      else if nxt = 99 then
        case args of Va_word w # rest \<Rightarrow> obind (kputc (ucast w) s) (\<lambda>s'. Inr (rest, s')) | _ \<Rightarrow> Inl Out_of_bounds
      else if nxt = 100 \<or> nxt = 117 then
        case args of Va_word w # rest \<Rightarrow> obind (kputint env (sint w) s) (\<lambda>s'. Inr (rest, s')) | _ \<Rightarrow> Inl Out_of_bounds
      else if nxt = 120 then
        case args of
          Va_word w # rest \<Rightarrow> obind (buff_to_hexstring [w] (junk env 9) 0 4) (\<lambda>hex_num.
            obind (kwrite hex_num 0 8 s) (\<lambda>s'. Inr (rest, s')))
        | _ \<Rightarrow> Inl Out_of_bounds
      else if nxt = 98 then
        case args of
          Va_word w # rest \<Rightarrow> obind (buff_to_binstring [w] (junk env 32) 0 4) (\<lambda>bin_string.
            obind (kwrite bin_string 0 32 s) (\<lambda>s'. Inr (rest, s')))
        | _ \<Rightarrow> Inl Out_of_bounds
      else obind (kputc c s) (\<lambda>s1. obind (kputc nxt s1) (\<lambda>s2. Inr (args, s2))))"

function kprintf_loop :: "environ \<Rightarrow> u8 list \<Rightarrow> nat \<Rightarrow> va_arg list \<Rightarrow> vga \<times> trace \<Rightarrow> (vga \<times> trace) res" where
  "kprintf_loop env fm i args s =
     obind (rd fm i) (\<lambda>c.
       if c = 0 then Inr s
       else if c = 37 then
         obind (rd fm (i + 1)) (\<lambda>nxt.
           if nxt = 0 then Inr s
           else obind (kprintf_conv env c nxt args s) (\<lambda>(args', s'). kprintf_loop env fm (i + 2) args' s'))
       else obind (kputc c s) (kprintf_loop env fm (i + 1) args))"
  by pat_completeness auto
termination
  by (relation "measure (\<lambda>(env, fm, i, args, s). length fm - i)") (auto simp: rd_def split: if_splits)

declare kprintf_loop.simps [simp del]

definition kprintf :: "environ \<Rightarrow> u8 list \<Rightarrow> va_arg list \<Rightarrow> vga \<times> trace \<Rightarrow> (vga \<times> trace) res" where
  "kprintf env fm args s = kprintf_loop env fm 0 args s"

text \<open>Copying a null-terminated string without its terminator, as the cases of \<open>fmt\<close> do.\<close>

function fmt_copy :: "u8 list \<Rightarrow> nat \<Rightarrow> u8 list \<Rightarrow> nat \<Rightarrow> (u8 list \<times> nat) res" where
  "fmt_copy src j buffer buf_index =
     obind (rd src j) (\<lambda>c.
       if c \<noteq> 0 then obind (wr buffer buf_index c) (\<lambda>b. fmt_copy src (j + 1) b (buf_index + 1))
       else Inr (buffer, buf_index))"
  by pat_completeness auto
termination
  by (relation "measure (\<lambda>(src, j, b, n). length src - j)") (auto simp: rd_def split: if_splits)

declare fmt_copy.simps [simp del]

definition fmt_conv :: "environ \<Rightarrow> u8 \<Rightarrow> u8 \<Rightarrow> va_arg list \<Rightarrow> u8 list \<Rightarrow> nat \<Rightarrow> (va_arg list \<times> u8 list \<times> nat) res" where
  "fmt_conv env c nxt args buffer n =
     (if nxt = 115 then
        case args of Va_string m p # rest \<Rightarrow> obind (fmt_copy m p buffer n) (\<lambda>(b, n'). Inr (rest, b, n')) | _ \<Rightarrow> Inl Out_of_bounds
      else if nxt = 99 then
        case args of Va_word w # rest \<Rightarrow> obind (wr buffer n (ucast w)) (\<lambda>b. Inr (rest, b, n + 1)) | _ \<Rightarrow> Inl Out_of_bounds
      else if nxt = 100 \<or> nxt = 117 then
        case args of
          Va_word w # rest \<Rightarrow> obind (int_to_string (sint w) (junk env 12)) (\<lambda>temp.
            obind (fmt_copy temp 0 buffer n) (\<lambda>(b, n'). Inr (rest, b, n')))
        | _ \<Rightarrow> Inl Out_of_bounds
      else if nxt = 120 then
        case args of
          Va_word w # rest \<Rightarrow> obind (buff_to_hexstring [w] (junk env 9) 0 4) (\<lambda>hex_num.
            obind (fmt_copy hex_num 0 buffer n) (\<lambda>(b, n'). Inr (rest, b, n')))
        | _ \<Rightarrow> Inl Out_of_bounds
      else if nxt = 98 then
        case args of
          Va_word w # rest \<Rightarrow> obind (buff_to_binstring [w] (junk env 33) 0 4) (\<lambda>bin_string.
            obind (fmt_copy bin_string 0 buffer n) (\<lambda>(b, n'). Inr (rest, b, n')))
        | _ \<Rightarrow> Inl Out_of_bounds
      else obind (wr buffer n c) (\<lambda>b1. obind (wr b1 (n + 1) nxt) (\<lambda>b2. Inr (args, b2, n + 2))))"

function fmt_loop :: "environ \<Rightarrow> u8 list \<Rightarrow> nat \<Rightarrow> va_arg list \<Rightarrow> u8 list \<Rightarrow> nat \<Rightarrow> (u8 list \<times> nat) res" where
  "fmt_loop env fm i args buffer n =
     obind (rd fm i) (\<lambda>c.
       if c = 0 then Inr (buffer, n)
       else if c = 37 then
         obind (rd fm (i + 1)) (\<lambda>nxt.
           if nxt = 0 then Inr (buffer, n)
           else obind (fmt_conv env c nxt args buffer n) (\<lambda>(args', b, n'). fmt_loop env fm (i + 2) args' b n'))
       else obind (wr buffer n c) (\<lambda>b. fmt_loop env fm (i + 1) args b (n + 1)))"
  by pat_completeness auto
termination
  by (relation "measure (\<lambda>(env, fm, i, args, b, n). length fm - i)") (auto simp: rd_def split: if_splits)

declare fmt_loop.simps [simp del]

definition fmt :: "environ \<Rightarrow> u8 list \<Rightarrow> u8 list \<Rightarrow> va_arg list \<Rightarrow> u8 list res" where
  "fmt env buffer fm args = obind (fmt_loop env fm 0 args buffer 0) (\<lambda>(b, n). wr b n 0)"

section \<open>Plain text\<close>

lemma kprintf_loop_plain:
  assumes c: "cstr_at fm 0 s" and "37 \<notin> set s" and "i \<le> length s"
  shows "kprintf_loop env fm i args st = kprint_loop fm i st"
  using assms(3)
proof (induction "length s - i" arbitrary: i st)
  case 0
  then show ?case using cstr_at_nth(1,3) [OF c] by (simp add: kprintf_loop.simps kprint_loop.simps)
next
  case (Suc n)
  then have i: "i < length s" by linarith
  have nth: "fm ! i = s ! i" "s ! i \<noteq> 0" "i < length fm" "s ! i \<noteq> 37"
    using cstr_at_nth(2,4) [OF c i] cstr_at_nth(1) [OF c] i assms(2) by (auto simp: in_set_conv_nth)
  have "kprintf_loop env fm (Suc i) args st' = kprint_loop fm (Suc i) st'" for st'
    using Suc.hyps(2) i by (intro Suc.hyps(1)) linarith+
  then show ?case
    using nth by (cases "kputc (s ! i) st") (simp_all add: kprintf_loop.simps [of env fm i] kprint_loop.simps [of fm i])
qed

lemma kprintf_plain: "cstr_at fm 0 s \<Longrightarrow> 37 \<notin> set s \<Longrightarrow> kprintf env fm args st = kprint fm st"
  by (simp add: kprintf_def kprint_def kprintf_loop_plain)

section \<open>Conversions\<close>

lemma fmt_copy_from:
  assumes c: "cstr_at src j t" and "n + length t \<le> length buffer" and "i \<le> length t"
  shows "fmt_copy src (j + i) (overlay n (take i t) buffer) (n + i) = Inr (overlay n t buffer, n + length t)"
  using assms(3)
proof (induction "length t - i" arbitrary: i)
  case 0
  then show ?case using cstr_at_nth(1,3) [OF c] by (simp add: fmt_copy.simps)
next
  case (Suc m)
  then have i: "i < length t" by linarith
  have nth: "src ! (j + i) = t ! i" "t ! i \<noteq> 0" "j + i < length src"
    using cstr_at_nth(2,4) [OF c i] cstr_at_nth(1) [OF c] i by simp_all
  have "(overlay n (take i t) buffer)[n + i := t ! i] = overlay n (take (Suc i) t) buffer"
    using i assms(2) overlay_snoc [of n "take i t" buffer "t ! i"] by (simp add: take_Suc_conv_app_nth)
  moreover have "fmt_copy src (j + Suc i) (overlay n (take (Suc i) t) buffer) (n + Suc i) = Inr (overlay n t buffer, n + length t)"
    using Suc.hyps(2) i by (intro Suc.hyps(1)) linarith+
  moreover have "n + i < length (overlay n (take i t) buffer)" using i assms(2) by simp
  ultimately show ?case using nth by (simp add: fmt_copy.simps [of src "j + i"])
qed

lemma fmt_copy_cstr:
  "cstr_at src j t \<Longrightarrow> n + length t \<le> length buffer \<Longrightarrow> fmt_copy src j buffer n = Inr (overlay n t buffer, n + length t)"
  using fmt_copy_from [of src j t n buffer 0] by simp

definition decimal :: "int \<Rightarrow> u8 list" where
  "decimal v = map (\<lambda>d. word_of_int (48 + int d)) (digits_of (nat v))"

lemma digits_of_less: "d \<in> set (digits_of n) \<Longrightarrow> d < 10"
proof (induction n rule: digits_of.induct)
  case (1 n)
  then show ?case by (cases "n < 10") (simp_all add: digits_of.simps [of n], auto)
qed

lemma decimal_nonzero: "0 \<notin> set (decimal v)"
proof
  assume "0 \<in> set (decimal v)"
  then obtain d where d: "d \<in> set (digits_of (nat v))" "(word_of_int (48 + int d) :: u8) = 0" by (auto simp: decimal_def)
  have "unat (of_nat (48 + d) :: u8) = 0" using d(2) by simp
  then have "(48 + d) mod 256 = 0" unfolding unat_of_nat by (simp add: take_bit_eq_mod)
  then show False using digits_of_less [OF d(1)] by simp
qed

section \<open>Properties\<close>

text \<open>\<open>fmt\<close> with \<open>%d\<close> turns a non-negative number into its decimal digits: the buffer then holds exactly
  that string, null-terminated, whatever the uninitialised temporary held.\<close>

theorem fmt_decimal:
  assumes "0 \<le> sint w" and "length (junk env 12) = 12" and "length (decimal (sint w)) < length buffer"
  shows "\<exists>b. fmt env buffer [37, 100, 0] [Va_word w] = Inr b \<and> length b = length buffer \<and> cstr_at b 0 (decimal (sint w)) \<and>
    digits_value (digits_of (nat (sint w))) = nat (sint w)"
proof -
  let ?v = "sint w" and ?t = "decimal (sint w)"
  have small: "?v < 2 ^ 31" using sint_less [of w] by simp
  have "nat ?v < 10 ^ 10" using small by simp
  then have "length (digits_of (nat ?v)) \<le> 10" using length_digits_of [of "nat ?v" 10] by simp
  then have len: "intlen ?v < length (junk env 12)" "length ?t \<le> 10" using assms(1,2) by (simp_all add: intlen_digits decimal_def)
  have its: "int_to_string ?v (junk env 12) = Inr (overlay 0 (?t @ [0]) (junk env 12))"
    using int_to_string_nonneg [OF assms(1) small len(1)] by (simp add: decimal_def)
  have "cstr_at (overlay 0 (?t @ [0]) (junk env 12)) 0 ?t"
    using cstr_at_overlay [OF decimal_nonzero, of 0 ?v "junk env 12"] len(2) assms(2) by simp
  then have cp: "fmt_copy (overlay 0 (?t @ [0]) (junk env 12)) 0 buffer 0 = Inr (overlay 0 ?t buffer, length ?t)"
    using fmt_copy_cstr [of _ 0 ?t 0 buffer] assms(3) by simp
  have "fmt env buffer [37, 100, 0] [Va_word w] = Inr ((overlay 0 ?t buffer)[length ?t := 0])"
    using its cp assms(3)
    by (simp add: fmt_def fmt_loop.simps [of env "[37, 100, 0]" 0] fmt_loop.simps [of env "[37, 100, 0]" "Suc (Suc 0)"]
        fmt_conv_def wr_def)
  moreover have "(overlay 0 ?t buffer)[length ?t := 0] = overlay 0 (?t @ [0]) buffer"
    using overlay_snoc [of 0 ?t buffer 0] assms(3) by simp
  moreover have "cstr_at (overlay 0 (?t @ [0]) buffer) 0 ?t"
    using cstr_at_overlay [OF decimal_nonzero, of 0 ?v buffer] assms(3) by simp
  ultimately show ?thesis using assms(3) digits_of_value by simp
qed

theorem fmt_decimal_witness:
  "\<exists>b. fmt \<lparr>vla = id, junk = \<lambda>n. replicate n 0xFF\<rparr> (replicate 8 0) [37, 100, 0] [Va_word 407] = Inr b \<and>
     cstr_at b 0 [52, 48, 55]"
proof -
  have s: "sint (407 :: u32) = 407" by simp
  have d: "decimal 407 = [52, 48, 55]" by (simp add: decimal_def digits_of.simps)
  show ?thesis
    using fmt_decimal [of 407 "\<lparr>vla = id, junk = \<lambda>n. replicate n 0xFF\<rparr>" "replicate 8 0"] unfolding s d by auto
qed

text \<open>\<open>kputint\<close> sizes its buffer without the terminator that \<open>int_to_string\<close> writes: unless the compiler
  happens to set aside more bytes than asked for, printing any number writes past the array.\<close>

theorem kputint_overruns_buffer:
  assumes "\<And>n. vla env n = n" and "\<And>n. length (junk env n) = n" and "- (2 ^ 31) \<le> v" and "v < 2 ^ 31"
  shows "kputint env v s = Inl Out_of_bounds"
proof -
  have "nat \<bar>v\<bar> < 10 ^ 10" using assms(3,4) by simp
  then have "length (digits_of (nat \<bar>v\<bar>)) \<le> 10" using length_digits_of [of "nat \<bar>v\<bar>" 10] by simp
  moreover have "0 < length (digits_of (nat \<bar>v\<bar>))" by (subst digits_of.simps) simp
  ultimately have l: "intlen v < 65536" "0 < intlen v" 
    using intlen_digits [of v] by (cases "v < 0"; simp)+
  then show ?thesis using assms(1,2) by (simp add: kputint_def Let_def int_to_string_def)
qed

theorem kputint_overruns_buffer_witness:
  "kputint \<lparr>vla = \<lambda>n. n, junk = \<lambda>n. replicate n 0\<rparr> 7
     (\<lparr>terminal_row = 0, terminal_column = 0, terminal_color = 7, terminal_buffer = []\<rparr>, []) = Inl Out_of_bounds"
  by (rule kputint_overruns_buffer) simp_all

end
