(* ===== verification/Fs_Base.thy ===== *)
theory Fs_Base
  imports Heap Input Console
begin

text \<open>
  The file system, part one: its data (\<open>src/include/fs.h\<close>), the directories inside a data block, and the
  path handling of \<open>src/src/fs.c\<close> (\<open>seek_directory\<close>, \<open>search_dir\<close>, \<open>parse_path\<close>, \<open>Path\<close>,
  \<open>link_file_in_dir\<close>, \<open>unlink_file_in_dir\<close>).

  The disk is a function from block numbers to blocks of 4096 bytes; the driver addresses a sector with 28 bits,
  so block numbers count modulo \<open>2^25\<close>. A directory is one block: an array of entries of 36 bytes, the name in
  the first 32 and the inode number in the last four, least significant byte first; how many there are is the
  size in the inode. Names are byte arrays that hold a null-terminated string. A string argument is a memory (a list
  of bytes) and an offset into it. \<open>PUSH_ERROR\<close> stores its message after the file name and
  line number the preprocessor puts before it (the \<open>Makefile\<close> compiles \<open>src/fs.c\<close> under that name).
\<close>

section \<open>Data\<close>

definition BLOCK_BYTES :: nat where "BLOCK_BYTES = 4096"

record FileSystemSuper =
  format_indicator :: "u8 list"
  disk_size :: nat
  sector_count :: nat
  block_count :: nat
  i_bmap_start :: nat
  d_bmap_start :: nat
  inode_table_start :: nat
  used_inodes :: nat
  data_start :: nat

record FileSystemInode =
  i_name :: "u8 list"
  file_type :: u8
  data_block_start :: nat
  i_size :: nat
  parent_inode_num :: nat

record FileDescriptorEntry =
  fd_name :: "u8 list"
  inode_num :: nat
  read_pos :: nat
  write_pos :: nat
  fd_index :: nat

text \<open>The globals of \<open>fs.c\<close>, with the devices and the heap its operations use. \<open>table_tail\<close> is what the
  linker placed behind \<open>global_inode_table\<close>: the table is transferred in whole blocks, 32 bytes more than it has.\<close>

record kernel =
  global_super :: FileSystemSuper
  global_ibmap :: "u32 list"
  global_dbmap :: "u32 list"
  global_inode_table :: "FileSystemInode list"
  table_tail :: "u8 list"
  fd_bitmap :: "u32 list"
  fd_entries :: "FileDescriptorEntry list"
  error_msg :: string
  sys_fds :: "int list"
  disk :: "nat \<Rightarrow> u8 list"
  heap :: AllocArray
  hmem :: "u8 list"
  kbd :: RingBuffer
  tty :: Terminal
  screen :: "vga \<times> trace"

definition PUSH_ERROR :: "string \<Rightarrow> kernel \<Rightarrow> kernel" where
  "PUSH_ERROR msg k = k\<lparr>error_msg := msg\<rparr>"

definition s32 :: "nat \<Rightarrow> int" where
  "s32 n = (if n < 2147483648 then int n else int n - 4294967296)"

definition FILE_TYPE_DIR :: u8 where "FILE_TYPE_DIR = 0"
definition FILE_TYPE_NORMAL :: u8 where "FILE_TYPE_NORMAL = 1"
definition FILE_TYPE_SPECIAL :: u8 where "FILE_TYPE_SPECIAL = 2"

section \<open>Blocks\<close>

definition disk_block :: "nat \<Rightarrow> nat" where
  "disk_block b = b mod 33554432"

definition read_block :: "kernel \<Rightarrow> nat \<Rightarrow> u8 list" where
  "read_block k b = disk k (disk_block b)"

definition write_block :: "nat \<Rightarrow> u8 list \<Rightarrow> kernel \<Rightarrow> kernel" where
  "write_block b bytes k = k\<lparr>disk := (disk k)(disk_block b := bytes)\<rparr>"

definition le32 :: "nat \<Rightarrow> u8 list" where
  "le32 n = [of_nat n, of_nat (n div 256), of_nat (n div 65536), of_nat (n div 16777216)]"

definition rd_le32 :: "u8 list \<Rightarrow> nat \<Rightarrow> nat res" where
  "rd_le32 buf p =
     obind (rd buf p) (\<lambda>b0. obind (rd buf (p + 1)) (\<lambda>b1. obind (rd buf (p + 2)) (\<lambda>b2. obind (rd buf (p + 3)) (\<lambda>b3.
       Inr (unat b0 + 256 * unat b1 + 65536 * unat b2 + 16777216 * unat b3)))))"

definition wr_bytes :: "u8 list \<Rightarrow> nat \<Rightarrow> u8 list \<Rightarrow> u8 list res" where
  "wr_bytes buf p bs = (if p + length bs \<le> length buf then Inr (overlay p bs buf) else Inl Out_of_bounds)"

section \<open>Directories\<close>

definition DIR_ENTRY_BYTES :: nat where "DIR_ENTRY_BYTES = 36"

definition files_contained :: "FileSystemInode \<Rightarrow> nat" where
  "files_contained ino = i_size ino div DIR_ENTRY_BYTES"

text \<open>The search of \<open>search_dir\<close> and \<open>seek_directory\<close>: the first entry with the name.\<close>

function find_name :: "u8 list \<Rightarrow> u8 list \<Rightarrow> nat \<Rightarrow> nat \<Rightarrow> nat \<Rightarrow> nat option res" where
  "find_name blk nm off n file =
     (if file < n then
        obind (strcmp blk (DIR_ENTRY_BYTES * file) nm off) (\<lambda>r.
          if r = 0 then obind (rd_le32 blk (DIR_ENTRY_BYTES * file + 32)) (\<lambda>ino. Inr (Some ino))
          else find_name blk nm off n (file + 1))
      else Inr None)"
  by pat_completeness auto
termination
  by (relation "measure (\<lambda>(blk, nm, off, n, file). n - file)") auto

declare find_name.simps [simp del]

definition search_dir :: "kernel \<Rightarrow> nat \<Rightarrow> u8 list \<Rightarrow> nat \<Rightarrow> (int \<times> kernel) res" where
  "search_dir k dir_inode_num nm off =
     obind (rd (global_inode_table k) dir_inode_num) (\<lambda>dir_inode.
     obind (assert_that (file_type dir_inode = 0) ''must be a directory'') (\<lambda>_.
     obind (find_name (read_block k (data_block_start dir_inode)) nm off (files_contained dir_inode) 0) (\<lambda>r.
       case r of
         Some ino \<Rightarrow> Inr (s32 ino, k)
       | None \<Rightarrow> Inr (- 1, PUSH_ERROR ''src/fs.c:183: error:couldn't trace path'' k))))"

text \<open>One pass of the loop of \<open>seek_directory\<close> at the end of a component.\<close>

definition seek_component :: "kernel \<Rightarrow> nat \<Rightarrow> u8 list \<Rightarrow> int res" where
  "seek_component k current_inode_num next_dir =
     obind (rd (global_inode_table k) current_inode_num) (\<lambda>dir_inode.
     obind (find_name (read_block k (data_block_start dir_inode)) next_dir 0 (files_contained dir_inode) 0) (\<lambda>r.
       Inr (case r of Some ino \<Rightarrow> s32 ino | None \<Rightarrow> - 1)))"

function seek_loop :: "kernel \<Rightarrow> u8 list \<Rightarrow> nat \<Rightarrow> nat \<Rightarrow> u8 list \<Rightarrow> nat \<Rightarrow> nat \<Rightarrow> nat option res" where
  "seek_loop k mem off cc next_dir char_index current_inode_num =
     obind (rd mem (off + cc)) (\<lambda>c.
       if c = 0 then Inr (Some current_inode_num)
       else
         obind (if c = 47 then Inr True else obind (rd mem (off + cc + 1)) (\<lambda>n. Inr (n = 0))) (\<lambda>component_ends.
           if component_ends then
             obind (if c \<noteq> 47 then obind (wr next_dir char_index c) (\<lambda>nd. Inr (nd, char_index + 1))
                    else Inr (next_dir, char_index)) (\<lambda>(nd, ci).
             obind (wr nd ci 0) (\<lambda>nd'.
             obind (seek_component k current_inode_num nd') (\<lambda>file_inode_number.
               if file_inode_number = - 1 then Inr None
               else seek_loop k mem off (cc + 1) nd' 0 (nat (file_inode_number mod 4294967296)))))
           else obind (wr next_dir char_index c) (\<lambda>nd.
                  seek_loop k mem off (cc + 1) nd (char_index + 1) current_inode_num)))"
  by pat_completeness auto
termination
  by (relation "measure (\<lambda>(k, mem, off, cc, nd, ci, cur). length mem - (off + cc))")
     (auto simp: rd_def split: if_splits)

declare seek_loop.simps [simp del]

definition seek_directory :: "kernel \<Rightarrow> u8 list \<Rightarrow> nat \<Rightarrow> (int \<times> kernel) res" where
  "seek_directory k mem off =
     obind (rd mem off) (\<lambda>c0.
       if c0 \<noteq> 47 then Inr (- 1, PUSH_ERROR ''src/fs.c:92: error:relative indexing not implemented'' k)
       else
         obind (seek_loop k mem off 1 (replicate 32 0) 0 0) (\<lambda>r.
           case r of
             None \<Rightarrow> Inr (- 1, PUSH_ERROR ''src/fs.c:122: error:couldn't trace path'' k)
           | Some current_inode_num \<Rightarrow>
               obind (rd (global_inode_table k) current_inode_num) (\<lambda>ino.
                 if file_type ino \<noteq> 0 then Inr (- 1, PUSH_ERROR ''src/fs.c:134: error:file is not a directory'' k)
                 else Inr (s32 current_inode_num, k))))"

section \<open>Paths\<close>

function last_slash_loop :: "u8 list \<Rightarrow> nat \<Rightarrow> nat \<Rightarrow> nat \<Rightarrow> nat res" where
  "last_slash_loop mem off i last_slash =
     obind (rd mem (off + i)) (\<lambda>c.
       if c \<noteq> 0 then last_slash_loop mem off (i + 1) (if c = 47 then i else last_slash) else Inr last_slash)"
  by pat_completeness auto
termination
  by (relation "measure (\<lambda>(mem, off, i, l). length mem - (off + i))") (auto simp: rd_def split: if_splits)

declare last_slash_loop.simps [simp del]

definition parse_path :: "u8 list \<Rightarrow> nat \<Rightarrow> u8 list \<Rightarrow> u8 list \<Rightarrow> (u8 list \<times> u8 list) res" where
  "parse_path path off dir_path filename =
     obind (strcpy dir_path 0 path off) (\<lambda>dp.
     obind (last_slash_loop path off 0 0) (\<lambda>last_slash.
     obind (strcpy filename 0 dp (last_slash + 1)) (\<lambda>fn.
     obind (wr dp (last_slash + 1) 0) (\<lambda>dp'. Inr (dp', fn)))))"

record ParsedPath =
  dir_path :: nat
  filename :: nat

text \<open>\<open>Path\<close> keeps both parts on the heap; the offsets into its memory are those of the two addresses.\<close>

definition Path :: "kernel \<Rightarrow> u8 list \<Rightarrow> nat \<Rightarrow> (ParsedPath \<times> kernel) res" where
  "Path k path off =
     obind (strlen path off) (\<lambda>len.
     let path_length = w32 (len + 1) in
     obind (kmalloc (heap k) path_length) (\<lambda>(dp, h1).
     obind (kmalloc h1 path_length) (\<lambda>(fn, h2).
     obind (heap_off h2 dp) (\<lambda>d.
     obind (heap_off h2 fn) (\<lambda>f.
     obind (strcpy (hmem k) d path off) (\<lambda>m1.
     obind (last_slash_loop path off 0 0) (\<lambda>last_slash.
     obind (strcpy m1 f m1 (d + last_slash + 1)) (\<lambda>m2.
     obind (wr m2 (d + last_slash + 1) 0) (\<lambda>m3.
       Inr (\<lparr>dir_path = dp, filename = fn\<rparr>, k\<lparr>heap := h2, hmem := m3\<rparr>))))))))))"

section \<open>Linking and unlinking\<close>

definition dir_append :: "u8 list \<Rightarrow> nat \<Rightarrow> nat \<Rightarrow> u8 list \<Rightarrow> u8 list res" where
  "dir_append blk n file_inode_num nm =
     obind (wr_bytes blk (DIR_ENTRY_BYTES * n + 32) (le32 file_inode_num)) (\<lambda>blk1.
       strcpy blk1 (DIR_ENTRY_BYTES * n) nm 0)"

definition link_file_in_dir :: "kernel \<Rightarrow> nat \<Rightarrow> nat \<Rightarrow> kernel res" where
  "link_file_in_dir k dir_inode_num file_inode_num =
     obind (rd (global_inode_table k) dir_inode_num) (\<lambda>dir_inode.
     obind (rd (global_inode_table k) file_inode_num) (\<lambda>file_inode.
     obind (dir_append (read_block k (data_block_start dir_inode)) (files_contained dir_inode)
              file_inode_num (i_name file_inode)) (\<lambda>blk.
       Inr (write_block (data_block_start dir_inode) blk
              (k\<lparr>global_inode_table := (global_inode_table k)
                    [dir_inode_num := dir_inode\<lparr>i_size := w32 (i_size dir_inode + DIR_ENTRY_BYTES)\<rparr>]\<rparr>)))))"

text \<open>The two loops of \<open>unlink_file_in_dir\<close>: find the entry, then move the later ones down by one.\<close>

function shift_entries :: "u8 list \<Rightarrow> nat \<Rightarrow> nat \<Rightarrow> u8 list res" where
  "shift_entries blk n entry =
     (if entry < n then
        obind (memcpy blk (DIR_ENTRY_BYTES * entry) blk (DIR_ENTRY_BYTES * (entry + 1)) DIR_ENTRY_BYTES) (\<lambda>blk'.
          shift_entries blk' n (entry + 1))
      else Inr blk)"
  by pat_completeness auto
termination
  by (relation "measure (\<lambda>(blk, n, entry). n - entry)") auto

function unlink_loop :: "u8 list \<Rightarrow> nat \<Rightarrow> nat \<Rightarrow> nat \<Rightarrow> (bool \<times> u8 list) res" where
  "unlink_loop blk n file_inode_num entry =
     (if entry < n then
        obind (rd_le32 blk (DIR_ENTRY_BYTES * entry + 32)) (\<lambda>ino.
          if ino = file_inode_num then obind (shift_entries blk n entry) (\<lambda>blk'. Inr (True, blk'))
          else unlink_loop blk n file_inode_num (entry + 1))
      else Inr (False, blk))"
  by pat_completeness auto
termination
  by (relation "measure (\<lambda>(blk, n, f, entry). n - entry)") auto

declare shift_entries.simps [simp del] unlink_loop.simps [simp del]

definition unlink_file_in_dir :: "kernel \<Rightarrow> nat \<Rightarrow> nat \<Rightarrow> kernel res" where
  "unlink_file_in_dir k dir_inode_num file_inode_num =
     obind (rd (global_inode_table k) dir_inode_num) (\<lambda>dir_inode.
     obind (unlink_loop (read_block k (data_block_start dir_inode)) (files_contained dir_inode) file_inode_num 0)
       (\<lambda>(found, blk).
       let k1 = (if found
                 then k\<lparr>global_inode_table := (global_inode_table k)
                         [dir_inode_num := dir_inode\<lparr>i_size := w32 (i_size dir_inode + 4294967260)\<rparr>]\<rparr>
                 else k)
       in Inr (write_block (data_block_start dir_inode) blk k1)))"

section \<open>What a directory block means\<close>

text \<open>A directory is the list of its entries, a name and an inode number each. \<open>dir_rep blk ds\<close> says that the
  block holds the entries \<open>ds\<close>; \<open>remove_ino\<close> removes the first entry with an inode number.\<close>

type_synonym dir_entries = "(u8 list \<times> nat) list"

definition entry_rep :: "u8 list \<Rightarrow> u8 list \<times> nat \<Rightarrow> bool" where
  "entry_rep bs e \<longleftrightarrow> length bs = 36 \<and> cstr_at (take 32 bs) 0 (fst e) \<and> snd e < 4294967296 \<and> drop 32 bs = le32 (snd e)"

definition dir_rep :: "u8 list \<Rightarrow> dir_entries \<Rightarrow> bool" where
  "dir_rep blk ds \<longleftrightarrow> length blk = 4096 \<and> length ds \<le> 113 \<and>
     (\<forall>k < length ds. entry_rep (take 36 (drop (36 * k) blk)) (ds ! k))"

fun remove_ino :: "nat \<Rightarrow> dir_entries \<Rightarrow> dir_entries" where
  "remove_ino n [] = []"
| "remove_ino n (e # es) = (if snd e = n then es else e # remove_ino n es)"

lemma length_le32 [simp]: "length (le32 n) = 4"
  by (simp add: le32_def)

lemma unat_of_nat_u8 [simp]: "unat (of_nat n :: u8) = n mod 256"
  by (simp add: unat_of_nat take_bit_eq_mod)

lemma le32_value:
  fixes n :: nat
  assumes "n < 4294967296"
  shows "n mod 256 + 256 * (n div 256 mod 256) + 65536 * (n div 65536 mod 256) + 16777216 * (n div 16777216 mod 256) = n"
proof -
  have "n = n mod 256 + 256 * (n div 256)" by simp
  moreover have "n div 256 = n div 256 mod 256 + 256 * (n div 65536)"
    using mod_mult_div_eq [of "n div 256" 256] by (simp add: div_mult2_eq [symmetric])
  moreover have "n div 65536 = n div 65536 mod 256 + 256 * (n div 16777216)"
    using mod_mult_div_eq [of "n div 65536" 256] by (simp add: div_mult2_eq [symmetric])
  moreover have "n div 16777216 mod 256 = n div 16777216"
    using assms by (simp add: div_less_iff_less_mult)
  ultimately show ?thesis by linarith
qed

lemma rd_le32_take:
  assumes "p + 4 \<le> length buf" and "take 4 (drop p buf) = le32 n" and "n < 4294967296"
  shows "rd_le32 buf p = Inr n"
proof -
  have nth: "buf ! (p + i) = le32 n ! i" if "i < 4" for i
    using assms(1) that arg_cong [OF assms(2), of "\<lambda>xs. xs ! i"] by simp
  show ?thesis
    using assms(1,3) nth [of 0] nth [of 1] nth [of 2] nth [of 3] le32_value [OF assms(3)]
    by (simp add: rd_le32_def le32_def)
qed

lemma entry_rep_block:
  assumes "entry_rep (take 36 (drop p blk)) (nm, ino)" and "p + 36 \<le> length blk"
  shows "cstr_at blk p nm" and "length nm < 32" and "rd_le32 blk (p + 32) = Inr ino"
proof -
  have c: "cstr_at (take 32 (drop p blk)) 0 nm" and le: "take 4 (drop (p + 32) blk) = le32 ino" and b: "ino < 4294967296"
    using assms by (auto simp: entry_rep_def take_drop min_def add.commute)
  then show l: "length nm < 32" using assms(2) by (simp add: cstr_at_def)
  show "rd_le32 blk (p + 32) = Inr ino" using rd_le32_take [OF _ le b] assms(2) by simp
  have "take (length nm) (take 32 (drop p blk)) = take (length nm) (drop p blk)" using l by (simp add: min_def)
  then show "cstr_at blk p nm" using c l assms(2) by (simp add: cstr_at_def)
qed

lemma dir_rep_entry:
  assumes "dir_rep blk ds" and "k < length ds"
  shows "cstr_at blk (36 * k) (fst (ds ! k))" and "rd_le32 blk (36 * k + 32) = Inr (snd (ds ! k))" and "36 * k + 36 \<le> 4096"
proof -
  show k: "36 * k + 36 \<le> 4096" using assms by (simp add: dir_rep_def)
  show "cstr_at blk (36 * k) (fst (ds ! k))" "rd_le32 blk (36 * k + 32) = Inr (snd (ds ! k))"
    using entry_rep_block [of "36 * k" blk "fst (ds ! k)" "snd (ds ! k)"] assms k by (auto simp: dir_rep_def)
qed

lemma find_name_from:
  assumes rep: "dir_rep blk ds" and nm: "cstr_at m off s" and "i \<le> length ds"
  shows "find_name blk m off (length ds) i = Inr (map_of (drop i ds) s)"
  using assms(3)
proof (induction "length ds - i" arbitrary: i)
  case 0
  then show ?case by (simp add: find_name.simps)
next
  case (Suc n)
  then have f: "i < length ds" by linarith
  note e = dir_rep_entry [OF rep f]
  obtain r where r: "strcmp blk (36 * i) m off = Inr r" "r = 0 \<longleftrightarrow> fst (ds ! i) = s"
    using strcmp_cstr [OF e(1) nm] by blast
  have "drop i ds = ds ! i # drop (Suc i) ds" using f by (simp add: Cons_nth_drop_Suc)
  then show ?case
    using f r e(2) Suc.hyps by (cases "ds ! i") (auto simp: find_name.simps [of blk m off "length ds" i] DIR_ENTRY_BYTES_def)
qed

lemma find_name_rep: "dir_rep blk ds \<Longrightarrow> cstr_at m off s \<Longrightarrow> find_name blk m off (length ds) 0 = Inr (map_of ds s)"
  using find_name_from [of blk ds m off s 0] by simp

lemma cstr_at_take:
  assumes "cstr_at blk p s" and "length s < n" and "p + n \<le> length blk"
  shows "cstr_at (take n (drop p blk)) 0 s"
  using assms by (auto simp: cstr_at_def min_def)

lemma entry_rep_parts:
  assumes "cstr_at (take 32 (drop p b)) 0 s" and "take 4 (drop (p + 32) b) = le32 ino" and "p + 36 \<le> length b" and "ino < 4294967296"
  shows "entry_rep (take 36 (drop p b)) (s, ino)"
proof -
  have "take 32 (take 36 (drop p b)) = take 32 (drop p b)" by simp
  moreover have "drop 32 (take 36 (drop p b)) = take 4 (drop (p + 32) b)" by (simp add: drop_take add.commute)
  ultimately show ?thesis using assms by (simp add: entry_rep_def)
qed

lemma dir_append_rep:
  assumes rep: "dir_rep blk ds" and room: "length ds < 113" and nm: "cstr_at nm 0 s" "length s < 32" and ino: "ino < 4294967296"
  shows "\<exists>blk'. dir_append blk (length ds) ino nm = Inr blk' \<and> dir_rep blk' (ds @ [(s, ino)])"
proof -
  let ?n = "length ds"
  let ?b1 = "overlay (36 * ?n + 32) (le32 ino) blk"
  let ?b2 = "overlay (36 * ?n) (s @ [0]) ?b1"
  have len: "length blk = 4096" using rep by (simp add: dir_rep_def)
  have n: "36 * ?n + 36 \<le> 4096" using room by simp
  have l1: "length ?b1 = 4096" and l2: "length ?b2 = 4096" using len n nm(2) by simp_all
  have "dir_append blk ?n ino nm = Inr ?b2"
    using strcpy_cstr [OF nm(1), of "36 * ?n" ?b1] len n nm(2) l1 by (simp add: dir_append_def wr_bytes_def DIR_ENTRY_BYTES_def)
  moreover have "entry_rep (take 36 (drop (36 * k) ?b2)) ((ds @ [(s, ino)]) ! k)" if k: "k < Suc ?n" for k
  proof (cases "k = ?n")
    case True
    have "cstr_at ?b2 (36 * ?n) s"
      using cstr_at_overlay [of s "36 * ?n" ?b1] nm l1 n by (simp add: cstr_at_def)
    then have "cstr_at (take 32 (drop (36 * ?n) ?b2)) 0 s" using cstr_at_take [of ?b2 "36 * ?n" s 32] nm(2) l2 n by simp
    moreover have "take 4 (drop (36 * ?n + 32) ?b2) = take 4 (drop (36 * ?n + 32) ?b1)"
      using take_drop_overlay_other [of "36 * ?n" "s @ [0]" ?b1 "36 * ?n + 32" 4] nm(2) l1 n by simp
    moreover have "take 4 (drop (36 * ?n + 32) ?b1) = le32 ino"
      using take_drop_overlay_same [of "36 * ?n + 32" "le32 ino" blk] len n by simp
    ultimately have "entry_rep (take 36 (drop (36 * ?n) ?b2)) (s, ino)"
      using l2 n ino by (intro entry_rep_parts) simp_all
    then show ?thesis using True by simp
  next
    case False
    then have k': "k < ?n" "36 * k + 36 \<le> 36 * ?n" using k by simp_all
    have "take 36 (drop (36 * k) ?b2) = take 36 (drop (36 * k) ?b1)"
      using take_drop_overlay_other [of "36 * ?n" "s @ [0]" ?b1 "36 * k" 36] nm(2) l1 n k'(2) by simp
    also have "\<dots> = take 36 (drop (36 * k) blk)"
      using take_drop_overlay_other [of "36 * ?n + 32" "le32 ino" blk "36 * k" 36] len n k'(2) by simp
    finally show ?thesis using rep k'(1) by (simp add: dir_rep_def nth_append)
  qed
  ultimately show ?thesis using l2 room by (simp add: dir_rep_def)
qed

definition entry_bytes :: "u8 list \<Rightarrow> nat \<Rightarrow> u8 list" where
  "entry_bytes blk k = take 36 (drop (36 * k) blk)"

lemma shift_entries_moves:
  assumes "length blk = 4096" and "n \<le> 112" and "e \<le> n"
  shows "\<exists>blk'. shift_entries blk n e = Inr blk' \<and> length blk' = 4096 \<and>
    (\<forall>k \<le> 112. entry_bytes blk' k = entry_bytes blk (if e \<le> k \<and> k < n then Suc k else k))"
  using assms
proof (induction blk n e rule: shift_entries.induct)
  case (1 blk n e)
  show ?case
  proof (cases "e < n")
    case True
    let ?b = "overlay (36 * e) (entry_bytes blk (Suc e)) blk"
    have le: "36 * e + 72 \<le> 4096" using True "1.prems"(2) by simp
    have l36: "length (entry_bytes blk (Suc e)) = 36" using "1.prems"(1) le by (simp add: entry_bytes_def)
    have cp: "memcpy blk (DIR_ENTRY_BYTES * e) blk (DIR_ENTRY_BYTES * (e + 1)) DIR_ENTRY_BYTES = Inr ?b"
      using memcpy_overlay [of "36 * Suc e" 36 blk "36 * e" blk] "1.prems"(1) le by (simp add: DIR_ENTRY_BYTES_def entry_bytes_def)
    have lb: "length ?b = 4096" using "1.prems"(1) le l36 by simp
    obtain blk' where b': "shift_entries ?b n (e + 1) = Inr blk'" "length blk' = 4096"
        "\<forall>k \<le> 112. entry_bytes blk' k = entry_bytes ?b (if e + 1 \<le> k \<and> k < n then Suc k else k)"
      using "1.IH" [OF True cp lb "1.prems"(2)] True by auto
    have same: "entry_bytes ?b e = entry_bytes blk (Suc e)"
      using take_drop_overlay_same [of "36 * e" "entry_bytes blk (Suc e)" blk] l36 "1.prems"(1) le by (simp add: entry_bytes_def)
    have other: "entry_bytes ?b k = entry_bytes blk k" if "k \<noteq> e" "k \<le> 112" for k
    proof -
      have "36 * k + 36 \<le> 36 * e \<or> 36 * e + 36 \<le> 36 * k" using that(1) by linarith
      then show ?thesis
        using take_drop_overlay_other [of "36 * e" "entry_bytes blk (Suc e)" blk "36 * k" 36] l36 "1.prems"(1) le that(2)
        by (simp add: entry_bytes_def)
    qed
    have "entry_bytes blk' k = entry_bytes blk (if e \<le> k \<and> k < n then Suc k else k)" if "k \<le> 112" for k
      using b'(3) that same other True "1.prems"(2) by (cases "k = e") auto
    then show ?thesis using b' True cp by (simp add: shift_entries.simps [of blk])
  qed (use "1.prems" in \<open>auto simp: shift_entries.simps\<close>)
qed

lemma dir_rep_bytes:
  "dir_rep blk ds \<longleftrightarrow> length blk = 4096 \<and> length ds \<le> 113 \<and> (\<forall>k < length ds. entry_rep (entry_bytes blk k) (ds ! k))"
  by (simp add: dir_rep_def entry_bytes_def)

lemma dir_rep_shift:
  assumes "dir_rep blk (ds @ e # es)" and "length blk' = 4096"
    and "\<forall>k \<le> 112. entry_bytes blk' k = entry_bytes blk (if length ds \<le> k \<and> k < length (ds @ e # es) then Suc k else k)"
  shows "dir_rep blk' (ds @ es)"
proof -
  have "entry_rep (entry_bytes blk' k) ((ds @ es) ! k)" if k: "k < length (ds @ es)" for k
  proof -
    have "k \<le> 112" using k assms(1) by (simp add: dir_rep_bytes)
    moreover have "(ds @ es) ! k = (ds @ e # es) ! (if length ds \<le> k then Suc k else k)" using k by (auto simp: nth_append)
    ultimately show ?thesis using assms(1,3) k by (auto simp: dir_rep_bytes)
  qed
  then show ?thesis using assms(1,2) by (simp add: dir_rep_bytes)
qed

lemma unlink_loop_from:
  assumes rep: "dir_rep blk ds" and n: "length ds \<le> 112" and "i \<le> length ds"
  shows "\<exists>blk'. unlink_loop blk (length ds) f i = Inr (f \<in> snd ` set (drop i ds), blk') \<and>
    dir_rep blk' (take i ds @ remove_ino f (drop i ds))"
  using assms(3)
proof (induction "length ds - i" arbitrary: i)
  case 0
  then show ?case using rep by (simp add: unlink_loop.simps)
next
  case (Suc m)
  then have i: "i < length ds" by linarith
  note e = dir_rep_entry [OF rep i]
  have split: "drop i ds = ds ! i # drop (Suc i) ds" "ds = take i ds @ ds ! i # drop (Suc i) ds"
    using i by (simp_all add: Cons_nth_drop_Suc id_take_nth_drop [symmetric])
  show ?case
  proof (cases "snd (ds ! i) = f")
    case True
    obtain blk' where b: "shift_entries blk (length ds) i = Inr blk'" "length blk' = 4096"
        "\<forall>k \<le> 112. entry_bytes blk' k = entry_bytes blk (if i \<le> k \<and> k < length ds then Suc k else k)"
      using shift_entries_moves [of blk "length ds" i] rep n i by (auto simp: dir_rep_def)
    have "dir_rep blk' (take i ds @ drop (Suc i) ds)"
      using dir_rep_shift [of blk "take i ds" "ds ! i" "drop (Suc i) ds" blk'] b(2,3) rep split(2) i by (simp add: min_def)
    then show ?thesis
      using b(1) e(2) True i by (simp add: unlink_loop.simps [of blk "length ds" f i] DIR_ENTRY_BYTES_def split(1))
  next
    case False
    have m: "m = length ds - Suc i" using Suc.hyps(2) by linarith
    obtain blk' where "unlink_loop blk (length ds) f (Suc i) = Inr (f \<in> snd ` set (drop (Suc i) ds), blk')"
        "dir_rep blk' (take (Suc i) ds @ remove_ino f (drop (Suc i) ds))"
      using Suc.hyps(1) [of "Suc i", OF m] i by auto
    then show ?thesis
      using e(2) False i by (simp add: unlink_loop.simps [of blk "length ds" f i] DIR_ENTRY_BYTES_def split(1) take_Suc_conv_app_nth)
  qed
qed

lemma unlink_loop_rep:
  assumes "dir_rep blk ds" and "length ds \<le> 112"
  shows "\<exists>blk'. unlink_loop blk (length ds) f 0 = Inr (f \<in> snd ` set ds, blk') \<and> dir_rep blk' (remove_ino f ds)"
  using unlink_loop_from [OF assms, of 0 f] by simp

text \<open>Without the entry the block stays as it is; in a full block the last copy reads an entry behind the last one.\<close>

lemma unlink_loop_missing:
  assumes rep: "dir_rep blk ds" and "i \<le> length ds" and "f \<notin> snd ` set (drop i ds)"
  shows "unlink_loop blk (length ds) f i = Inr (False, blk)"
  using assms(2,3)
proof (induction "length ds - i" arbitrary: i)
  case (Suc m)
  then have i: "i < length ds" by linarith
  have "f \<noteq> snd (ds ! i)" "f \<notin> snd ` set (drop (Suc i) ds)" using Suc.prems(2) i by (auto simp: Cons_nth_drop_Suc [symmetric])
  then show ?case using Suc.hyps(1) [of "Suc i"] Suc.hyps(2) dir_rep_entry(2) [OF rep i] i
    by (simp add: unlink_loop.simps [of blk "length ds" f i] DIR_ENTRY_BYTES_def)
qed (simp add: unlink_loop.simps)

lemma shift_entries_full:
  assumes "length blk = 4096" and "e < 113"
  shows "shift_entries blk 113 e = Inl Out_of_bounds"
  using assms
proof (induction "112 - e" arbitrary: blk e)
  case 0
  then have "memcpy blk (DIR_ENTRY_BYTES * e) blk (DIR_ENTRY_BYTES * (e + 1)) DIR_ENTRY_BYTES = Inl Out_of_bounds"
    by (intro memcpy_outside) (simp_all add: DIR_ENTRY_BYTES_def)
  then show ?case using 0 by (simp add: shift_entries.simps [of blk])
next
  case (Suc m)
  let ?b = "overlay (36 * e) (entry_bytes blk (Suc e)) blk"
  have le: "36 * e + 72 \<le> 4096" using Suc.hyps(2) by linarith
  have "memcpy blk (DIR_ENTRY_BYTES * e) blk (DIR_ENTRY_BYTES * (e + 1)) DIR_ENTRY_BYTES = Inr ?b"
    using memcpy_overlay [of "36 * Suc e" 36 blk "36 * e" blk] Suc.prems(1) le by (simp add: DIR_ENTRY_BYTES_def entry_bytes_def)
  moreover have "length ?b = 4096" using Suc.prems(1) le by (simp add: entry_bytes_def)
  ultimately show ?case using Suc.hyps(1) [of "Suc e" ?b] Suc.hyps(2) Suc.prems(2) by (simp add: shift_entries.simps [of blk])
qed

lemma unlink_loop_full:
  assumes rep: "dir_rep blk ds" and n: "length ds = 113" and "i \<le> 113" and "f \<in> snd ` set (drop i ds)"
  shows "unlink_loop blk 113 f i = Inl Out_of_bounds"
  using assms(3,4)
proof (induction "113 - i" arbitrary: i)
  case 0
  then show ?case using n by simp
next
  case (Suc m)
  then have i: "i < length ds" using n by linarith
  note e = dir_rep_entry(2) [OF rep i]
  show ?case
  proof (cases "snd (ds ! i) = f")
    case True
    have "shift_entries blk 113 i = Inl Out_of_bounds" using rep i n by (intro shift_entries_full) (simp_all add: dir_rep_def)
    then show ?thesis using True e i n by (simp add: unlink_loop.simps [of blk 113] DIR_ENTRY_BYTES_def)
  next
    case False
    then have "f \<in> snd ` set (drop (Suc i) ds)" using Suc.prems(2) i by (auto simp: Cons_nth_drop_Suc [symmetric])
    then show ?thesis using Suc.hyps(1) [of "Suc i"] Suc.hyps(2) False e i n by (simp add: unlink_loop.simps [of blk 113] DIR_ENTRY_BYTES_def)
  qed
qed

section \<open>The contract of a directory\<close>

text \<open>
  What the file operations rely on: a directory is a list of named inode numbers with room for a
  fixed number of entries; looking up finds the first entry of a name, adding appends and deleting
  removes the first entry with an inode number.
\<close>

locale directory =
  fixes cap :: nat
    and rep :: "'d \<Rightarrow> ('n \<times> nat) list \<Rightarrow> bool"
    and name_ok :: "'n \<Rightarrow> bool"
    and lookup :: "'d \<Rightarrow> 'n \<Rightarrow> nat option res"
    and add :: "'d \<Rightarrow> 'n \<Rightarrow> nat \<Rightarrow> 'd res"
    and delete :: "'d \<Rightarrow> nat \<Rightarrow> (bool \<times> 'd) res"
    and del :: "nat \<Rightarrow> ('n \<times> nat) list \<Rightarrow> ('n \<times> nat) list"
  assumes lookup_law: "rep d es \<Longrightarrow> name_ok s \<Longrightarrow> lookup d s = Inr (map_of es s)"
    and add_law: "rep d es \<Longrightarrow> length es < cap \<Longrightarrow> name_ok s \<Longrightarrow> i < 4294967296 \<Longrightarrow>
      \<exists>d'. add d s i = Inr d' \<and> rep d' (es @ [(s, i)])"
    and delete_law: "rep d es \<Longrightarrow> length es < cap \<Longrightarrow>
      \<exists>d'. delete d i = Inr (i \<in> snd ` set es, d') \<and> rep d' (del i es)"
    and del_law: "i \<notin> snd ` set es \<Longrightarrow> del i (es @ [(s, i)]) = es"
begin

lemma add_then_lookup:
  assumes "rep d es" and "length es < cap" and "name_ok s" and "i < 4294967296" and "lookup d s = Inr None" and "name_ok s'"
  shows "\<exists>d'. add d s i = Inr d' \<and> lookup d' s' = (if s' = s then Inr (Some i) else lookup d s')"
proof -
  obtain d' where d': "add d s i = Inr d'" "rep d' (es @ [(s, i)])" using add_law [OF assms(1-4)] by blast
  have "map_of es s = None" using assms(5) lookup_law [OF assms(1,3)] by simp
  then have "map_of (es @ [(s, i)]) s' = (if s' = s then Some i else map_of es s')"
    by (auto simp: map_add_def split: option.splits)
  then show ?thesis
    using d' lookup_law [OF d'(2) assms(6)] lookup_law [OF assms(1,6)] by auto
qed

lemma add_then_delete:
  assumes "rep d es" and "Suc (length es) < cap" and "name_ok s" and "i < 4294967296" and "i \<notin> snd ` set es" and "name_ok s'"
  shows "\<exists>d' d''. add d s i = Inr d' \<and> delete d' i = Inr (True, d'') \<and> lookup d'' s' = lookup d s'"
proof -
  obtain d' where d': "add d s i = Inr d'" "rep d' (es @ [(s, i)])" using add_law [OF assms(1) _ assms(3,4)] assms(2) by auto
  obtain d'' where "delete d' i = Inr (True, d'')" "rep d'' (del i (es @ [(s, i)]))"
    using delete_law [OF d'(2), of i] assms(2) by auto
  then have "delete d' i = Inr (True, d'')" "rep d'' es" using del_law [OF assms(5)] by simp_all
  then show ?thesis using d'(1) lookup_law [OF _ assms(6)] assms(1) by simp
qed

end

definition name_ok :: "u8 list \<Rightarrow> bool" where
  "name_ok s \<longleftrightarrow> 0 \<notin> set s \<and> length s < 32"

lemma remove_ino_new: "i \<notin> snd ` set es \<Longrightarrow> remove_ino i (es @ [(s, i)]) = es"
  by (induction es) auto

lemma length_remove_ino: "length (remove_ino i es) = (if i \<in> snd ` set es then length es - 1 else length es)"
proof (induction es)
  case (Cons e es)
  have "Suc (length es - 1) = length es" if "i \<in> snd ` set es" using that by (cases es) auto
  then show ?case using Cons by auto
qed simp

text \<open>A directory block with the number of its entries.\<close>

definition bd_rep :: "u8 list \<times> nat \<Rightarrow> dir_entries \<Rightarrow> bool" where
  "bd_rep d es \<longleftrightarrow> dir_rep (fst d) es \<and> snd d = length es"

definition bd_lookup :: "u8 list \<times> nat \<Rightarrow> u8 list \<Rightarrow> nat option res" where
  "bd_lookup d s = find_name (fst d) (s @ [0]) 0 (snd d) 0"

definition bd_add :: "u8 list \<times> nat \<Rightarrow> u8 list \<Rightarrow> nat \<Rightarrow> (u8 list \<times> nat) res" where
  "bd_add d s i = obind (dir_append (fst d) (snd d) i (s @ [0])) (\<lambda>b. Inr (b, snd d + 1))"

definition bd_delete :: "u8 list \<times> nat \<Rightarrow> nat \<Rightarrow> (bool \<times> u8 list \<times> nat) res" where
  "bd_delete d i = obind (unlink_loop (fst d) (snd d) i 0) (\<lambda>(found, b). Inr (found, b, if found then snd d - 1 else snd d))"

lemma name_ok_cstr: "name_ok s \<Longrightarrow> cstr_at (s @ [0]) 0 s"
  by (rule cstr_at_literal) (simp add: name_ok_def)

interpretation block_dir: directory 113 bd_rep name_ok bd_lookup bd_add bd_delete remove_ino
proof
  show "bd_lookup d s = Inr (map_of es s)" if "bd_rep d es" "name_ok s" for d es s
    using that find_name_rep [OF _ name_ok_cstr] by (simp add: bd_lookup_def bd_rep_def)
  show "\<exists>d'. bd_add d s i = Inr d' \<and> bd_rep d' (es @ [(s, i)])"
    if "bd_rep d es" "length es < 113" "name_ok s" "i < 4294967296" for d es s i
    using dir_append_rep [OF _ that(2) name_ok_cstr [OF that(3)], of "fst d" i] that
    by (auto simp: bd_add_def bd_rep_def name_ok_def)
  show "\<exists>d'. bd_delete d i = Inr (i \<in> snd ` set es, d') \<and> bd_rep d' (remove_ino i es)"
    if h: "bd_rep d es" "length es < 113" for d es i
  proof -
    obtain b where "unlink_loop (fst d) (length es) i 0 = Inr (i \<in> snd ` set es, b)" "dir_rep b (remove_ino i es)"
      using unlink_loop_rep [of "fst d" es i] h by (auto simp: bd_rep_def)
    then show ?thesis
      using h(1) by (intro exI [of _ "(b, length (remove_ino i es))"])
        (simp add: bd_delete_def bd_rep_def length_remove_ino)
  qed
  show "remove_ino i (es @ [(s, i)]) = es" if "i \<notin> snd ` set es" for i s and es :: dir_entries
    using remove_ino_new that .
qed

section \<open>Directories of the kernel\<close>

text \<open>\<open>dir_of k d es\<close>: inode \<open>d\<close> is a directory and its data block holds the entries \<open>es\<close>.\<close>

definition dir_of :: "kernel \<Rightarrow> nat \<Rightarrow> dir_entries \<Rightarrow> bool" where
  "dir_of k d es \<longleftrightarrow> d < length (global_inode_table k) \<and> file_type (global_inode_table k ! d) = 0 \<and>
     i_size (global_inode_table k ! d) = 36 * length es \<and>
     dir_rep (read_block k (data_block_start (global_inode_table k ! d))) es"

lemma files_contained_dir: "i_size ino = 36 * n \<Longrightarrow> files_contained ino = n"
  by (simp add: files_contained_def DIR_ENTRY_BYTES_def)

lemma dir_of_length: "dir_of k d es \<Longrightarrow> length es \<le> 113"
  by (simp add: dir_of_def dir_rep_def)

lemma search_dir_of:
  assumes "dir_of k d es" and "cstr_at m off s"
  shows "search_dir k d m off =
    Inr (case map_of es s of Some i \<Rightarrow> (s32 i, k) | None \<Rightarrow> (- 1, PUSH_ERROR ''src/fs.c:183: error:couldn't trace path'' k))"
proof -
  have "dir_rep (read_block k (data_block_start (global_inode_table k ! d))) es" using assms(1) by (simp add: dir_of_def)
  from find_name_rep [OF this assms(2)] show ?thesis
    using assms(1) by (auto simp: search_dir_def dir_of_def files_contained_dir split: option.splits)
qed

lemma seek_component_of:
  assumes "dir_of k d es" and "cstr_at nd 0 s"
  shows "seek_component k d nd = Inr (case map_of es s of Some i \<Rightarrow> s32 i | None \<Rightarrow> - 1)"
proof -
  have "dir_rep (read_block k (data_block_start (global_inode_table k ! d))) es" using assms(1) by (simp add: dir_of_def)
  from find_name_rep [OF this assms(2)] show ?thesis
    using assms(1) by (simp add: seek_component_def dir_of_def files_contained_dir)
qed

text \<open>Linking appends an entry to its directory and changes no other block and no other inode.\<close>

lemma link_file_in_dir_of:
  assumes d: "dir_of k d es" and room: "length es < 113" and f: "f < length (global_inode_table k)" "f < 4294967296"
    and nm: "cstr_at (i_name (global_inode_table k ! f)) 0 s" "length s < 32"
  shows "\<exists>k' blk. link_file_in_dir k d f = Inr k' \<and> dir_of k' d (es @ [(s, f)]) \<and>
    k' = k\<lparr>global_inode_table := (global_inode_table k)[d := (global_inode_table k ! d)\<lparr>i_size := 36 * Suc (length es)\<rparr>],
           disk := (disk k)(disk_block (data_block_start (global_inode_table k ! d)) := blk)\<rparr>"
proof -
  let ?ino = "global_inode_table k ! d"
  have r: "dir_rep (read_block k (data_block_start ?ino)) es" "d < length (global_inode_table k)" "i_size ?ino = 36 * length es"
    using d by (simp_all add: dir_of_def)
  obtain blk where blk: "dir_append (read_block k (data_block_start ?ino)) (length es) f (i_name (global_inode_table k ! f)) = Inr blk"
      "dir_rep blk (es @ [(s, f)])"
    using dir_append_rep [OF r(1) room nm f(2)] by blast
  have sz: "w32 (i_size ?ino + DIR_ENTRY_BYTES) = 36 * Suc (length es)" using r(3) room by (simp add: DIR_ENTRY_BYTES_def)
  have "link_file_in_dir k d f = Inr (k\<lparr>global_inode_table := (global_inode_table k)[d := ?ino\<lparr>i_size := 36 * Suc (length es)\<rparr>],
           disk := (disk k)(disk_block (data_block_start ?ino) := blk)\<rparr>)"
    using blk(1) r f(1) sz by (simp add: link_file_in_dir_def files_contained_dir write_block_def)
  then show ?thesis using blk(2) d by (auto simp: dir_of_def read_block_def)
qed

lemma unlink_file_in_dir_of:
  assumes d: "dir_of k d es" and room: "length es < 113" and f: "f \<in> snd ` set es"
  shows "\<exists>k' blk. unlink_file_in_dir k d f = Inr k' \<and> dir_of k' d (remove_ino f es) \<and>
    k' = k\<lparr>global_inode_table := (global_inode_table k)[d := (global_inode_table k ! d)\<lparr>i_size := 36 * (length es - 1)\<rparr>],
           disk := (disk k)(disk_block (data_block_start (global_inode_table k ! d)) := blk)\<rparr>"
proof -
  let ?ino = "global_inode_table k ! d"
  have r: "dir_rep (read_block k (data_block_start ?ino)) es" "d < length (global_inode_table k)" "i_size ?ino = 36 * length es"
    using d by (simp_all add: dir_of_def)
  obtain blk where blk: "unlink_loop (read_block k (data_block_start ?ino)) (length es) f 0 = Inr (True, blk)"
      "dir_rep blk (remove_ino f es)"
    using unlink_loop_rep [OF r(1), of f] room f by auto
  have "0 < length es" using f by auto
  then have "36 * length es + 4294967260 = 36 * (length es - 1) + 4294967296" by (cases es) auto
  then have sz: "w32 (i_size ?ino + 4294967260) = 36 * (length es - 1)" using r(3) room by (simp add: w32_def)
  have "unlink_file_in_dir k d f = Inr (k\<lparr>global_inode_table := (global_inode_table k)[d := ?ino\<lparr>i_size := 36 * (length es - 1)\<rparr>],
           disk := (disk k)(disk_block (data_block_start ?ino) := blk)\<rparr>)"
    using blk(1) r sz by (simp add: unlink_file_in_dir_def files_contained_dir write_block_def)
  then show ?thesis using blk(2) d f by (auto simp: dir_of_def read_block_def length_remove_ino)
qed

lemma unlink_file_in_dir_missing:
  assumes d: "dir_of k d es" and f: "f \<notin> snd ` set es"
  shows "unlink_file_in_dir k d f = Inr k"
proof -
  let ?ino = "global_inode_table k ! d"
  have r: "dir_rep (read_block k (data_block_start ?ino)) es" "d < length (global_inode_table k)" "files_contained ?ino = length es"
    using d by (simp_all add: dir_of_def files_contained_dir)
  then show ?thesis using unlink_loop_missing [OF r(1), of 0 f] f by (simp add: unlink_file_in_dir_def write_block_def read_block_def)
qed

lemma unlink_file_in_dir_full:
  assumes d: "dir_of k d es" and n: "length es = 113" and f: "f \<in> snd ` set es"
  shows "unlink_file_in_dir k d f = Inl Out_of_bounds"
proof -
  let ?ino = "global_inode_table k ! d"
  have r: "dir_rep (read_block k (data_block_start ?ino)) es" "d < length (global_inode_table k)" "files_contained ?ino = 113"
    using d n by (simp_all add: dir_of_def files_contained_dir)
  then show ?thesis using unlink_loop_full [OF r(1) n, of 0 f] f by (simp add: unlink_file_in_dir_def)
qed

section \<open>Resolving paths\<close>

text \<open>The two parts of a path: up to and including the last slash, and the rest.\<close>

definition file_part :: "u8 list \<Rightarrow> u8 list" where
  "file_part s = rev (takeWhile (\<lambda>c. c \<noteq> 47) (rev s))"

definition dir_part :: "u8 list \<Rightarrow> u8 list" where
  "dir_part s = rev (dropWhile (\<lambda>c. c \<noteq> 47) (rev s))"

lemma dir_file_part [simp]: "dir_part s @ file_part s = s"
  unfolding dir_part_def file_part_def by (metis rev_append rev_rev_ident takeWhile_dropWhile_id)

lemma length_parts: "length (dir_part s) + length (file_part s) = length s"
  by (metis dir_file_part length_append)

lemma file_part_no_slash: "47 \<notin> set (file_part s)"
  unfolding file_part_def by (auto dest: set_takeWhileD)

lemma dir_part_snoc: "dir_part (xs @ [c]) = (if c = 47 then xs @ [c] else dir_part xs)"
  by (simp add: dir_part_def)

lemma dir_part_Nil [simp]: "dir_part [] = []"
  by (simp add: dir_part_def)

lemma dir_part_eq_Nil: "dir_part s = [] \<longleftrightarrow> 47 \<notin> set s"
  by (auto simp: dir_part_def dropWhile_eq_Nil_conv)

lemma dir_part_slash: "47 \<in> set s \<Longrightarrow> dir_part s = butlast (dir_part s) @ [47]"
proof (induction s rule: rev_induct)
  case (snoc c xs)
  then show ?case by (cases "c = 47") (auto simp: dir_part_snoc)
qed simp

lemma last_slash_from:
  assumes c: "cstr_at mem off s" and "i \<le> length s"
  shows "last_slash_loop mem off i (length (dir_part (take i s)) - 1) = Inr (length (dir_part s) - 1)"
  using assms(2)
proof (induction "length s - i" arbitrary: i)
  case 0
  then show ?case using cstr_at_nth(1,3) [OF c] by (simp add: last_slash_loop.simps)
next
  case (Suc n)
  then have i: "i < length s" by linarith
  have nth: "mem ! (off + i) = s ! i" "s ! i \<noteq> 0" "off + i < length mem"
    using cstr_at_nth(2,4) [OF c i] cstr_at_nth(1) [OF c] i by simp_all
  have l: "(if s ! i = 47 then i else length (dir_part (take i s)) - 1) = length (dir_part (take (Suc i) s)) - 1"
    using i by (simp add: take_Suc_conv_app_nth dir_part_snoc)
  have "last_slash_loop mem off (Suc i) (length (dir_part (take (Suc i) s)) - 1) = Inr (length (dir_part s) - 1)"
    using Suc.hyps(2) i by (intro Suc.hyps(1)) linarith+
  then show ?case using nth l by (cases "s ! i = 47") (simp_all add: last_slash_loop.simps [of mem off i])
qed

lemma last_slash_cstr: "cstr_at mem off s \<Longrightarrow> last_slash_loop mem off 0 0 = Inr (length (dir_part s) - 1)"
  using last_slash_from [of mem off s 0] by simp

text \<open>A string cut off at a position, and a suffix of a string, are strings again.\<close>

lemma cstr_at_suffix:
  assumes "cstr_at m p (xs @ ys)"
  shows "cstr_at m (p + length xs) ys"
proof -
  have "take (length ys) (drop (length xs) (take (length xs + length ys) (drop p m))) = ys"
    using assms by (simp add: cstr_at_def)
  then show ?thesis using assms by (simp add: cstr_at_def drop_take add_ac)
qed

lemma cstr_at_cut:
  assumes "cstr_at m p (xs @ ys)"
  shows "cstr_at (m[p + length xs := 0]) p xs"
proof -
  have "take (length xs) (take (length xs + length ys) (drop p m)) = xs" using assms by (simp add: cstr_at_def)
  then show ?thesis using assms by (simp add: cstr_at_def drop_update_swap take_update_cancel)
qed

lemma cstr_at_update_other:
  assumes "cstr_at m p s" and "i < p \<or> p + length s < i"
  shows "cstr_at (m[i := v]) p s"
proof -
  have "take (length s) (drop p (m[i := v])) = take (length s) (drop p m)"
    using assms by (intro nth_equalityI) (auto simp: nth_list_update)
  then show ?thesis using assms by (auto simp: cstr_at_def)
qed

lemma cstr_at_overlay_other:
  assumes "cstr_at m p s" and "d + length new \<le> length m" and "d + length new \<le> p \<or> p + length s < d"
  shows "cstr_at (overlay d new m) p s"
proof -
  have "take (length s) (drop p (overlay d new m)) = take (length s) (drop p m)"
    using assms by (intro take_drop_overlay_other) (auto simp: cstr_at_def)
  moreover have "overlay d new m ! (p + length s) = m ! (p + length s)"
    using assms by (auto simp: nth_overlay cstr_at_def)
  ultimately show ?thesis using assms by (simp add: cstr_at_def)
qed

lemma dir_part_pos: "47 \<in> set s \<Longrightarrow> 0 < length (dir_part s)"
  by (simp add: dir_part_eq_Nil)

lemma parse_path_parts:
  assumes c: "cstr_at path off s" and sl: "47 \<in> set s" and room: "length s < length db" "length (file_part s) < length fb"
  shows "\<exists>dp fn. parse_path path off db fb = Inr (dp, fn) \<and> cstr_at dp 0 (dir_part s) \<and> cstr_at fn 0 (file_part s)"
proof -
  let ?dp = "overlay 0 (s @ [0]) db" and ?n = "length (dir_part s)"
  have z: "0 \<notin> set s" using c by (simp add: cstr_at_def)
  have n: "length (dir_part s) - 1 + 1 = ?n" using dir_part_pos [OF sl] by simp
  have dp: "cstr_at ?dp 0 (dir_part s @ file_part s)" using cstr_at_overlay [OF z, of 0 db] room(1) by simp
  have fp: "cstr_at ?dp ?n (file_part s)" using cstr_at_suffix [OF dp] by simp
  then have zf: "0 \<notin> set (file_part s)" by (simp add: cstr_at_def)
  have "strcpy db 0 path off = Inr ?dp" using strcpy_cstr [OF c, of 0 db] room(1) by simp
  moreover have "strcpy fb 0 ?dp ?n = Inr (overlay 0 (file_part s @ [0]) fb)" using strcpy_cstr [OF fp, of 0 fb] room(2) by simp
  moreover have "?n < length ?dp" using fp by (simp add: cstr_at_def)
  ultimately have "parse_path path off db fb = Inr (?dp[?n := 0], overlay 0 (file_part s @ [0]) fb)"
    using last_slash_cstr [OF c] n by (simp add: parse_path_def)
  then show ?thesis using cstr_at_cut [OF dp] cstr_at_overlay [OF zf, of 0 fb] room(2) by simp
qed

lemma Path_parts:
  assumes inv: "heap_inv (heap k)" and c: "cstr_at path off s" and sl: "47 \<in> set s" and len: "length s < 4294967295"
    and m1: "kmalloc (heap k) (length s + 1) = Inr (dp, h1)" and m2: "kmalloc h1 (length s + 1) = Inr (fn, h2)"
    and fit: "dp - bottom (heap k) + length s < length (hmem k)" "fn - bottom (heap k) + length s < length (hmem k)"
  shows "\<exists>m. Path k path off = Inr (\<lparr>dir_path = dp, filename = fn\<rparr>, k\<lparr>heap := h2, hmem := m\<rparr>) \<and>
    length m = length (hmem k) \<and> cstr_at m (dp - bottom (heap k)) (dir_part s) \<and> cstr_at m (fn - bottom (heap k)) (file_part s) \<and>
    (\<forall>q n. heap_live (heap k) q = Some n \<and> bottom (heap k) \<le> q \<longrightarrow> take n (drop (q - bottom (heap k)) m) = take n (drop (q - bottom (heap k)) (hmem k)))"
proof -
  let ?b = "bottom (heap k)" and ?n = "length (dir_part s)" and ?fp = "file_part s"
  let ?d = "dp - bottom (heap k)" and ?f = "fn - bottom (heap k)"
  note r1 = kmalloc_result [OF inv _ m1] and r2 = kmalloc_result [OF _ _ m2]
  have inv1: "heap_inv h1" and b1: "bottom h1 = ?b" "bottom h2 = ?b" using r1(1,2) r2(2) by simp_all
  have ge: "?b \<le> dp" "?b \<le> fn" using r1(5) r2(5) inv1 b1 by auto
  have "{fn ..< fn + (length s + 1)} \<inter> {dp ..< dp + (length s + 1)} = {}"
    using kheap.malloc_apart [OF inv1 _ m2, of dp "length s + 1"] r1(4) by simp
  then have apart: "?f + length s < ?d \<or> ?d + length s < ?f" using ge by (auto simp: ivl_disj_un)
  have z: "0 \<notin> set s" using c by (simp add: cstr_at_def)
  have n: "?d + (?n - 1) + 1 = ?d + ?n" using dir_part_pos [OF sl] by simp
  have lf: "length ?fp \<le> length s" "?n \<le> length s" "?n + length ?fp = length s"
    using length_parts [of s] by linarith+
  let ?m1 = "overlay ?d (s @ [0]) (hmem k)"
  have dpath: "cstr_at ?m1 ?d (dir_part s @ ?fp)" using cstr_at_overlay [OF z, of ?d "hmem k"] fit(1) by simp
  have fp: "cstr_at ?m1 (?d + ?n) ?fp" using cstr_at_suffix [OF dpath] .
  then have zf: "0 \<notin> set ?fp" by (simp add: cstr_at_def)
  let ?m2 = "overlay ?f (?fp @ [0]) ?m1"
  have l1: "length ?m1 = length (hmem k)" using fit(1) by simp
  have l2: "length ?m2 = length (hmem k)" using fit(2) lf l1 by simp
  have "cstr_at ?m2 ?d (dir_part s @ ?fp)"
    using cstr_at_overlay_other [OF dpath, of ?f "?fp @ [0]"] l1 fit(2) lf apart by auto
  then have dir: "cstr_at (?m2[?d + ?n := 0]) ?d (dir_part s)" by (rule cstr_at_cut)
  have "cstr_at ?m2 ?f ?fp" using cstr_at_overlay [OF zf, of ?f ?m1] l1 fit(2) lf by simp
  moreover have "?d + ?n < ?f \<or> ?f + length ?fp < ?d + ?n" using apart lf by linarith
  ultimately have fil: "cstr_at (?m2[?d + ?n := 0]) ?f ?fp" by (rule cstr_at_update_other)
  have "strlen path off = Inr (length s)" using c by simp
  moreover have "strcpy (hmem k) ?d path off = Inr ?m1" using strcpy_cstr [OF c, of ?d "hmem k"] fit(1) by simp
  moreover have "strcpy ?m1 ?f ?m1 (?d + ?n) = Inr ?m2" using strcpy_cstr [OF fp, of ?f ?m1] l1 fit(2) lf by simp
  moreover have "?d + ?n < length ?m2" using fit(1) lf l2 by simp
  moreover have off: "heap_off h2 dp = Inr ?d" "heap_off h2 fn = Inr ?f" using b1 ge by (simp_all add: heap_off_def)
  ultimately have "Path k path off = Inr (\<lparr>dir_path = dp, filename = fn\<rparr>, k\<lparr>heap := h2, hmem := ?m2[?d + ?n := 0]\<rparr>)"
    using len m1 m2 last_slash_cstr [OF c] unfolding Path_def by (simp add: n del: One_nat_def add_Suc_right)
  moreover have "take n (drop (q - ?b) (?m2[?d + ?n := 0])) = take n (drop (q - ?b) (hmem k))" if q: "heap_live (heap k) q = Some n" "?b \<le> q" for q n
  proof -
    have "{q ..< q + n} \<inter> {dp ..< dp + (length s + 1)} = {}" "{q ..< q + n} \<inter> {fn ..< fn + (length s + 1)} = {}"
      using kheap.malloc_apart [OF inv _ m1 q(1)] kheap.malloc_apart [OF inv1 _ m2, of q n] r1(3,4) q(1) by auto
    then have ap: "\<not> (dp \<le> q + j \<and> q + j \<le> dp + length s)" "\<not> (fn \<le> q + j \<and> q + j \<le> fn + length s)" if "j < n" for j
      using that by (auto simp: disjoint_iff)
    have "(?m2[?d + ?n := 0]) ! x = hmem k ! x" if j: "j < n" "x = q - ?b + j" "x < length (hmem k)" for j x
    proof -
      have out: "\<not> (?d \<le> x \<and> x \<le> ?d + length s)" "\<not> (?f \<le> x \<and> x \<le> ?f + length s)"
        using ap [OF j(1)] j(2) ge q(2) by linarith+
      have "?m1 ! x = hmem k ! x" by (subst nth_overlay) (use fit(1) j(3) out(1) in auto)
      moreover have "?m2 ! x = ?m1 ! x" by (subst nth_overlay) (use fit(2) lf l1 j(3) out(2) in auto)
      moreover have "?d + ?n \<noteq> x" using out(1) lf by linarith
      ultimately show ?thesis by simp
    qed
    then show ?thesis using l2 by (intro nth_equalityI) auto
  qed
  ultimately show ?thesis using dir fil l2 by auto
qed

text \<open>
  A directory path is a slash followed by components, each ended by a slash. \<open>resolve\<close> follows the
  components from the root; \<open>dirs\<close> gives the entries of the directories.
\<close>

definition comp_ok :: "u8 list \<Rightarrow> bool" where
  "comp_ok c \<longleftrightarrow> name_ok c \<and> 47 \<notin> set c"

definition join_path :: "u8 list list \<Rightarrow> u8 list" where
  "join_path cs = concat (map (\<lambda>c. c @ [47]) cs)"

fun resolve :: "(nat \<Rightarrow> dir_entries) \<Rightarrow> nat \<Rightarrow> u8 list list \<Rightarrow> nat option" where
  "resolve dirs d [] = Some d"
| "resolve dirs d (c # cs) = (case map_of (dirs d) c of None \<Rightarrow> None | Some i \<Rightarrow> resolve dirs i cs)"

text \<open>Every directory the path goes through is one of the kernel's, and inode numbers fit an \<open>int32_t\<close>.\<close>

fun path_ok :: "kernel \<Rightarrow> (nat \<Rightarrow> dir_entries) \<Rightarrow> nat \<Rightarrow> u8 list list \<Rightarrow> bool" where
  "path_ok k dirs d [] \<longleftrightarrow> d < 2147483648"
| "path_ok k dirs d (c # cs) \<longleftrightarrow> dir_of k d (dirs d) \<and>
     (case map_of (dirs d) c of None \<Rightarrow> True | Some i \<Rightarrow> i < 2147483648 \<and> path_ok k dirs i cs)"

lemma seek_loop_chars:
  assumes "cstr_at mem off s" and "drop cc s = xs @ 47 # ys" and "47 \<notin> set xs" and "j \<le> length xs"
    and "length nd = 32" and "length xs < 32"
  shows "seek_loop k mem off (cc + j) (overlay 0 (take j xs) nd) j cur =
    seek_loop k mem off (cc + length xs) (overlay 0 xs nd) (length xs) cur"
  using assms(4)
proof (induction "length xs - j" arbitrary: j)
  case 0
  then show ?case by simp
next
  case (Suc n)
  then have j: "j < length xs" by linarith
  have nth: "s ! (cc + i) = (xs @ 47 # ys) ! i" "cc + i < length s" if "i < length (xs @ 47 # ys)" for i
  proof -
    have l: "length s - cc = length (xs @ 47 # ys)" using arg_cong [OF assms(2), of length] by simp
    then show "cc + i < length s" using that by linarith
    then show "s ! (cc + i) = (xs @ 47 # ys) ! i" using arg_cong [OF assms(2), of "\<lambda>l. l ! i"] by simp
  qed
  have ij: "s ! (cc + j) = xs ! j" "cc + j < length s" "cc + Suc j < length s"
    using nth [of j] nth [of "Suc j"] j by (simp_all add: nth_append)
  have c: "mem ! (off + (cc + j)) = xs ! j" "off + (cc + j) < length mem" "xs ! j \<noteq> 0"
    and c': "mem ! (off + (cc + Suc j)) \<noteq> 0" "off + (cc + Suc j) < length mem"
    using cstr_at_nth(2,4) [OF assms(1) ij(2)] cstr_at_nth(2,4) [OF assms(1) ij(3)] cstr_at_nth(1) [OF assms(1)] ij by simp_all
  have ns: "xs ! j \<noteq> 47" using assms(3) j by (auto simp: in_set_conv_nth)
  have "(overlay 0 (take j xs) nd)[j := xs ! j] = overlay 0 (take (Suc j) xs) nd"
    using j assms(5,6) overlay_snoc [of 0 "take j xs" nd "xs ! j"] by (simp add: take_Suc_conv_app_nth)
  moreover have "length (overlay 0 (take j xs) nd) = 32" using j assms(5,6) by simp
  ultimately have "seek_loop k mem off (cc + j) (overlay 0 (take j xs) nd) j cur =
      seek_loop k mem off (cc + Suc j) (overlay 0 (take (Suc j) xs) nd) (Suc j) cur"
    using c c' ns j assms(6) by (simp add: seek_loop.simps [of k mem off "cc + j"] add.assoc)
  also have "\<dots> = seek_loop k mem off (cc + length xs) (overlay 0 xs nd) (length xs) cur"
    using Suc.hyps j by (intro Suc.hyps(1)) linarith+
  finally show ?case .
qed

lemma seek_loop_component:
  assumes c: "cstr_at mem off s" and s: "drop cc s = xs @ 47 # ys" and xs: "comp_ok xs" and d: "dir_of k cur es" and nd: "length nd = 32"
    and small: "\<And>i. map_of es xs = Some i \<Longrightarrow> i < 2147483648"
  shows "\<exists>nd'. length nd' = 32 \<and> seek_loop k mem off cc nd 0 cur =
    (case map_of es xs of None \<Rightarrow> Inr None | Some i \<Rightarrow> seek_loop k mem off (cc + Suc (length xs)) nd' 0 i)"
proof -
  let ?n = "length xs" and ?nd = "overlay 0 xs nd"
  have x: "47 \<notin> set xs" "0 \<notin> set xs" "?n < 32" using xs by (simp_all add: comp_ok_def name_ok_def)
  have "seek_loop k mem off cc nd 0 cur = seek_loop k mem off (cc + ?n) ?nd ?n cur"
    using seek_loop_chars [OF c s x(1), of 0 nd k cur] nd x(3) by simp
  moreover have "length s - cc = ?n + Suc (length ys)" using arg_cong [OF s, of length] by simp
  then have lt: "cc + ?n < length s" by linarith
  have "s ! (cc + ?n) = 47" using arg_cong [OF s, of "\<lambda>l. l ! ?n"] lt by simp
  then have sl: "mem ! (off + (cc + ?n)) = 47" "off + (cc + ?n) < length mem"
    using cstr_at_nth(1) [OF c] cstr_at_nth(2) [OF c lt] lt by simp_all
  have "?nd[?n := 0] = overlay 0 (xs @ [0]) nd" using overlay_snoc [of 0 xs nd 0] nd x(3) by simp
  then have "cstr_at (?nd[?n := 0]) 0 xs" using cstr_at_overlay [OF x(2), of 0 nd] nd x(3) by simp
  from seek_component_of [OF d this]
  have "seek_loop k mem off (cc + ?n) ?nd ?n cur =
      (case map_of es xs of None \<Rightarrow> Inr None | Some i \<Rightarrow> seek_loop k mem off (cc + Suc ?n) (?nd[?n := 0]) 0 i)"
    using sl nd x(3) small by (auto simp: seek_loop.simps [of k mem off "cc + ?n"] s32_def split: option.splits)
  moreover have "length (?nd[?n := 0]) = 32" using nd x(3) by simp
  ultimately show ?thesis by metis
qed

lemma seek_loop_resolves:
  assumes c: "cstr_at mem off s" and "drop cc s = join_path cs" and "\<forall>x \<in> set cs. comp_ok x" and "path_ok k dirs cur cs"
    and "length nd = 32" and "cc \<le> length s"
  shows "seek_loop k mem off cc nd 0 cur = Inr (resolve dirs cur cs)"
  using assms(2-)
proof (induction cs arbitrary: cc nd cur)
  case Nil
  then have "cc = length s" by (simp add: join_path_def)
  then show ?case using cstr_at_nth(1,3) [OF c] by (simp add: seek_loop.simps)
next
  case (Cons x cs)
  have s: "drop cc s = x @ 47 # join_path cs" using Cons.prems(1) by (simp add: join_path_def)
  have d: "dir_of k cur (dirs cur)" using Cons.prems(3) by simp
  obtain nd' where nd': "length nd' = 32" "seek_loop k mem off cc nd 0 cur =
      (case map_of (dirs cur) x of None \<Rightarrow> Inr None | Some i \<Rightarrow> seek_loop k mem off (cc + Suc (length x)) nd' 0 i)"
    using seek_loop_component [OF c s _ d Cons.prems(4)] Cons.prems(2,3) by (auto split: option.splits)
  show ?case
  proof (cases "map_of (dirs cur) x")
    case (Some i)
    have "drop (cc + Suc (length x)) s = drop (Suc (length x)) (drop cc s)" by (simp add: add.commute)
    then have "drop (cc + Suc (length x)) s = join_path cs" unfolding s by simp
    moreover have "length s - cc = length x + Suc (length (join_path cs))" using arg_cong [OF s, of length] by simp
    ultimately have "seek_loop k mem off (cc + Suc (length x)) nd' 0 i = Inr (resolve dirs i cs)"
      using Cons.prems nd'(1) Some by (intro Cons.IH) (auto simp: add_ac)
    then show ?thesis using nd'(2) Some by simp
  qed (use nd' in simp)
qed

text \<open>\<open>seek_directory\<close> follows a path component by component, and refuses it when a component is missing
  or when it does not end in a directory.\<close>

lemma seek_directory_resolves:
  assumes c: "cstr_at mem off (47 # join_path cs)" and "\<forall>x \<in> set cs. comp_ok x" and ok: "path_ok k dirs 0 cs"
    and "\<And>d. resolve dirs 0 cs = Some d \<Longrightarrow> d < length (global_inode_table k)"
  shows "seek_directory k mem off = Inr (case resolve dirs 0 cs of
      None \<Rightarrow> (- 1, PUSH_ERROR ''src/fs.c:122: error:couldn't trace path'' k)
    | Some d \<Rightarrow> if file_type (global_inode_table k ! d) \<noteq> 0 then (- 1, PUSH_ERROR ''src/fs.c:134: error:file is not a directory'' k)
               else (s32 d, k))"
proof -
  have "seek_loop k mem off 1 (replicate 32 0) 0 0 = Inr (resolve dirs 0 cs)"
    using seek_loop_resolves [OF c, of 1 cs k dirs 0 "replicate 32 0"] assms(2,3) by simp
  moreover have "off < length mem" "mem ! off = 47"
    using cstr_at_nth(1) [OF c] cstr_at_nth(2) [OF c, of 0] by simp_all
  ultimately show ?thesis using assms(4) by (auto simp: seek_directory_def split: option.splits)
qed

lemma resolve_small: "path_ok k dirs d cs \<Longrightarrow> resolve dirs d cs = Some e \<Longrightarrow> e < 2147483648"
  by (induction cs arbitrary: d) (auto split: option.splits)

end
