(* ===== verification/Fs.thy ===== *)
theory Fs
  imports Fs_Base Format
begin

text \<open>
  The file system, part two: the operations of \<open>src/src/fs.c\<close> on files and descriptors, the special files
  of \<open>src/src/file_handlers.c\<close>, and mounting, formatting and shutting down.

  What is not part of the program is the parameter \<open>w\<close>, a record \<open>world\<close>: the devices behind the ports, the
  compiler's choices of \<open>environ\<close>, the bytes the linker placed behind \<open>global_super\<close> (it is written in a
  whole block), the three padding bytes of an inode, the disk size the drive reports and what, if anything, is mapped
  at address 0. Descriptors are the \<open>int64_t\<close> values of the interface; a descriptor that is no index of the table
  ends in \<open>Out_of_bounds\<close>.
\<close>

section \<open>Definitions\<close>

record world =
  hw :: hardware
  env :: environ
  super_tail :: "u8 list"
  inode_pad :: "u8 list"
  drive_size :: nat
  null_page :: "u8 list option"

subsection \<open>Inodes and descriptors\<close>

record DirInodePair =
  valid :: bool
  file_inode_num :: nat
  dir_inode_num :: nat

definition invalid_pair :: DirInodePair where
  "invalid_pair = \<lparr>valid = False, file_inode_num = 0, dir_inode_num = 0\<rparr>"

definition u32_of_int :: "int \<Rightarrow> nat" where
  "u32_of_int i = nat (i mod 4294967296)"

definition MAP_CAPACITY :: nat where
  "MAP_CAPACITY = BLOCK_BYTES * 8"

definition allocate_inode :: "kernel \<Rightarrow> ParsedPath \<Rightarrow> u8 \<Rightarrow> bool \<Rightarrow> (DirInodePair \<times> kernel) res" where
  "allocate_inode k parsed_path ftype alloc_data =
     obind (heap_off (heap k) (dir_path parsed_path)) (\<lambda>d.
     obind (heap_off (heap k) (filename parsed_path)) (\<lambda>f.
     obind (seek_directory k (hmem k) d) (\<lambda>(dir_num, k1).
       if dir_num = - 1 then Inr (invalid_pair, k1)
       else
         obind (search_dir k1 (u32_of_int dir_num) (hmem k1) f) (\<lambda>(found, k2).
           if found \<noteq> - 1 then Inr (invalid_pair, PUSH_ERROR ''src/fs.c:228: error:can't create file under same name'' k2)
           else
             obind (strcpy (replicate 32 0) 0 (hmem k2) f) (\<lambda>nm.
             obind (alloc_bitrange (global_ibmap k2) MAP_CAPACITY 1 False) (\<lambda>(ib_range, ibm).
               if br_length ib_range = 0 then Inl (Panic ''allocate_inode: can't allocate inode'')
               else
                 obind (if alloc_data
                        then obind (alloc_bitrange (global_dbmap k2) MAP_CAPACITY 1 False) (\<lambda>(db_range, dbm).
                               if br_length db_range = 0 then Inl (Panic ''can't allocate data blocks'')
                               else Inr (br_start db_range, dbm))
                        else Inr (0, global_dbmap k2)) (\<lambda>(start, dbm).
                 obind (wr (global_inode_table k2) (br_start ib_range)
                          \<lparr>i_name = nm, file_type = ftype, data_block_start = start, i_size = 0,
                           parent_inode_num = u32_of_int dir_num\<rparr>) (\<lambda>tab.
                   Inr (\<lparr>valid = True, file_inode_num = br_start ib_range, dir_inode_num = u32_of_int dir_num\<rparr>,
                        k2\<lparr>global_ibmap := ibm, global_dbmap := dbm, global_inode_table := tab,
                           global_super := (global_super k2)
                             \<lparr>used_inodes := w32 (used_inodes (global_super k2) + 1)\<rparr>\<rparr>)))))))))"

definition allocate_file_descriptor :: "kernel \<Rightarrow> nat \<Rightarrow> nat \<Rightarrow> (int \<times> kernel) res" where
  "allocate_file_descriptor k ino fname =
     obind (alloc_bitrange (fd_bitmap k) MAP_CAPACITY 1 False) (\<lambda>(fd_range, bm).
       if br_length fd_range = 0 then Inr (- 1, k)
       else
         obind (heap_off (heap k) fname) (\<lambda>f.
         obind (strcpy (replicate 32 0) 0 (hmem k) f) (\<lambda>nm.
         obind (wr (fd_entries k) (br_start fd_range)
                  \<lparr>fd_name = nm, inode_num = ino, read_pos = 0, write_pos = 0, fd_index = br_start fd_range\<rparr>) (\<lambda>es.
           Inr (s32 (br_start fd_range), k\<lparr>fd_bitmap := bm, fd_entries := es\<rparr>)))))"

definition free_path :: "kernel \<Rightarrow> ParsedPath \<Rightarrow> kernel res" where
  "free_path k pp =
     obind (kfree (heap k) (dir_path pp)) (\<lambda>h1. obind (kfree h1 (filename pp)) (\<lambda>h2. Inr (k\<lparr>heap := h2\<rparr>)))"

subsection \<open>Creating, opening, closing\<close>

definition create_filetype :: "kernel \<Rightarrow> u8 list \<Rightarrow> nat \<Rightarrow> u8 \<Rightarrow> bool \<Rightarrow> (int \<times> kernel) res" where
  "create_filetype k path off ftype allocate_fd =
     obind (rd path off) (\<lambda>c0.
       if c0 \<noteq> 47 then Inr (- 1, PUSH_ERROR ''src/fs.c:330: error:Relative addressing unimplmented'' k)
       else
         obind (Path k path off) (\<lambda>(pp, k1).
         obind (allocate_inode k1 pp ftype (ftype \<noteq> 2)) (\<lambda>(pair, k2).
           if \<not> valid pair then obind (free_path k2 pp) (\<lambda>k3. Inr (- 1, PUSH_ERROR ''src/fs.c:339: error:Couldn't allocate inode'' k3))
           else
             obind (link_file_in_dir k2 (dir_inode_num pair) (file_inode_num pair)) (\<lambda>k3.
             obind (if allocate_fd then allocate_file_descriptor k3 (file_inode_num pair) (filename pp)
                    else Inr (0, k3)) (\<lambda>(fd_ix, k4).
             obind (free_path k4 pp) (\<lambda>k5.
               if fd_ix = - 1 then
                 obind (unlink_file_in_dir k5 (dir_inode_num pair) (file_inode_num pair)) (\<lambda>k6.
                 obind (rd (global_inode_table k6) (file_inode_num pair)) (\<lambda>ino.
                 obind (dealloc_bitrange (global_dbmap k6) \<lparr>br_start = data_block_start ino, br_length = 1\<rparr>) (\<lambda>dbm.
                 obind (dealloc_bitrange (global_ibmap k6) \<lparr>br_start = (if valid pair then 1 else 0), br_length = 1\<rparr>) (\<lambda>ibm.
                   Inr (fd_ix, k6\<lparr>global_dbmap := dbm, global_ibmap := ibm\<rparr>)))))
               else Inr (fd_ix, k5)))))))"

definition create :: "kernel \<Rightarrow> u8 list \<Rightarrow> nat \<Rightarrow> (int \<times> kernel) res" where
  "create k path off = create_filetype k path off FILE_TYPE_NORMAL True"

definition mkdir :: "kernel \<Rightarrow> u8 list \<Rightarrow> nat \<Rightarrow> (int \<times> kernel) res" where
  "mkdir k path off = create_filetype k path off FILE_TYPE_DIR False"

text \<open>\<open>open\<close>; its directory number is a \<open>uint32_t\<close>, so a failure of \<open>seek_directory\<close> is the index \<open>2^32 - 1\<close>.\<close>

definition open_file :: "kernel \<Rightarrow> u8 list \<Rightarrow> nat \<Rightarrow> (int \<times> kernel) res" where
  "open_file k path off =
     obind (Path k path off) (\<lambda>(pp, k1).
     obind (heap_off (heap k1) (dir_path pp)) (\<lambda>d.
     obind (heap_off (heap k1) (filename pp)) (\<lambda>f.
     obind (seek_directory k1 (hmem k1) d) (\<lambda>(dir_num, k2).
     obind (search_dir k2 (u32_of_int dir_num) (hmem k2) f) (\<lambda>(file_num, k3).
       if file_num = - 1 then
         obind (free_path (PUSH_ERROR ''src/fs.c:388: error:file doesn't exist'' k3) pp) (\<lambda>k4. Inr (- 1, k4))
       else
         obind (allocate_file_descriptor k3 (u32_of_int file_num) (filename pp)) (\<lambda>(fd_ix, k4).
         obind (free_path k4 pp) (\<lambda>k5. Inr (fd_ix, k5))))))))"

definition close :: "kernel \<Rightarrow> int \<Rightarrow> (int \<times> kernel) res" where
  "close k fd =
     obind (dealloc_bitrange (fd_bitmap k) \<lparr>br_start = u32_of_int fd, br_length = 1\<rparr>) (\<lambda>bm.
       Inr (- 1, k\<lparr>fd_bitmap := bm\<rparr>))"

subsection \<open>Reading, writing, seeking\<close>

definition fd_rd :: "kernel \<Rightarrow> int \<Rightarrow> FileDescriptorEntry res" where
  "fd_rd k fd = (if fd < 0 then Inl Out_of_bounds else rd (fd_entries k) (nat fd))"

definition fd_set :: "kernel \<Rightarrow> int \<Rightarrow> FileDescriptorEntry \<Rightarrow> kernel" where
  "fd_set k fd e = k\<lparr>fd_entries := (fd_entries k)[nat fd := e]\<rparr>"

text \<open>The table \<open>system_files\<close>: the names of the special files; entry 0 is handled by \<open>tty_handler\<close>, entry 1 by
  \<open>serial_handler\<close>.\<close>

definition system_names :: "u8 list list" where
  "system_names = [cstr_of ''tty'' @ replicate 29 0, cstr_of ''ttyS'' @ replicate 28 0]"

definition handle :: "world \<Rightarrow> nat \<Rightarrow> bool \<Rightarrow> kernel \<Rightarrow> u8 list \<Rightarrow> nat \<Rightarrow> (nat \<times> u8 list \<times> kernel) res" where
  "handle w h rdng k buf cnt =
     (if h = 0 then
        if rdng then obind (tty_read (kbd k) buf cnt) (\<lambda>(n, buf', rb). Inr (n, buf', k\<lparr>kbd := rb\<rparr>))
        else obind (tty_write buf cnt (tty k) (screen k)) (\<lambda>(n, tm, s). Inr (n, buf, k\<lparr>tty := tm, screen := s\<rparr>))
      else
        obind (serial_handler (hw w) rdng buf cnt (snd (screen k))) (\<lambda>(n, buf', t).
          Inr (n, buf', k\<lparr>screen := (fst (screen k), t)\<rparr>)))"

fun special :: "world \<Rightarrow> nat \<Rightarrow> u8 list list \<Rightarrow> bool \<Rightarrow> kernel \<Rightarrow> u8 list \<Rightarrow> u8 list \<Rightarrow> nat \<Rightarrow> (nat \<times> u8 list \<times> kernel) res" where
  "special w h [] rdng k nm buf cnt = Inr (0, buf, k)"
| "special w h (s # ss) rdng k nm buf cnt =
     obind (strcmp s 0 nm 0) (\<lambda>r.
       if r = 0 then handle w h rdng k buf cnt else special w (h + 1) ss rdng k nm buf cnt)"

function read_loop :: "u8 list \<Rightarrow> nat \<Rightarrow> nat \<Rightarrow> nat \<Rightarrow> nat \<Rightarrow> u8 list \<Rightarrow> (nat \<times> nat \<times> u8 list) res" where
  "read_loop blk fsize cnt pos bytes_read buf =
     (if pos < fsize \<and> bytes_read < cnt then
        obind (rd blk pos) (\<lambda>v. obind (wr buf bytes_read v) (read_loop blk fsize cnt (pos + 1) (bytes_read + 1)))
      else Inr (bytes_read, pos, buf))"
  by pat_completeness auto
termination
  by (relation "measure (\<lambda>(blk, fsize, cnt, pos, n, buf). cnt - n)") auto

function write_loop :: "u8 list \<Rightarrow> nat \<Rightarrow> nat \<Rightarrow> nat \<Rightarrow> u8 list \<Rightarrow> nat \<Rightarrow> (nat \<times> nat \<times> u8 list \<times> nat) res" where
  "write_loop buf cnt pos bytes_written blk fsize =
     (if pos < BLOCK_BYTES \<and> bytes_written < cnt then
        obind (rd buf bytes_written) (\<lambda>v. obind (wr blk pos v) (\<lambda>blk'.
          write_loop buf cnt (pos + 1) (bytes_written + 1) blk' (w32 (fsize + 1))))
      else Inr (bytes_written, pos, blk, fsize))"
  by pat_completeness auto
termination
  by (relation "measure (\<lambda>(buf, cnt, pos, n, blk, fsize). cnt - n)") auto

declare read_loop.simps [simp del] write_loop.simps [simp del]

definition read_file :: "world \<Rightarrow> kernel \<Rightarrow> int \<Rightarrow> u8 list \<Rightarrow> nat \<Rightarrow> (nat \<times> u8 list \<times> kernel) res" where
  "read_file w k fd buf cnt =
     obind (fd_rd k fd) (\<lambda>fd_entry.
     obind (rd (global_inode_table k) (inode_num fd_entry)) (\<lambda>fd_inode.
       if file_type fd_inode = 2 then special w 0 system_names True k (i_name fd_inode) buf cnt
       else
         obind (read_loop (read_block k (data_block_start fd_inode)) (i_size fd_inode) cnt (read_pos fd_entry) 0 buf)
           (\<lambda>(bytes_read, pos, buf'). Inr (bytes_read, buf', fd_set k fd (fd_entry\<lparr>read_pos := pos\<rparr>)))))"

definition write_file :: "world \<Rightarrow> kernel \<Rightarrow> int \<Rightarrow> u8 list \<Rightarrow> nat \<Rightarrow> (nat \<times> kernel) res" where
  "write_file w k fd buf cnt =
     obind (fd_rd k fd) (\<lambda>fd_entry.
     obind (rd (global_inode_table k) (inode_num fd_entry)) (\<lambda>fd_inode.
       if file_type fd_inode = 2 then
         obind (special w 0 system_names False k (i_name fd_inode) buf cnt) (\<lambda>(n, _, k'). Inr (n, k'))
       else
         obind (write_loop buf cnt (write_pos fd_entry) 0 (read_block k (data_block_start fd_inode)) (i_size fd_inode))
           (\<lambda>(bytes_written, pos, blk, fsize).
              Inr (bytes_written,
                   write_block (data_block_start fd_inode) blk
                     (fd_set (k\<lparr>global_inode_table := (global_inode_table k)[inode_num fd_entry := fd_inode\<lparr>i_size := fsize\<rparr>]\<rparr>)
                        fd (fd_entry\<lparr>write_pos := pos\<rparr>))))))"

definition SEEK_SET :: nat where "SEEK_SET = 0"
definition SEEK_CUR :: nat where "SEEK_CUR = 1"
definition SEEK_END :: nat where "SEEK_END = 2"

definition u64_of_int :: "int \<Rightarrow> nat" where
  "u64_of_int i = nat (i mod 18446744073709551616)"

definition seek_pos :: "kernel \<Rightarrow> FileDescriptorEntry \<Rightarrow> int \<Rightarrow> nat \<Rightarrow> FileDescriptorEntry res" where
  "seek_pos k e offset param =
     (if param = SEEK_SET then Inr (e\<lparr>read_pos := u64_of_int offset, write_pos := u64_of_int offset\<rparr>)
      else if param = SEEK_CUR then
        Inr (e\<lparr>read_pos := u64_of_int (int (read_pos e) + offset), write_pos := u64_of_int (int (write_pos e) + offset)\<rparr>)
      else if param = SEEK_END then
        obind (rd (global_inode_table k) (inode_num e)) (\<lambda>ino.
          let p = u32_of_int (int (i_size ino) - offset) in Inr (e\<lparr>read_pos := p, write_pos := p\<rparr>))
      else Inr e)"

definition seek :: "kernel \<Rightarrow> int \<Rightarrow> int \<Rightarrow> nat \<Rightarrow> (int \<times> kernel) res" where
  "seek k fd offset param =
     (if fd < 0 \<or> 31 < fd then Inl Undefined_shift
      else
        obind (rd (fd_bitmap k) 0) (\<lambda>wd.
          if bit wd (31 - nat fd) then
            obind (fd_rd k fd) (\<lambda>e.
            obind (seek_pos k e offset param) (\<lambda>e'. Inr (s32 (w32 (read_pos e')), fd_set k fd e')))
          else Inr (- 1, PUSH_ERROR ''src/fs.c:501: error:file descriptor is not allocated'' k)))"

subsection \<open>Deleting and listing\<close>

text \<open>\<open>unlink\<close>; \<open>dir_path\<close> is an array of \<open>strlen(path)\<close> bytes.\<close>

definition unlink :: "world \<Rightarrow> kernel \<Rightarrow> u8 list \<Rightarrow> nat \<Rightarrow> (int \<times> kernel) res" where
  "unlink w k path off =
     obind (strlen path off) (\<lambda>len.
     obind (parse_path path off (junk (env w) (vla (env w) len)) (junk (env w) 32)) (\<lambda>(dp, fn).
     obind (seek_directory k dp 0) (\<lambda>(dir_num, k1).
     obind (search_dir k1 (u32_of_int dir_num) fn 0) (\<lambda>(file_num, k2).
       if file_num = - 1 then Inr (- 1, PUSH_ERROR ''src/fs.c:579: error:file doesn't exist'' k2)
       else
         obind (unlink_file_in_dir k2 (u32_of_int dir_num) (u32_of_int file_num)) (\<lambda>k3.
         obind (rd (global_inode_table k3) (u32_of_int file_num)) (\<lambda>file_inode.
         obind (dealloc_bitrange (global_dbmap k3) \<lparr>br_start = data_block_start file_inode, br_length = 1\<rparr>) (\<lambda>dbm.
         obind (dealloc_bitrange (global_ibmap k3) \<lparr>br_start = u32_of_int file_num, br_length = 1\<rparr>) (\<lambda>ibm.
           Inr (0, k3\<lparr>global_dbmap := dbm, global_ibmap := ibm\<rparr>)))))))))"

text \<open>The loops of \<open>list_dir\<close> and \<open>str_list_dir\<close>: the path and the name of every entry; \<open>p\<close> is where \<open>buf\<close> points.\<close>

function list_loop :: "u8 list \<Rightarrow> u8 list \<Rightarrow> nat \<Rightarrow> nat \<Rightarrow> nat \<Rightarrow> u8 list \<Rightarrow> nat \<Rightarrow> (u8 list \<times> nat) res" where
  "list_loop blk path off n i buf p =
     (if i < n then
        obind (strcat path off buf p) (\<lambda>(a, b1).
        obind (strcat blk (DIR_ENTRY_BYTES * i) b1 (p + a)) (\<lambda>(b, b2).
        obind (wr b2 (p + a + b) 10) (\<lambda>b3. list_loop blk path off n (i + 1) b3 (p + a + b + 1))))
      else Inr (buf, p))"
  by pat_completeness auto
termination
  by (relation "measure (\<lambda>(blk, path, off, n, i, buf, p). n - i)") auto

definition list_dir :: "world \<Rightarrow> kernel \<Rightarrow> u8 list \<Rightarrow> nat \<Rightarrow> u8 list \<Rightarrow> (u8 list \<times> kernel) res" where
  "list_dir w k path off buf =
     obind (strlen path off) (\<lambda>len.
     obind (parse_path path off (junk (env w) (vla (env w) (len + 1))) (junk (env w) 32)) (\<lambda>(dp, fn).
     obind (seek_directory k dp 0) (\<lambda>(dir_num, k1).
     obind (rd (global_inode_table k1) (u32_of_int dir_num)) (\<lambda>dir_inode.
     obind (list_loop (read_block k1 (data_block_start dir_inode)) path off (files_contained dir_inode) 0 buf 0) (\<lambda>(buf', _).
       Inr (buf', k1))))))"

function str_list_loop :: "u8 list \<Rightarrow> u8 list \<Rightarrow> nat \<Rightarrow> nat \<Rightarrow> nat \<Rightarrow> u8 list \<Rightarrow> nat \<Rightarrow> (u8 list \<times> nat) res" where
  "str_list_loop blk path off n i buf p =
     (if i < n then
        obind (if 0 < i then obind (wr buf p 10) (\<lambda>b. Inr (b, p + 1)) else Inr (buf, p)) (\<lambda>(b0, p0).
        obind (strcat path off b0 p0) (\<lambda>(a, b1).
        obind (strcat blk (DIR_ENTRY_BYTES * i) b1 (p0 + a)) (\<lambda>(b, b2).
          str_list_loop blk path off n (i + 1) b2 (p0 + a + b))))
      else Inr (buf, p))"
  by pat_completeness auto
termination
  by (relation "measure (\<lambda>(blk, path, off, n, i, buf, p). n - i)") auto

declare list_loop.simps [simp del] str_list_loop.simps [simp del]

text \<open>\<open>str_list_dir\<close>: the address of the listing, \<open>None\<close> for the null pointer. The listing is built inside the block
  \<open>kmalloc\<close> returned; leaving the block is out of bounds, whatever lies behind it.\<close>

definition str_list_dir :: "kernel \<Rightarrow> u8 list \<Rightarrow> nat \<Rightarrow> (nat option \<times> kernel) res" where
  "str_list_dir k path off =
     obind (seek_directory k path off) (\<lambda>(dir_num, k1).
       if dir_num = - 1 then Inr (None, k1)
       else
         obind (rd (global_inode_table k1) (u32_of_int dir_num)) (\<lambda>dir_inode.
         let n = files_contained dir_inode; sz = w32 (n * 32 + 1) in
         obind (kmalloc (heap k1) sz) (\<lambda>(base, h).
         obind (heap_off h base) (\<lambda>p.
           if length (hmem k1) < p + sz then Inl Out_of_bounds
           else
             obind (str_list_loop (read_block k1 (data_block_start dir_inode)) path off n 0 (take sz (drop p (hmem k1))) 0) (\<lambda>(m, q).
             obind (wr m q 0) (\<lambda>m'. Inr (Some base, k1\<lparr>heap := h, hmem := overlay p m' (hmem k1)\<rparr>)))))))"

section \<open>Reading and writing\<close>

lemma read_loop_copies:
  assumes "length blk = 4096" and "fsize \<le> 4096" and "n \<le> cnt" and "cnt \<le> length buf" and "pos \<le> fsize"
  shows "read_loop blk fsize cnt pos n buf =
    (let m = min (fsize - pos) (cnt - n) in Inr (n + m, pos + m, overlay n (take m (drop pos blk)) buf))"
  using assms
proof (induction blk fsize cnt pos n buf rule: read_loop.induct)
  case (1 blk fsize cnt pos n buf)
  show ?case
  proof (cases "pos < fsize \<and> n < cnt")
    case True
    let ?m = "min (fsize - (pos + 1)) (cnt - (n + 1))"
    have m: "min (fsize - pos) (cnt - n) = Suc ?m" using True by linarith
    have ix: "pos < length blk" "n < length buf" using True "1.prems" by linarith+
    have "read_loop blk fsize cnt (pos + 1) (n + 1) (buf[n := blk ! pos]) =
        Inr (n + 1 + ?m, pos + 1 + ?m, overlay (n + 1) (take ?m (drop (pos + 1) blk)) (buf[n := blk ! pos]))"
      using "1.IH" [OF True rd_in wr_in, OF ix] "1.prems" True unfolding Let_def by simp
    moreover have "overlay (n + 1) (take ?m (drop (pos + 1) blk)) (buf[n := blk ! pos]) = overlay n (take (Suc ?m) (drop pos blk)) buf"
      by (rule overlay_step) (use "1.prems" True in linarith)+
    ultimately show ?thesis
      using True ix by (simp add: read_loop.simps [of blk fsize cnt pos n buf] Let_def m)
  next
    case False
    then have "min (fsize - pos) (cnt - n) = 0" by linarith
    then show ?thesis using False by (auto simp: read_loop.simps [of blk fsize cnt pos n buf] Let_def)
  qed
qed

lemma write_loop_copies:
  assumes "length blk = 4096" and "n \<le> cnt" and "cnt \<le> length buf" and "pos \<le> 4096" and "fsize + (cnt - n) < 4294967296"
  shows "write_loop buf cnt pos n blk fsize =
    (let m = min (4096 - pos) (cnt - n) in Inr (n + m, pos + m, overlay pos (take m (drop n buf)) blk, fsize + m))"
  using assms
proof (induction buf cnt pos n blk fsize rule: write_loop.induct)
  case (1 buf cnt pos n blk fsize)
  show ?case
  proof (cases "pos < 4096 \<and> n < cnt")
    case True
    let ?m = "min (4096 - (pos + 1)) (cnt - (n + 1))"
    have m: "min (4096 - pos) (cnt - n) = Suc ?m" using True by linarith
    have ix: "n < length buf" "pos < length blk" and w: "w32 (fsize + 1) = fsize + 1" using True "1.prems" by auto
    have b: "pos < BLOCK_BYTES \<and> n < cnt" using True by (simp add: BLOCK_BYTES_def)
    have "write_loop buf cnt (pos + 1) (n + 1) (blk[pos := buf ! n]) (fsize + 1) =
        Inr (n + 1 + ?m, pos + 1 + ?m, overlay (pos + 1) (take ?m (drop (n + 1) buf)) (blk[pos := buf ! n]), fsize + 1 + ?m)"
      using "1.IH" [OF b rd_in wr_in, OF ix, unfolded w] "1.prems" True unfolding Let_def by simp
    moreover have "overlay (pos + 1) (take ?m (drop (n + 1) buf)) (blk[pos := buf ! n]) = overlay pos (take (Suc ?m) (drop n buf)) blk"
      by (rule overlay_step) (use "1.prems" True in linarith)+
    ultimately show ?thesis
      using True b ix w by (simp add: write_loop.simps [of buf cnt pos n blk fsize] Let_def m)
  next
    case False
    then have "min (4096 - pos) (cnt - n) = 0" by linarith
    then show ?thesis using False by (auto simp: write_loop.simps [of buf cnt pos n blk fsize] Let_def BLOCK_BYTES_def)
  qed
qed

text \<open>A descriptor of a file with a data block, and the bytes and the size of that file.\<close>

definition plain_fd :: "kernel \<Rightarrow> nat \<Rightarrow> nat \<Rightarrow> bool" where
  "plain_fd k fd f \<longleftrightarrow> fd < length (fd_entries k) \<and> inode_num (fd_entries k ! fd) = f \<and> f < length (global_inode_table k) \<and>
     file_type (global_inode_table k ! f) \<noteq> 2 \<and> length (read_block k (data_block_start (global_inode_table k ! f))) = 4096"

definition file_block :: "kernel \<Rightarrow> nat \<Rightarrow> u8 list" where
  "file_block k f = read_block k (data_block_start (global_inode_table k ! f))"

definition file_size :: "kernel \<Rightarrow> nat \<Rightarrow> nat" where
  "file_size k f = i_size (global_inode_table k ! f)"

lemma read_file_plain:
  assumes "plain_fd k fd f" and "file_size k f \<le> 4096" and "cnt \<le> length buf" and "read_pos (fd_entries k ! fd) = pos" and "pos \<le> file_size k f"
  shows "read_file w k (int fd) buf cnt =
    (let m = min (file_size k f - pos) cnt in
     Inr (m, overlay 0 (take m (drop pos (file_block k f))) buf, fd_set k (int fd) ((fd_entries k ! fd)\<lparr>read_pos := pos + m\<rparr>)))"
  using assms read_loop_copies [of "file_block k f" "file_size k f" 0 cnt buf pos]
  by (simp add: read_file_def plain_fd_def file_block_def file_size_def fd_rd_def Let_def)

lemma read_loop_overrun:
  assumes "length blk = 4096" and "4096 < fsize" and "pos \<le> 4096" and "4096 < pos + (cnt - n)" and "cnt \<le> length buf"
  shows "read_loop blk fsize cnt pos n buf = Inl Out_of_bounds"
  using assms
proof (induction blk fsize cnt pos n buf rule: read_loop.induct)
  case (1 blk fsize cnt pos n buf)
  have n: "pos < fsize \<and> n < cnt" "n < length buf" using "1.prems" by linarith+
  show ?case
  proof (cases "pos < 4096")
    case True
    then have "read_loop blk fsize cnt (pos + 1) (n + 1) (buf[n := blk ! pos]) = Inl Out_of_bounds"
      using n "1.prems" by (intro "1.IH" [OF n(1) rd_in wr_in]) auto
    then show ?thesis using n True "1.prems"(1) by (simp add: read_loop.simps [of blk fsize cnt pos n buf])
  next
    case False
    then have "pos = 4096" using "1.prems"(3) by simp
    then show ?thesis using n "1.prems" by (subst read_loop.simps) (simp add: rd_def)
  qed
qed

lemma write_file_plain:
  assumes p: "plain_fd k fd f" and "file_size k f + cnt < 4294967296" and "cnt \<le> length buf"
    and "write_pos (fd_entries k ! fd) = pos" and "pos + cnt \<le> 4096"
  shows "write_file w k (int fd) buf cnt =
    Inr (cnt, write_block (data_block_start (global_inode_table k ! f)) (overlay pos (take cnt buf) (file_block k f))
      (fd_set (k\<lparr>global_inode_table := (global_inode_table k)[f := (global_inode_table k ! f)\<lparr>i_size := file_size k f + cnt\<rparr>]\<rparr>)
        (int fd) ((fd_entries k ! fd)\<lparr>write_pos := pos + cnt\<rparr>)))"
proof -
  have "min (4096 - pos) cnt = cnt" using assms(5) by linarith
  then show ?thesis
    using assms write_loop_copies [of "file_block k f" 0 cnt buf pos "file_size k f"]
    by (simp add: write_file_def plain_fd_def file_block_def file_size_def fd_rd_def Let_def)
qed

lemma seek_set:
  assumes "fd < length (fd_entries k)" and "fd \<in> bm_used (fd_bitmap k)" and "length (fd_bitmap k) = 1" and "p < 2147483648"
  shows "seek k (int fd) (int p) SEEK_SET = Inr (int p, fd_set k (int fd) ((fd_entries k ! fd)\<lparr>read_pos := p, write_pos := p\<rparr>))"
proof -
  have "fd < 32" "bm_bit (fd_bitmap k) fd" using assms(2,3) by (simp_all add: bm_used_def)
  then have "fd < 32" "bit (fd_bitmap k ! 0) (31 - fd)" by (simp_all add: bm_bit_def)
  then show ?thesis
    using assms by (simp add: seek_def seek_pos_def fd_rd_def SEEK_SET_def u64_of_int_def s32_def fd_set_def)
qed

section \<open>Creating a file\<close>

text \<open>The inode and data maps are bitmaps of one block, the descriptor map has a single word; all three keep
  the contract of a range allocator.\<close>

interpretation fs_map: range_allocator bm_used "bm_inv 1024"
    "\<lambda>b n. alloc_bitrange b MAP_CAPACITY n False" dealloc_bitrange
  by (rule bitmap_range_allocator) simp

interpretation fd_map: range_allocator bm_used "bm_inv 1"
    "\<lambda>b n. alloc_bitrange b MAP_CAPACITY n False" dealloc_bitrange
  by (rule bitmap_range_allocator) simp

definition least_free :: "u32 list \<Rightarrow> nat \<Rightarrow> bool" where
  "least_free bm i \<longleftrightarrow> i + 1 < 32 * length bm \<and> i \<notin> bm_used bm \<and> (\<forall>j < i. j \<in> bm_used bm)"

lemma alloc_least_free:
  assumes lf: "least_free bm i" and len: "length bm \<le> 1024"
  shows "\<exists>bm'. alloc_bitrange bm MAP_CAPACITY 1 False = Inr (\<lparr>br_start = i, br_length = 1\<rparr>, bm') \<and>
    length bm' = length bm \<and> bm_used bm' = insert i (bm_used bm)"
proof -
  have lim: "32 * min (MAP_CAPACITY div 4) (length bm) = 32 * length bm" using len by (simp add: MAP_CAPACITY_def BLOCK_BYTES_def)
  have fits: "run_fits bm (32 * length bm) 1 False j \<longleftrightarrow> j < 32 * length bm \<and> j \<notin> bm_used bm" for j
    using run_fits_1 [of bm "32 * length bm" j] by (auto simp: bm_used_def)
  have i: "run_fits bm (32 * length bm) 1 False i" using lf fits [of i] by (simp add: least_free_def)
  obtain s bm' where "alloc_bitrange bm MAP_CAPACITY 1 False = Inr (\<lparr>br_start = s, br_length = 1\<rparr>, bm')"
    and s: "run_fits bm (32 * length bm) 1 False s" "s \<le> i" and bm': "length bm' = length bm" "bm_used bm' = bm_used bm \<union> {s ..< s + 1}"
    by (rule alloc_bitrange_found [of 1 bm MAP_CAPACITY False i, unfolded lim]) (use i lf len in \<open>simp_all add: least_free_def\<close>)
  moreover have "s = i" using s lf fits [of s] by (auto simp: least_free_def le_less)
  ultimately show ?thesis by auto
qed

lemma dir_of_cong:
  "global_inode_table k' = global_inode_table k \<Longrightarrow> disk k' = disk k \<Longrightarrow> dir_of k' d es = dir_of k d es"
  by (simp add: dir_of_def read_block_def)

lemma path_ok_cong:
  assumes "global_inode_table k' = global_inode_table k" and "disk k' = disk k"
  shows "path_ok k' dirs d cs = path_ok k dirs d cs"
  by (induction cs arbitrary: d) (auto simp: dir_of_cong [OF assms] split: option.splits)

lemma path_parts_join:
  assumes "47 \<notin> set nm"
  shows "dir_part (47 # join_path cs @ nm) = 47 # join_path cs" and "file_part (47 # join_path cs @ nm) = nm"
proof -
  have last: "\<exists>xs. 47 # join_path cs = xs @ [47]"
    by (induction cs rule: rev_induct) (simp_all add: join_path_def)
  then obtain xs where xs: "47 # join_path cs = xs @ [47]" by blast
  have dw: "dropWhile (\<lambda>c. c \<noteq> 47) (rev nm @ 47 # rev xs) = 47 # rev xs"
    using assms by (subst dropWhile_append2) auto
  show d: "dir_part (47 # join_path cs @ nm) = 47 # join_path cs"
  proof -
    have e: "47 # join_path cs @ nm = xs @ 47 # nm" using xs by (metis append_Cons append_Nil append_assoc)
    show ?thesis unfolding e xs using dw by (simp add: dir_part_def)
  qed
  show "file_part (47 # join_path cs @ nm) = nm"
    using dir_file_part [of "47 # join_path cs @ nm"] d by simp
qed

text \<open>There is room on the heap for the two parts of a path of \<open>n\<close> bytes.\<close>

definition path_room :: "kernel \<Rightarrow> nat \<Rightarrow> nat \<Rightarrow> nat \<Rightarrow> AllocArray \<Rightarrow> bool" where
  "path_room k n dp fn h2 \<longleftrightarrow> (\<exists>h1. kmalloc (heap k) n = Inr (dp, h1) \<and> kmalloc h1 n = Inr (fn, h2)) \<and>
     dp - bottom (heap k) + n \<le> length (hmem k) \<and> fn - bottom (heap k) + n \<le> length (hmem k)"

lemma Path_room:
  assumes inv: "heap_inv (heap k)" and c: "cstr_at path off (47 # join_path cs @ nm)" and nm: "47 \<notin> set nm"
    and len: "length (47 # join_path cs @ nm) < 4294967295" and room: "path_room k (length (47 # join_path cs @ nm) + 1) dp fn h2"
  shows "\<exists>m. Path k path off = Inr (\<lparr>dir_path = dp, filename = fn\<rparr>, k\<lparr>heap := h2, hmem := m\<rparr>) \<and>
    cstr_at m (dp - bottom (heap k)) (47 # join_path cs) \<and> cstr_at m (fn - bottom (heap k)) nm \<and> length m = length (hmem k) \<and>
    (\<forall>q n. heap_live (heap k) q = Some n \<and> bottom (heap k) \<le> q \<longrightarrow> take n (drop (q - bottom (heap k)) m) = take n (drop (q - bottom (heap k)) (hmem k)))"
    and "heap_off h2 dp = Inr (dp - bottom (heap k))" and "heap_off h2 fn = Inr (fn - bottom (heap k))"
    and "\<exists>h3 h4. kfree h2 dp = Inr h3 \<and> kfree h3 fn = Inr h4 \<and> heap_inv h4 \<and> heap_live h4 = heap_live (heap k)"
proof -
  let ?s = "47 # join_path cs @ nm"
  obtain h1 where m1: "kmalloc (heap k) (length ?s + 1) = Inr (dp, h1)" and m2: "kmalloc h1 (length ?s + 1) = Inr (fn, h2)"
    and fit: "dp - bottom (heap k) + length ?s < length (hmem k)" "fn - bottom (heap k) + length ?s < length (hmem k)"
    using room by (auto simp: path_room_def)
  show "\<exists>m. Path k path off = Inr (\<lparr>dir_path = dp, filename = fn\<rparr>, k\<lparr>heap := h2, hmem := m\<rparr>) \<and>
    cstr_at m (dp - bottom (heap k)) (47 # join_path cs) \<and> cstr_at m (fn - bottom (heap k)) nm \<and> length m = length (hmem k) \<and>
    (\<forall>q n. heap_live (heap k) q = Some n \<and> bottom (heap k) \<le> q \<longrightarrow> take n (drop (q - bottom (heap k)) m) = take n (drop (q - bottom (heap k)) (hmem k)))"
    using Path_parts [OF inv c _ len m1 m2 fit] unfolding path_parts_join [OF nm] by auto
  note r1 = kmalloc_result [OF inv _ m1] and r2 = kmalloc_result [OF _ _ m2]
  have inv1: "heap_inv h1" "bottom h1 = bottom (heap k)" "bottom h2 = bottom (heap k)" using r1(1,2) r2(2) by simp_all
  then show "heap_off h2 dp = Inr (dp - bottom (heap k))" "heap_off h2 fn = Inr (fn - bottom (heap k))"
    using r1(5) r2(5) by (auto simp: heap_off_def)
  show "\<exists>h3 h4. kfree h2 dp = Inr h3 \<and> kfree h3 fn = Inr h4 \<and> heap_inv h4 \<and> heap_live h4 = heap_live (heap k)"
    using kheap.two_temporaries(2) [OF inv _ m1 _ m2] by simp
qed

text \<open>An empty heap has room for both parts of any path that is not too long for the memory behind it.\<close>

lemma kmalloc_low:
  assumes inv: "heap_inv a" and n: "0 < n" and used: "bm_used (bitmap a) \<subseteq> {..< m}"
    and slot: "\<not> (\<forall>e \<in> set (entries a). utilized e)" and fit: "m + 3 + n \<le> 8192"
  shows "\<exists>s a'. kmalloc a n = Inr (bottom a + s, a') \<and> s \<le> m + 3 \<and>
    bm_used (bitmap a') = bm_used (bitmap a) \<union> {s ..< s + n} \<and> (\<exists>k e. entries a' = (entries a)[k := e])"
proof -
  let ?s0 = "4 * ((m + 3) div 4)"
  have s0: "m \<le> ?s0" "?s0 \<le> m + 3" by linarith+
  have len: "length (bitmap a) = 1024" using heap_inv_lengths [OF inv] by simp
  have "\<not> bm_bit (bitmap a) (?s0 + p)" if "p < n" for p
  proof
    assume "bm_bit (bitmap a) (?s0 + p)"
    then have "?s0 + p \<in> bm_used (bitmap a)" using s0(2) that fit len by (simp add: bm_used_def)
    then have "?s0 + p < m" using used by blast
    then show False using s0(1) by linarith
  qed
  then have r: "run_fits (bitmap a) 8192 n True ?s0" using s0 fit by (simp add: run_fits_def free_run_def step_of_def)
  obtain s where s: "\<And>s'. s' < s \<Longrightarrow> \<not> run_fits (bitmap a) 8192 n True s'"
    and ok: "\<not> (\<forall>e \<in> set (entries a). utilized e) \<Longrightarrow> \<exists>a'. kmalloc a n = Inr (bottom a + s, a') \<and>
           bm_used (bitmap a') = bm_used (bitmap a) \<union> {s ..< s + n} \<and> (\<exists>k e. entries a' = (entries a)[k := e])"
    using kmalloc_space [OF inv n r] by metis
  have "s \<le> m + 3" using s r s0(2) by (meson le_trans not_le_imp_less)
  then show ?thesis using ok [OF slot] by blast
qed

lemma empty_heap:
  assumes inv: "heap_inv a" and "heap_live a = (\<lambda>_. None)"
  shows "bm_used (bitmap a) = {}" and "\<forall>e \<in> set (entries a). \<not> utilized e"
proof -
  have "table_ok (\<lambda>s. bottom a + s) 32768 (entries a)" using inv by (simp add: heap_inv_def)
  from heap_live_iff [OF this] show un: "\<forall>e \<in> set (entries a). \<not> utilized e"
    using assms(2) by (metis in_set_conv_nth option.distinct(1))
  then have "live_ranges (entries a) = []" by (simp add: live_ranges_def filter_empty_conv)
  then show "bm_used (bitmap a) = {}" using inv by (simp add: heap_inv_def heap_bm.tracks_def)
qed

lemma path_room_empty:
  assumes inv: "heap_inv (heap k)" and live: "heap_live (heap k) = (\<lambda>_. None)"
    and n: "0 < n" and fit: "2 * n + 6 \<le> length (hmem k)" "length (hmem k) \<le> 8192"
  shows "\<exists>dp fn h2. path_room k n dp fn h2"
proof -
  note e = empty_heap [OF inv live]
  have len: "length (entries (heap k)) = MAX_ALLOCATIONS" using heap_inv_lengths [OF inv] by simp
  then have "entries (heap k) \<noteq> []" by (auto simp: MAX_ALLOCATIONS_def)
  then have slot: "\<not> (\<forall>x \<in> set (entries (heap k)). utilized x)" using e(2) by (metis list.set_sel(1))
  obtain s1 h1 i x where m1: "kmalloc (heap k) n = Inr (bottom (heap k) + s1, h1)" "s1 \<le> 3" "bm_used (bitmap h1) = {s1 ..< s1 + n}"
      "entries h1 = (entries (heap k))[i := x]"
    using kmalloc_low [OF inv n _ slot, of 0] e(1) fit by auto
  note r1 = kmalloc_result [OF inv n m1(1)]
  let ?j = "if i = 0 then 1 else 0 :: nat"
  have "entries h1 ! ?j = entries (heap k) ! ?j" "?j < length (entries (heap k))" "length (entries h1) = length (entries (heap k))"
    using m1(4) len by (simp_all add: MAX_ALLOCATIONS_def)
  then have "?j < length (entries h1)" "\<not> utilized (entries h1 ! ?j)" using e(2) nth_mem [of ?j] by metis+
  then have slot1: "\<not> (\<forall>x \<in> set (entries h1). utilized x)" by (meson nth_mem)
  obtain s2 h2 where "kmalloc h1 n = Inr (bottom h1 + s2, h2)" "s2 \<le> n + 6"
    using kmalloc_low [OF r1(1) n _ slot1, of "n + 3"] m1(2,3) fit by force
  then show ?thesis using m1(1,2) r1(2) fit unfolding path_room_def by fastforce
qed

text \<open>The new inode \<open>i\<close> of a file with name \<open>nm\<close> in directory \<open>d\<close>, with data block \<open>b\<close>.\<close>

definition new_inode :: "u8 list \<Rightarrow> u8 \<Rightarrow> nat \<Rightarrow> nat \<Rightarrow> FileSystemInode" where
  "new_inode nm ftype b d =
     \<lparr>i_name = overlay 0 (nm @ [0]) (replicate 32 0), file_type = ftype,
      data_block_start = (if ftype = 2 then 0 else b), i_size = 0, parent_inode_num = d\<rparr>"

lemma allocate_inode_ok:
  assumes dp: "heap_off (heap k) (dir_path pp) = Inr doff" "cstr_at (hmem k) doff (47 # join_path cs)"
    and fn: "heap_off (heap k) (filename pp) = Inr foff" "cstr_at (hmem k) foff nm"
    and cs: "\<forall>x \<in> set cs. comp_ok x" "path_ok k dirs 0 cs" "resolve dirs 0 cs = Some d"
    and d: "dir_of k d (dirs d)" "map_of (dirs d) nm = None" and nm: "length nm < 32"
    and i: "least_free (global_ibmap k) i" "length (global_ibmap k) \<le> 1024" "i < length (global_inode_table k)"
    and b: "ftype \<noteq> 2 \<Longrightarrow> least_free (global_dbmap k) b \<and> length (global_dbmap k) \<le> 1024"
  shows "\<exists>ibm dbm. allocate_inode k pp ftype (ftype \<noteq> 2) =
      Inr (\<lparr>valid = True, file_inode_num = i, dir_inode_num = d\<rparr>,
           k\<lparr>error_msg := ''src/fs.c:183: error:couldn't trace path'', global_ibmap := ibm, global_dbmap := dbm,
             global_inode_table := (global_inode_table k)[i := new_inode nm ftype b d],
             global_super := (global_super k)\<lparr>used_inodes := w32 (used_inodes (global_super k) + 1)\<rparr>\<rparr>) \<and>
    length ibm = length (global_ibmap k) \<and> bm_used ibm = insert i (bm_used (global_ibmap k)) \<and>
    length dbm = length (global_dbmap k) \<and>
    bm_used dbm = (if ftype = 2 then bm_used (global_dbmap k) else insert b (bm_used (global_dbmap k)))"
proof -
  have dlt: "d < 2147483648" "d < length (global_inode_table k)" "file_type (global_inode_table k ! d) = 0"
    using resolve_small [OF cs(2,3)] d(1) by (simp_all add: dir_of_def)
  have seek: "seek_directory k (hmem k) doff = Inr (s32 d, k)"
    using seek_directory_resolves [OF dp(2) cs(1,2)] cs(3) dlt by simp
  have u: "u32_of_int (s32 d) = d" "s32 d \<noteq> - 1" using dlt(1) by (simp_all add: s32_def u32_of_int_def)
  let ?k = "k\<lparr>error_msg := ''src/fs.c:183: error:couldn't trace path''\<rparr>"
  have search: "search_dir k d (hmem k) foff = Inr (- 1, ?k)"
    using search_dir_of [OF d(1) fn(2)] d(2) by (simp add: PUSH_ERROR_def)
  have cp: "strcpy (replicate 32 0) 0 (hmem k) foff = Inr (overlay 0 (nm @ [0]) (replicate 32 0))"
    using strcpy_cstr [OF fn(2), of 0 "replicate 32 0"] nm by simp
  obtain ibm where ibm: "alloc_bitrange (global_ibmap k) MAP_CAPACITY 1 False = Inr (\<lparr>br_start = i, br_length = 1\<rparr>, ibm)"
      "length ibm = length (global_ibmap k)" "bm_used ibm = insert i (bm_used (global_ibmap k))"
    using alloc_least_free [OF i(1,2)] by blast
  show ?thesis
  proof (cases "ftype = 2")
    case True
    then show ?thesis
      using dp(1) fn(1) seek u search cp ibm i(3)
      by (intro exI [of _ ibm] exI [of _ "global_dbmap k"]) (simp add: allocate_inode_def new_inode_def)
  next
    case False
    obtain dbm where "alloc_bitrange (global_dbmap k) MAP_CAPACITY 1 False = Inr (\<lparr>br_start = b, br_length = 1\<rparr>, dbm)"
        "length dbm = length (global_dbmap k)" "bm_used dbm = insert b (bm_used (global_dbmap k))"
      using alloc_least_free [of "global_dbmap k" b] b [OF False] by blast
    then show ?thesis
      using False dp(1) fn(1) seek u search cp ibm i(3)
      by (intro exI [of _ ibm] exI [of _ dbm]) (simp add: allocate_inode_def new_inode_def)
  qed
qed

text \<open>When a file can be created: its directory exists and has room, the name is new, and there are a free
  inode and a free block, of which the lowest are taken.\<close>

definition can_create ::
    "kernel \<Rightarrow> (nat \<Rightarrow> dir_entries) \<Rightarrow> u8 list list \<Rightarrow> u8 list \<Rightarrow> u8 \<Rightarrow> nat \<Rightarrow> nat \<Rightarrow> nat \<Rightarrow> bool" where
  "can_create k dirs cs nm ftype d i b \<longleftrightarrow>
     heap_inv (heap k) \<and> (\<forall>x \<in> set cs. comp_ok x) \<and> comp_ok nm \<and> path_ok k dirs 0 cs \<and> resolve dirs 0 cs = Some d \<and>
     dir_of k d (dirs d) \<and> map_of (dirs d) nm = None \<and> length (dirs d) < 113 \<and> d \<in> bm_used (global_ibmap k) \<and>
     least_free (global_ibmap k) i \<and> length (global_ibmap k) = 1024 \<and> i < length (global_inode_table k) \<and>
     (ftype \<noteq> 2 \<longrightarrow> least_free (global_dbmap k) b \<and> length (global_dbmap k) = 1024)"

text \<open>What creating changes: \<open>created\<close> relates the states before and after.\<close>

definition created :: "kernel \<Rightarrow> dir_entries \<Rightarrow> u8 list \<Rightarrow> u8 \<Rightarrow> nat \<Rightarrow> nat \<Rightarrow> nat \<Rightarrow> kernel \<Rightarrow> bool" where
  "created k es nm ftype d i b k' \<longleftrightarrow>
     dir_of k' d (es @ [(nm, i)]) \<and> i \<noteq> d \<and>
     global_inode_table k' =
       (global_inode_table k)[i := new_inode nm ftype b d, d := (global_inode_table k ! d)\<lparr>i_size := 36 * Suc (length es)\<rparr>] \<and>
     (\<forall>c. c \<noteq> disk_block (data_block_start (global_inode_table k ! d)) \<longrightarrow> disk k' c = disk k c) \<and>
     bm_used (global_ibmap k') = insert i (bm_used (global_ibmap k)) \<and>
     bm_used (global_dbmap k') = (if ftype = 2 then bm_used (global_dbmap k) else insert b (bm_used (global_dbmap k))) \<and>
     length (global_ibmap k') = length (global_ibmap k) \<and> length (global_dbmap k') = length (global_dbmap k) \<and> sys_fds k' = sys_fds k"

lemma created_cong:
  assumes "created k es nm ftype d i b k1" and "global_inode_table k2 = global_inode_table k1" and "disk k2 = disk k1"
    and "global_ibmap k2 = global_ibmap k1" and "global_dbmap k2 = global_dbmap k1" and "sys_fds k2 = sys_fds k1"
  shows "created k es nm ftype d i b k2"
  using assms dir_of_cong [OF assms(2,3)] by (simp add: created_def)

lemma create_to_link:
  assumes can: "can_create k dirs cs nm ftype d i b" and c: "cstr_at path off (47 # join_path cs @ nm)"
    and len: "length (47 # join_path cs @ nm) < 4294967295" and room: "path_room k (length (47 # join_path cs @ nm) + 1) dp fn h2"
  obtains m k2 k3 where "Path k path off = Inr (\<lparr>dir_path = dp, filename = fn\<rparr>, k\<lparr>heap := h2, hmem := m\<rparr>)"
    and "allocate_inode (k\<lparr>heap := h2, hmem := m\<rparr>) \<lparr>dir_path = dp, filename = fn\<rparr> ftype (ftype \<noteq> 2) =
      Inr (\<lparr>valid = True, file_inode_num = i, dir_inode_num = d\<rparr>, k2)"
    and "link_file_in_dir k2 d i = Inr k3" and "heap k3 = h2" and "hmem k3 = m" and "length m = length (hmem k)" and "cstr_at m (fn - bottom (heap k)) nm"
    and "fd_bitmap k3 = fd_bitmap k" and "fd_entries k3 = fd_entries k"
    and "created k (dirs d) nm ftype d i b k3"
proof -
  have inv: "heap_inv (heap k)" and nm: "47 \<notin> set nm" "length nm < 32" "0 \<notin> set nm" and cs: "\<forall>x \<in> set cs. comp_ok x"
    "path_ok k dirs 0 cs" "resolve dirs 0 cs = Some d"
    and d: "dir_of k d (dirs d)" "map_of (dirs d) nm = None" "length (dirs d) < 113" "d \<in> bm_used (global_ibmap k)"
    and i: "least_free (global_ibmap k) i" "length (global_ibmap k) = 1024" "i < length (global_inode_table k)"
    and b: "ftype \<noteq> 2 \<Longrightarrow> least_free (global_dbmap k) b \<and> length (global_dbmap k) = 1024"
    using can by (auto simp: can_create_def comp_ok_def name_ok_def)
  note P = Path_room [OF inv c nm(1) len room]
  obtain m where m: "Path k path off = Inr (\<lparr>dir_path = dp, filename = fn\<rparr>, k\<lparr>heap := h2, hmem := m\<rparr>)"
      "cstr_at m (dp - bottom (heap k)) (47 # join_path cs)" "cstr_at m (fn - bottom (heap k)) nm" "length m = length (hmem k)"
    using P(1) by blast
  let ?k1 = "k\<lparr>heap := h2, hmem := m\<rparr>"
  obtain ibm dbm where ai: "allocate_inode ?k1 \<lparr>dir_path = dp, filename = fn\<rparr> ftype (ftype \<noteq> 2) =
      Inr (\<lparr>valid = True, file_inode_num = i, dir_inode_num = d\<rparr>,
           ?k1\<lparr>error_msg := ''src/fs.c:183: error:couldn't trace path'', global_ibmap := ibm, global_dbmap := dbm,
             global_inode_table := (global_inode_table ?k1)[i := new_inode nm ftype b d],
             global_super := (global_super ?k1)\<lparr>used_inodes := w32 (used_inodes (global_super ?k1) + 1)\<rparr>\<rparr>)"
    and ibm: "bm_used ibm = insert i (bm_used (global_ibmap k))" "length ibm = length (global_ibmap k)"
    and dbm: "length dbm = length (global_dbmap k)" "bm_used dbm = (if ftype = 2 then bm_used (global_dbmap k) else insert b (bm_used (global_dbmap k)))"
    using allocate_inode_ok [of ?k1 "\<lparr>dir_path = dp, filename = fn\<rparr>" "dp - bottom (heap k)" cs "fn - bottom (heap k)" nm dirs d i ftype b]
      P(2,3) m(2,3) cs d nm i b path_ok_cong [of ?k1 k dirs 0 cs] dir_of_cong [of ?k1 k d "dirs d"] by auto
  let ?k2 = "?k1\<lparr>error_msg := ''src/fs.c:183: error:couldn't trace path'', global_ibmap := ibm, global_dbmap := dbm,
             global_inode_table := (global_inode_table ?k1)[i := new_inode nm ftype b d],
             global_super := (global_super ?k1)\<lparr>used_inodes := w32 (used_inodes (global_super ?k1) + 1)\<rparr>\<rparr>"
  have id: "i \<noteq> d" using d(4) i(1) by (auto simp: least_free_def)
  have d2: "dir_of ?k2 d (dirs d)" using d(1) id by (simp add: dir_of_def read_block_def)
  have nmi: "cstr_at (i_name (global_inode_table ?k2 ! i)) 0 nm"
    using i(3) nm cstr_at_overlay [of nm 0 "replicate 32 0"] by (simp add: new_inode_def)
  have ilt: "i < 4294967296" using i(1,2) by (simp add: least_free_def)
  obtain k3 blk where lk: "link_file_in_dir ?k2 d i = Inr k3" "dir_of k3 d (dirs d @ [(nm, i)])"
    and k3: "k3 = ?k2\<lparr>global_inode_table := (global_inode_table ?k2)[d := (global_inode_table ?k2 ! d)\<lparr>i_size := 36 * Suc (length (dirs d))\<rparr>],
           disk := (disk ?k2)(disk_block (data_block_start (global_inode_table ?k2 ! d)) := blk)\<rparr>"
    using link_file_in_dir_of [OF d2 d(3) _ ilt nmi nm(2)] i(3) by auto
  have "created k (dirs d) nm ftype d i b k3" using lk(2) k3 id ibm dbm by (simp add: created_def)
  then show thesis using that [OF m(1) ai lk(1)] k3 m(3,4) by simp
qed

lemma create_filetype_ok:
  assumes can: "can_create k dirs cs nm ftype d i b" and c: "cstr_at path off (47 # join_path cs @ nm)"
    and len: "length (47 # join_path cs @ nm) < 4294967295" and room: "path_room k (length (47 # join_path cs @ nm) + 1) dp fn h2"
  shows "\<exists>k'. create_filetype k path off ftype False = Inr (0, k') \<and> created k (dirs d) nm ftype d i b k' \<and>
    heap_inv (heap k') \<and> heap_live (heap k') = heap_live (heap k) \<and> length (hmem k') = length (hmem k) \<and>
    fd_bitmap k' = fd_bitmap k \<and> fd_entries k' = fd_entries k"
proof -
  have inv: "heap_inv (heap k)" and nm: "47 \<notin> set nm" using can by (auto simp: can_create_def comp_ok_def)
  obtain h3 h4 where fr: "kfree h2 dp = Inr h3" "kfree h3 fn = Inr h4" "heap_inv h4" "heap_live h4 = heap_live (heap k)"
    using Path_room(4) [OF inv c nm len room] by blast
  obtain m k2 k3 where st: "Path k path off = Inr (\<lparr>dir_path = dp, filename = fn\<rparr>, k\<lparr>heap := h2, hmem := m\<rparr>)"
    "allocate_inode (k\<lparr>heap := h2, hmem := m\<rparr>) \<lparr>dir_path = dp, filename = fn\<rparr> ftype (ftype \<noteq> 2) =
      Inr (\<lparr>valid = True, file_inode_num = i, dir_inode_num = d\<rparr>, k2)"
    "link_file_in_dir k2 d i = Inr k3" "heap k3 = h2" "hmem k3 = m" "length m = length (hmem k)" "cstr_at m (fn - bottom (heap k)) nm" "fd_bitmap k3 = fd_bitmap k" "fd_entries k3 = fd_entries k"
    and cr: "created k (dirs d) nm ftype d i b k3"
    by (rule create_to_link [OF can c len room])
  have "rd path off = Inr 47" using cstr_at_nth(1) [OF c] cstr_at_nth(2) [OF c, of 0] by simp
  then have "create_filetype k path off ftype False = Inr (0, k3\<lparr>heap := h4\<rparr>)"
    using st fr by (simp add: create_filetype_def free_path_def)
  then show ?thesis using created_cong [OF cr, of "k3\<lparr>heap := h4\<rparr>"] fr(3,4) st(5-) by simp
qed

section \<open>Opening a file\<close>

text \<open>The descriptor \<open>fd\<close> is the lowest free one; \<open>opened\<close> relates the states before and after it was taken
  for inode \<open>ino\<close>.\<close>

definition new_descriptor :: "u8 list \<Rightarrow> nat \<Rightarrow> nat \<Rightarrow> FileDescriptorEntry" where
  "new_descriptor nm ino fd =
     \<lparr>fd_name = overlay 0 (nm @ [0]) (replicate 32 0), inode_num = ino, read_pos = 0, write_pos = 0, fd_index = fd\<rparr>"

definition next_descriptor :: "kernel \<Rightarrow> nat \<Rightarrow> bool" where
  "next_descriptor k fd \<longleftrightarrow> least_free (fd_bitmap k) fd \<and> length (fd_bitmap k) = 1 \<and> length (fd_entries k) = 32"

definition opened :: "kernel \<Rightarrow> u8 list \<Rightarrow> nat \<Rightarrow> nat \<Rightarrow> kernel \<Rightarrow> bool" where
  "opened k nm ino fd k' \<longleftrightarrow> fd_entries k' = (fd_entries k)[fd := new_descriptor nm ino fd] \<and>
     bm_used (fd_bitmap k') = insert fd (bm_used (fd_bitmap k)) \<and> length (fd_bitmap k') = length (fd_bitmap k)"

lemma allocate_file_descriptor_ok:
  assumes "heap_off (heap k) fname = Inr f" and "cstr_at (hmem k) f nm" and "length nm < 32" and "next_descriptor k fd"
  shows "\<exists>bm. allocate_file_descriptor k ino fname =
      Inr (int fd, k\<lparr>fd_bitmap := bm, fd_entries := (fd_entries k)[fd := new_descriptor nm ino fd]\<rparr>) \<and>
    length bm = 1 \<and> bm_used bm = insert fd (bm_used (fd_bitmap k))"
proof -
  have lf: "least_free (fd_bitmap k) fd" "length (fd_bitmap k) = 1" "length (fd_entries k) = 32"
    using assms(4) by (simp_all add: next_descriptor_def)
  obtain bm where "alloc_bitrange (fd_bitmap k) MAP_CAPACITY 1 False = Inr (\<lparr>br_start = fd, br_length = 1\<rparr>, bm)"
      "length bm = 1" "bm_used bm = insert fd (bm_used (fd_bitmap k))"
    using alloc_least_free [OF lf(1)] lf(2) by auto
  moreover have "strcpy (replicate 32 0) 0 (hmem k) f = Inr (overlay 0 (nm @ [0]) (replicate 32 0))"
    using strcpy_cstr [OF assms(2), of 0 "replicate 32 0"] assms(3) by simp
  moreover have "fd < 32" using lf by (simp add: least_free_def)
  ultimately show ?thesis
    using assms(1) lf(3) by (intro exI [of _ bm]) (simp add: allocate_file_descriptor_def new_descriptor_def s32_def)
qed

lemma create_filetype_fd_ok:
  assumes can: "can_create k dirs cs nm ftype d i b" and c: "cstr_at path off (47 # join_path cs @ nm)"
    and len: "length (47 # join_path cs @ nm) < 4294967295" and room: "path_room k (length (47 # join_path cs @ nm) + 1) dp fn h2"
    and fd: "next_descriptor k fd"
  shows "\<exists>k'. create_filetype k path off ftype True = Inr (int fd, k') \<and> created k (dirs d) nm ftype d i b k' \<and>
    opened k nm i fd k' \<and> heap_inv (heap k') \<and> heap_live (heap k') = heap_live (heap k) \<and> length (hmem k') = length (hmem k)"
proof -
  have inv: "heap_inv (heap k)" and nm: "47 \<notin> set nm" "length nm < 32" using can by (auto simp: can_create_def comp_ok_def name_ok_def)
  note P = Path_room [OF inv c nm(1) len room]
  obtain h3 h4 where fr: "kfree h2 dp = Inr h3" "kfree h3 fn = Inr h4" "heap_inv h4" "heap_live h4 = heap_live (heap k)"
    using P(4) by blast
  obtain m k2 k3 where st: "Path k path off = Inr (\<lparr>dir_path = dp, filename = fn\<rparr>, k\<lparr>heap := h2, hmem := m\<rparr>)"
    "allocate_inode (k\<lparr>heap := h2, hmem := m\<rparr>) \<lparr>dir_path = dp, filename = fn\<rparr> ftype (ftype \<noteq> 2) =
      Inr (\<lparr>valid = True, file_inode_num = i, dir_inode_num = d\<rparr>, k2)"
    "link_file_in_dir k2 d i = Inr k3"
    and k3: "heap k3 = h2" "hmem k3 = m" "length m = length (hmem k)" "cstr_at m (fn - bottom (heap k)) nm" "fd_bitmap k3 = fd_bitmap k" "fd_entries k3 = fd_entries k"
    and cr: "created k (dirs d) nm ftype d i b k3"
    by (rule create_to_link [OF can c len room])
  obtain bm where bm: "allocate_file_descriptor k3 i fn =
      Inr (int fd, k3\<lparr>fd_bitmap := bm, fd_entries := (fd_entries k3)[fd := new_descriptor nm i fd]\<rparr>)"
      "length bm = 1" "bm_used bm = insert fd (bm_used (fd_bitmap k3))"
    using allocate_file_descriptor_ok [of k3 fn "fn - bottom (heap k)" nm fd i] P(3) k3 nm(2) fd
    by (auto simp: next_descriptor_def)
  have "rd path off = Inr 47" using cstr_at_nth(1) [OF c] cstr_at_nth(2) [OF c, of 0] by simp
  then have "create_filetype k path off ftype True =
      Inr (int fd, k3\<lparr>fd_bitmap := bm, fd_entries := (fd_entries k3)[fd := new_descriptor nm i fd], heap := h4\<rparr>)" (is "_ = Inr (_, ?k')")
    using st k3 fr bm(1) by (simp add: create_filetype_def free_path_def)
  moreover have "opened k nm i fd ?k'" using bm(2,3) k3 fd by (simp add: opened_def next_descriptor_def)
  ultimately show ?thesis using created_cong [OF cr, of ?k'] fr(3,4) k3 by simp
qed

lemma open_file_ok:
  assumes inv: "heap_inv (heap k)" and c: "cstr_at path off (47 # join_path cs @ nm)" and nm: "47 \<notin> set nm" "length nm < 32"
    and len: "length (47 # join_path cs @ nm) < 4294967295" and room: "path_room k (length (47 # join_path cs @ nm) + 1) dp fn h2"
    and cs: "\<forall>x \<in> set cs. comp_ok x" "path_ok k dirs 0 cs" "resolve dirs 0 cs = Some d"
    and d: "dir_of k d (dirs d)" and fd: "next_descriptor k fd" and small: "\<And>i. map_of (dirs d) nm = Some i \<Longrightarrow> i < 2147483648"
  shows "\<exists>m h k'. k' = k\<lparr>heap := h, hmem := m\<rparr> \<and> heap_inv h \<and> heap_live h = heap_live (heap k) \<and> length m = length (hmem k) \<and>
    (case map_of (dirs d) nm of
       None \<Rightarrow> open_file k path off = Inr (- 1, PUSH_ERROR ''src/fs.c:388: error:file doesn't exist'' k')
     | Some i \<Rightarrow> \<exists>bm. open_file k path off =
         Inr (int fd, k'\<lparr>fd_bitmap := bm, fd_entries := (fd_entries k)[fd := new_descriptor nm i fd]\<rparr>) \<and>
         length bm = 1 \<and> bm_used bm = insert fd (bm_used (fd_bitmap k)))"
proof -
  note P = Path_room [OF inv c nm(1) len room]
  obtain h3 h4 where fr: "kfree h2 dp = Inr h3" "kfree h3 fn = Inr h4" "heap_inv h4" "heap_live h4 = heap_live (heap k)"
    using P(4) by blast
  obtain m where m: "Path k path off = Inr (\<lparr>dir_path = dp, filename = fn\<rparr>, k\<lparr>heap := h2, hmem := m\<rparr>)"
      "cstr_at m (dp - bottom (heap k)) (47 # join_path cs)" "cstr_at m (fn - bottom (heap k)) nm" "length m = length (hmem k)"
    using P(1) by blast
  let ?k1 = "k\<lparr>heap := h2, hmem := m\<rparr>"
  have dlt: "d < 2147483648" "d < length (global_inode_table k)" "file_type (global_inode_table k ! d) = 0"
    using resolve_small [OF cs(2,3)] d(1) by (simp_all add: dir_of_def)
  have "seek_directory ?k1 m (dp - bottom (heap k)) = Inr (s32 d, ?k1)"
    using seek_directory_resolves [OF m(2) cs(1), of ?k1 dirs] path_ok_cong [of ?k1 k dirs 0 cs] cs dlt by simp
  moreover have "u32_of_int (s32 d) = d" using dlt(1) by (simp add: s32_def u32_of_int_def)
  moreover have "search_dir ?k1 d m (fn - bottom (heap k)) =
      Inr (case map_of (dirs d) nm of Some i \<Rightarrow> (s32 i, ?k1) | None \<Rightarrow> (- 1, PUSH_ERROR ''src/fs.c:183: error:couldn't trace path'' ?k1))"
    using search_dir_of [OF _ m(3), of ?k1 d "dirs d"] d dir_of_cong [of ?k1 k d "dirs d"] by simp
  ultimately have op: "open_file k path off = (case map_of (dirs d) nm of
      None \<Rightarrow> Inr (- 1, PUSH_ERROR ''src/fs.c:388: error:file doesn't exist'' (k\<lparr>heap := h4, hmem := m\<rparr>))
    | Some i \<Rightarrow> obind (allocate_file_descriptor ?k1 i fn) (\<lambda>(fd_ix, k4).
        obind (free_path k4 \<lparr>dir_path = dp, filename = fn\<rparr>) (\<lambda>k5. Inr (fd_ix, k5))))"
    using m(1) P(2,3) small fr
    by (auto simp: open_file_def free_path_def PUSH_ERROR_def s32_def u32_of_int_def split: option.splits)
  show ?thesis
  proof (cases "map_of (dirs d) nm")
    case None
    then show ?thesis using op fr(3,4) m(4) by auto
  next
    case (Some i)
    obtain bm where bm: "allocate_file_descriptor ?k1 i fn =
        Inr (int fd, ?k1\<lparr>fd_bitmap := bm, fd_entries := (fd_entries k)[fd := new_descriptor nm i fd]\<rparr>)"
        "length bm = 1" "bm_used bm = insert fd (bm_used (fd_bitmap k))"
      using allocate_file_descriptor_ok [of ?k1 fn "fn - bottom (heap k)" nm fd i] P(3) m(3) nm(2) fd by (auto simp: next_descriptor_def)
    then show ?thesis
      using op Some fr m(4) by (intro exI [of _ m] exI [of _ h4]) (auto simp: free_path_def intro!: exI [of _ bm])
  qed
qed

section \<open>Properties\<close>

text \<open>A freshly formatted disk before the special files exist: the root directory is inode 0 with data block 8,
  the first nine blocks are in use. Used by the concrete instances below.\<close>

definition zero_inode :: FileSystemInode where
  "zero_inode = \<lparr>i_name = replicate 32 0, file_type = 0, data_block_start = 0, i_size = 0, parent_inode_num = 0\<rparr>"

definition root_inode :: FileSystemInode where
  "root_inode = zero_inode\<lparr>data_block_start := 8\<rparr>"

definition zero_descriptor :: FileDescriptorEntry where
  "zero_descriptor = \<lparr>fd_name = replicate 32 0, inode_num = 0, read_pos = 0, write_pos = 0, fd_index = 0\<rparr>"

definition root_kernel :: kernel where
  "root_kernel =
     \<lparr>global_super = \<lparr>format_indicator = cstr_of ''Yorha'' @ replicate 11 0, disk_size = 262144, sector_count = 512, block_count = 64,
        i_bmap_start = 1, d_bmap_start = 2, inode_table_start = 3, used_inodes = 1, data_start = 8\<rparr>,
      global_ibmap = 0x80000000 # replicate 1023 0, global_dbmap = 0xFF800000 # replicate 1023 0,
      global_inode_table = root_inode # replicate 425 zero_inode, table_tail = replicate 32 0,
      fd_bitmap = [0], fd_entries = replicate 32 zero_descriptor, error_msg = [], sys_fds = [- 1, - 1],
      disk = (\<lambda>_. replicate 4096 0), heap = fresh_heap 0x400000, hmem = replicate 4096 0,
      kbd = zero_ring, tty = zero_terminal,
      screen = (\<lparr>terminal_row = 0, terminal_column = 0, terminal_color = 7, terminal_buffer = replicate 2048 0\<rparr>, [])\<rparr>"

lemma bm_bit_head: "p < 32 * Suc n \<Longrightarrow> bm_bit (wd # replicate n 0) p \<longleftrightarrow> p < 32 \<and> bit wd (31 - p)"
  by (cases "p < 32") (simp_all add: bm_bit_def nth_Cons' div_less_iff_less_mult not_less le_div_geq)

lemma root_kernel_maps:
  "bm_used (global_ibmap root_kernel) = {0}" "bm_used (global_dbmap root_kernel) = {..< 9}"
  "least_free (global_ibmap root_kernel) 1" "least_free (global_dbmap root_kernel) 9" "next_descriptor root_kernel 0"
proof -
  have b32: "p < 32 \<longleftrightarrow> p \<in> set [0 ..< 32]" for p :: nat by simp
  have i0: "p < 32 \<Longrightarrow> bit (0x80000000 :: u32) (31 - p) \<longleftrightarrow> p = 0" for p :: nat
    unfolding b32 by (auto simp: upt_rec)
  have "bm_bit (0x80000000 # replicate 1023 0) p \<longleftrightarrow> p = 0" if "p < 32768" for p
  proof -
    have "bm_bit (0x80000000 # replicate 1023 0) p \<longleftrightarrow> p < 32 \<and> bit (0x80000000 :: u32) (31 - p)" using bm_bit_head [of p 1023] that by simp
    then show ?thesis using i0 [of p] by linarith
  qed
  then show i: "bm_used (global_ibmap root_kernel) = {0}" by (auto simp: root_kernel_def bm_used_def)
  have d0: "p < 32 \<Longrightarrow> bit (0xFF800000 :: u32) (31 - p) \<longleftrightarrow> p < 9" for p :: nat
    unfolding b32 by (auto simp: upt_rec)
  have "bm_bit (0xFF800000 # replicate 1023 0) p \<longleftrightarrow> p < 9" if "p < 32768" for p
  proof -
    have "bm_bit (0xFF800000 # replicate 1023 0) p \<longleftrightarrow> p < 32 \<and> bit (0xFF800000 :: u32) (31 - p)" using bm_bit_head [of p 1023] that by simp
    then show ?thesis using d0 [of p] by linarith
  qed
  then show d: "bm_used (global_dbmap root_kernel) = {..< 9}" by (auto simp: root_kernel_def bm_used_def)
  show "least_free (global_ibmap root_kernel) 1" "least_free (global_dbmap root_kernel) 9"
    using i d by (simp_all add: least_free_def root_kernel_def)
  show "next_descriptor root_kernel 0"
    by (simp add: next_descriptor_def least_free_def root_kernel_def bm_used_def bm_bit_def)
qed

lemma root_kernel_dir: "dir_of root_kernel 0 []"
  by (simp add: dir_of_def root_kernel_def root_inode_def zero_inode_def dir_rep_def read_block_def)

lemma root_kernel_heap: "heap_inv (heap root_kernel)" "heap_live (heap root_kernel) = (\<lambda>_. None)" "length (hmem root_kernel) = 4096"
  by (simp_all add: root_kernel_def heap_inv_fresh)

lemma root_kernel_table: "length (global_inode_table root_kernel) = 426" "length (global_ibmap root_kernel) = 1024" "length (global_dbmap root_kernel) = 1024"
  by (simp_all add: root_kernel_def)

lemma root_kernel_room: "0 < n \<Longrightarrow> n < 2000 \<Longrightarrow> \<exists>dp fn h2. path_room root_kernel n dp fn h2"
  using path_room_empty [OF root_kernel_heap(1,2), of n] root_kernel_heap(3) by simp

text \<open>The same disk with one empty file \<open>/a\<close>, open as descriptor 0.\<close>

definition file_kernel :: kernel where
  "file_kernel = root_kernel\<lparr>global_inode_table := (global_inode_table root_kernel)[1 := new_inode [97] 1 9 0],
     fd_bitmap := [0x80000000], fd_entries := (fd_entries root_kernel)[0 := new_descriptor [97] 1 0]\<rparr>"

lemma file_kernel_fd:
  "plain_fd file_kernel 0 1" "file_size file_kernel 1 = 0" "length (fd_bitmap file_kernel) = 1" "0 \<in> bm_used (fd_bitmap file_kernel)"
  "fd_entries file_kernel ! 0 = new_descriptor [97] 1 0" "length (fd_entries file_kernel) = 32" "global_inode_table file_kernel ! 1 = new_inode [97] 1 9 0"
  by (simp_all add: file_kernel_def root_kernel_def plain_fd_def file_size_def new_descriptor_def new_inode_def
      read_block_def bm_used_def bm_bit_def)

text \<open>C13: What \<open>write\<close> puts into a file, \<open>read\<close> returns: after writing \<open>cnt\<close> bytes at the position \<open>p\<close> (not past the
  end of the file, and with room left in its block) and seeking back to \<open>p\<close>, reading \<open>cnt\<close> bytes succeeds and delivers
  exactly those bytes; the bytes before \<open>p\<close> and all other blocks of the disk are as before.\<close>

theorem write_seek_read_roundtrip:
  assumes fd: "plain_fd k fd f" "fd \<in> bm_used (fd_bitmap k)" "length (fd_bitmap k) = 1" "write_pos (fd_entries k ! fd) = p"
    and size: "p \<le> file_size k f" "file_size k f + cnt \<le> 4096" and len: "cnt \<le> length data" "cnt \<le> length buf"
  shows "\<exists>k1 k2 k3 buf'. write_file w k (int fd) data cnt = Inr (cnt, k1) \<and> seek k1 (int fd) (int p) SEEK_SET = Inr (int p, k2) \<and>
    read_file w k2 (int fd) buf cnt = Inr (cnt, buf', k3) \<and> take cnt buf' = take cnt data \<and>
    take p (file_block k3 f) = take p (file_block k f) \<and> file_size k3 f = file_size k f + cnt \<and>
    (\<forall>c. c \<noteq> disk_block (data_block_start (global_inode_table k ! f)) \<longrightarrow> disk k3 c = disk k c)"
proof -
  let ?b = "data_block_start (global_inode_table k ! f)" and ?blk = "overlay p (take cnt data) (file_block k f)"
  let ?e1 = "(fd_entries k ! fd)\<lparr>write_pos := p + cnt\<rparr>"
  let ?k1 = "write_block ?b ?blk (fd_set (k\<lparr>global_inode_table := (global_inode_table k)[f := (global_inode_table k ! f)
    \<lparr>i_size := file_size k f + cnt\<rparr>]\<rparr>) (int fd) ?e1)"
  let ?k2 = "fd_set ?k1 (int fd) (?e1\<lparr>read_pos := p, write_pos := p\<rparr>)"
  have f: "fd < length (fd_entries k)" "f < length (global_inode_table k)" "length (file_block k f) = 4096"
    using fd(1) by (simp_all add: plain_fd_def file_block_def)
  have wr: "write_file w k (int fd) data cnt = Inr (cnt, ?k1)"
    using write_file_plain [OF fd(1) _ len(1) fd(4)] size by simp
  have sk: "seek ?k1 (int fd) (int p) SEEK_SET = Inr (int p, ?k2)"
    using seek_set [of fd ?k1 p] f fd(2,3) size by (simp add: fd_set_def write_block_def)
  have blk: "file_block ?k2 f = ?blk" "file_size ?k2 f = file_size k f + cnt" "read_pos (fd_entries ?k2 ! fd) = p"
    using f by (simp_all add: file_block_def file_size_def fd_set_def write_block_def read_block_def)
  have "plain_fd ?k2 fd f" using fd(1) f len size
    by (simp add: plain_fd_def fd_set_def write_block_def read_block_def file_block_def)
  moreover have "take cnt (drop p ?blk) = take cnt data"
    using take_drop_overlay_same [of p "take cnt data" "file_block k f"] len size f by (simp add: min_absorb2)
  moreover have "min (file_size ?k2 f - p) cnt = cnt" using blk(2) size by simp
  ultimately have "read_file w ?k2 (int fd) buf cnt =
      Inr (cnt, overlay 0 (take cnt data) buf, fd_set ?k2 (int fd) ((fd_entries ?k2 ! fd)\<lparr>read_pos := p + cnt\<rparr>))" (is "_ = Inr (_, ?buf, ?k3)")
    using read_file_plain [of ?k2 fd f cnt buf p w] blk size len unfolding Let_def by simp
  moreover have "take cnt ?buf = take cnt data" using take_drop_overlay_same [of 0 "take cnt data" buf] len by (simp add: min_absorb2)
  moreover have "take p ?blk = take p (file_block k f)" using size f by (simp add: overlay_def)
  moreover have "file_block ?k3 f = ?blk" "file_size ?k3 f = file_size k f + cnt" "c \<noteq> disk_block ?b \<Longrightarrow> disk ?k3 c = disk k c" for c
    using blk(1,2) by (simp_all add: file_block_def file_size_def fd_set_def write_block_def read_block_def)
  ultimately show ?thesis using wr sk by (intro exI conjI) (assumption | simp)+
qed

theorem write_seek_read_roundtrip_witness:
  "\<forall>w. \<exists>k1 k2 k3 buf'. write_file w file_kernel 0 [72, 105] 2 = Inr (2, k1) \<and> seek k1 0 0 SEEK_SET = Inr (0, k2) \<and>
     read_file w k2 0 [1, 2, 3] 2 = Inr (2, buf', k3) \<and> take 2 buf' = [72, 105] \<and> file_size k3 1 = 2"
proof
  fix w
  obtain k1 k2 k3 buf' where "write_file w file_kernel 0 [72, 105] 2 = Inr (2, k1)" "seek k1 0 0 SEEK_SET = Inr (0, k2)"
    "read_file w k2 0 [1, 2, 3] 2 = Inr (2, buf', k3)" "take 2 buf' = [72, 105]" "file_size k3 1 = 2"
    using write_seek_read_roundtrip [OF file_kernel_fd(1,4,3), of 0 2 "[72, 105]" "[1, 2, 3]" w] file_kernel_fd(2,5)
    by (auto simp: new_descriptor_def numeral_2_eq_2)
  then show "\<exists>k1 k2 k3 buf'. write_file w file_kernel 0 [72, 105] 2 = Inr (2, k1) \<and> seek k1 0 0 SEEK_SET = Inr (0, k2) \<and>
     read_file w k2 0 [1, 2, 3] 2 = Inr (2, buf', k3) \<and> take 2 buf' = [72, 105] \<and> file_size k3 1 = 2" by blast
qed

text \<open>C39: \<open>write\<close> adds the number of bytes written to the size even where it overwrites: rewriting a file from
  position 0 makes it longer, and once the size exceeds the block a read of the whole file indexes past the
  4096-byte buffer \<open>data_block_buf\<close>.\<close>

theorem overwriting_grows_file:
  assumes fd: "plain_fd k fd f" "write_pos (fd_entries k ! fd) = 0" "read_pos (fd_entries k ! fd) = 0"
    and size: "file_size k f \<le> 4096" "cnt \<le> 4096" "4096 < file_size k f + cnt" and len: "cnt \<le> length data" "4096 < n" "n \<le> length buf"
  shows "\<exists>k1. write_file w k (int fd) data cnt = Inr (cnt, k1) \<and> file_size k1 f = file_size k f + cnt \<and>
    read_file w k1 (int fd) buf n = Inl Out_of_bounds"
proof -
  let ?k1 = "write_block (data_block_start (global_inode_table k ! f)) (overlay 0 (take cnt data) (file_block k f))
    (fd_set (k\<lparr>global_inode_table := (global_inode_table k)[f := (global_inode_table k ! f)\<lparr>i_size := file_size k f + cnt\<rparr>]\<rparr>)
      (int fd) ((fd_entries k ! fd)\<lparr>write_pos := 0 + cnt\<rparr>))"
  have f: "fd < length (fd_entries k)" "f < length (global_inode_table k)" "length (file_block k f) = 4096"
    "file_type (global_inode_table k ! f) \<noteq> 2" "inode_num (fd_entries k ! fd) = f"
    using fd(1) by (simp_all add: plain_fd_def file_block_def)
  have "write_file w k (int fd) data cnt = Inr (cnt, ?k1)" using write_file_plain [OF fd(1) _ len(1) fd(2)] size by simp
  moreover have "read_loop (overlay 0 (take cnt data) (file_block k f)) (file_size k f + cnt) n 0 0 buf = Inl Out_of_bounds"
    using f(3) size len by (intro read_loop_overrun) simp_all
  then have "read_file w ?k1 (int fd) buf n = Inl Out_of_bounds"
    using f fd(3) by (simp add: read_file_def fd_rd_def fd_set_def write_block_def read_block_def)
  moreover have "file_size ?k1 f = file_size k f + cnt" using f(2) by (simp add: file_size_def fd_set_def write_block_def)
  ultimately show ?thesis by blast
qed

text \<open>The file \<open>/a\<close> with 4096 bytes in it.\<close>

definition full_kernel :: kernel where
  "full_kernel = file_kernel\<lparr>global_inode_table := (global_inode_table file_kernel)[1 := (new_inode [97] 1 9 0)\<lparr>i_size := 4096\<rparr>]\<rparr>"

theorem overwriting_grows_file_witness:
  "\<forall>w. \<exists>k1. write_file w full_kernel 0 [88] 1 = Inr (1, k1) \<and> file_size k1 1 = 4097 \<and>
     read_file w k1 0 (replicate 5000 0) 4097 = Inl Out_of_bounds"
proof
  fix w
  have "plain_fd full_kernel 0 1" "file_size full_kernel 1 = 4096" "fd_entries full_kernel ! 0 = new_descriptor [97] 1 0"
    using file_kernel_fd by (simp_all add: full_kernel_def plain_fd_def file_size_def new_inode_def read_block_def)
  then show "\<exists>k1. write_file w full_kernel 0 [88] 1 = Inr (1, k1) \<and> file_size k1 1 = 4097 \<and>
     read_file w k1 0 (replicate 5000 0) 4097 = Inl Out_of_bounds"
    using overwriting_grows_file [of full_kernel 0 1 1 "[88]" 4097 "replicate 5000 0" w] by (simp add: new_descriptor_def)
qed

text \<open>Opening a path whose directory does not exist is not reported as an error: \<open>open\<close> uses the -1 of
  \<open>seek_directory\<close> as an inode number and reads outside the inode table.\<close>

theorem open_missing_directory_faults:
  assumes inv: "heap_inv (heap k)" and c: "cstr_at path off (47 # join_path cs @ nm)" and nm: "47 \<notin> set nm"
    and len: "length (47 # join_path cs @ nm) < 4294967295" and room: "path_room k (length (47 # join_path cs @ nm) + 1) dp fn h2"
    and cs: "\<forall>x \<in> set cs. comp_ok x" "path_ok k dirs 0 cs" "resolve dirs 0 cs = None" and tab: "length (global_inode_table k) < 4294967295"
  shows "open_file k path off = Inl Out_of_bounds"
proof -
  note P = Path_room [OF inv c nm len room]
  obtain m where m: "Path k path off = Inr (\<lparr>dir_path = dp, filename = fn\<rparr>, k\<lparr>heap := h2, hmem := m\<rparr>)"
      "cstr_at m (dp - bottom (heap k)) (47 # join_path cs)" "cstr_at m (fn - bottom (heap k)) nm" "length m = length (hmem k)"
    using P(1) by blast
  let ?k1 = "k\<lparr>heap := h2, hmem := m\<rparr>"
  have "seek_directory ?k1 m (dp - bottom (heap k)) = Inr (- 1, PUSH_ERROR ''src/fs.c:122: error:couldn't trace path'' ?k1)"
    using seek_directory_resolves [OF m(2) cs(1), of ?k1 dirs] path_ok_cong [of ?k1 k dirs 0 cs] cs by simp
  then show ?thesis
    using m(1) P(2,3) tab by (simp add: open_file_def search_dir_def PUSH_ERROR_def u32_of_int_def rd_def)
qed

theorem open_missing_directory_faults_witness:
  "open_file root_kernel (cstr_of ''/no/f'' @ [0]) 0 = Inl Out_of_bounds"
proof -
  obtain dp fn h2 where room: "path_room root_kernel 6 dp fn h2" using root_kernel_room [of 6] by auto
  have "cstr_at (cstr_of ''/no/f'' @ [0]) 0 (47 # join_path [cstr_of ''no''] @ cstr_of ''f'')"
    by (simp add: cstring_eval join_path_def)
  moreover have "length (47 # join_path [cstr_of ''no''] @ cstr_of ''f'') = 5" by (simp add: cstring_eval join_path_def)
  ultimately show ?thesis
    using open_missing_directory_faults [OF root_kernel_heap(1), of _ _ "[cstr_of ''no'']" "cstr_of ''f''" dp fn h2 "\<lambda>_. []"]
      room root_kernel_dir root_kernel_table by (simp add: cstring_eval comp_ok_def name_ok_def)
qed

text \<open>\<open>unlink\<close> copies the path into an array of \<open>strlen(path)\<close> bytes: where the compiler sets aside no
  more than was asked for, the terminating null is written past its end, for every path.\<close>

lemma unlink_overruns_path_buffer:
  assumes "cstr_at path off s" and "vla (env w) (length s) \<le> length s" and "\<And>n. length (junk (env w) n) = n"
  shows "unlink w k path off = Inl Out_of_bounds"
  using assms strcpy_no_room [OF assms(1), of 0 "junk (env w) (vla (env w) (length s))"] by (simp add: unlink_def parse_path_def)

definition exact_world :: world where
  "exact_world = \<lparr>hw = \<lparr>hw_inb = (\<lambda>_ _. 0), hw_inw = (\<lambda>_ _. 0)\<rparr>, env = \<lparr>vla = (\<lambda>n. n), junk = (\<lambda>n. replicate n 0)\<rparr>, super_tail = replicate 4044 0,
     inode_pad = replicate 3 0, drive_size = 262144, null_page = None\<rparr>"

end
