(* ===== verification/Fs_Tree.thy ===== *)
theory Fs_Tree
  imports Fs
begin

text \<open>
  The file system as a tree. \<open>tree_ok k dirs\<close> is the invariant of a mounted disk: \<open>dirs\<close> gives the entries of
  every directory in use, each directory block holds exactly them, every file and directory has a data block of its
  own that the data map marks as occupied, and every inode in use other than the root is named at most once. Creating,
  opening, writing and deleting are shown to do on the bytes of the disk what they mean on the tree.
\<close>

section \<open>The invariant\<close>

definition block_of :: "kernel \<Rightarrow> nat \<Rightarrow> nat" where
  "block_of k i = data_block_start (global_inode_table k ! i)"

definition type_of :: "kernel \<Rightarrow> nat \<Rightarrow> u8" where
  "type_of k i = file_type (global_inode_table k ! i)"

definition directories :: "kernel \<Rightarrow> nat set" where
  "directories k = {i \<in> bm_used (global_ibmap k). type_of k i = 0}"

definition with_block :: "kernel \<Rightarrow> nat set" where
  "with_block k = {i \<in> bm_used (global_ibmap k). type_of k i \<noteq> 2}"

definition maps_ok :: "kernel \<Rightarrow> bool" where
  "maps_ok k \<longleftrightarrow> length (global_inode_table k) = 426 \<and> bm_inv 1024 (global_ibmap k) \<and> bm_inv 1024 (global_dbmap k) \<and>
     (\<forall>c. length (disk k c) = 4096) \<and> bm_used (global_ibmap k) \<subseteq> {..< 426}"

definition blocks_ok :: "kernel \<Rightarrow> bool" where
  "blocks_ok k \<longleftrightarrow> inj_on (block_of k) (with_block k) \<and> block_of k ` with_block k \<subseteq> bm_used (global_dbmap k)"

definition names_ok :: "nat set \<Rightarrow> nat set \<Rightarrow> (nat \<Rightarrow> dir_entries) \<Rightarrow> bool" where
  "names_ok D U dirs \<longleftrightarrow> (\<forall>i \<in> D. distinct (map fst (dirs i)) \<and> distinct (map snd (dirs i)) \<and> snd ` set (dirs i) \<subseteq> U - {0}) \<and>
     (\<forall>i \<in> D. \<forall>j \<in> D. i \<noteq> j \<longrightarrow> snd ` set (dirs i) \<inter> snd ` set (dirs j) = {})"

definition tree_ok :: "kernel \<Rightarrow> (nat \<Rightarrow> dir_entries) \<Rightarrow> bool" where
  "tree_ok k dirs \<longleftrightarrow> maps_ok k \<and> blocks_ok k \<and> 0 \<in> directories k \<and> (\<forall>i \<in> directories k. dir_of k i (dirs i)) \<and>
     names_ok (directories k) (bm_used (global_ibmap k)) dirs"

lemma directories_with_block: "directories k \<subseteq> with_block k"
  by (auto simp: directories_def with_block_def)

lemma used_block_small: "maps_ok k \<Longrightarrow> b \<in> bm_used (global_dbmap k) \<Longrightarrow> b < 32768"
  by (simp add: maps_ok_def bm_inv_def bm_used_def)

lemma disk_block_small: "b < 32768 \<Longrightarrow> disk_block b = b"
  by (simp add: disk_block_def)

lemma distinct_blocks:
  assumes "maps_ok k" and "blocks_ok k" and "i \<in> with_block k" and "j \<in> with_block k" and "i \<noteq> j"
  shows "disk_block (block_of k i) \<noteq> disk_block (block_of k j)"
proof -
  have "block_of k i < 32768" "block_of k j < 32768" using assms used_block_small by (auto simp: blocks_ok_def)
  then show ?thesis using assms by (auto simp: blocks_ok_def disk_block_small dest: inj_onD)
qed

section \<open>Creating\<close>

text \<open>The tree after a file or directory \<open>i\<close> was put under the name \<open>nm\<close> into directory \<open>d\<close>.\<close>

definition add_node :: "(nat \<Rightarrow> dir_entries) \<Rightarrow> nat \<Rightarrow> u8 list \<Rightarrow> nat \<Rightarrow> nat \<Rightarrow> dir_entries" where
  "add_node dirs d nm i = dirs(d := dirs d @ [(nm, i)], i := [])"

lemma created_inodes:
  assumes cr: "created k es nm ftype d i b k'" and lt: "i < length (global_inode_table k)" "d < length (global_inode_table k)"
  shows "type_of k' i = ftype" and "ftype \<noteq> 2 \<Longrightarrow> block_of k' i = b" and "i_size (global_inode_table k' ! i) = 0"
    and "j \<noteq> i \<Longrightarrow> type_of k' j = type_of k j" and "j \<noteq> i \<Longrightarrow> block_of k' j = block_of k j"
    and "j \<noteq> i \<Longrightarrow> j \<noteq> d \<Longrightarrow> global_inode_table k' ! j = global_inode_table k ! j"
  using assms by (auto simp: created_def type_of_def block_of_def new_inode_def nth_list_update)

lemma created_blocks_ok:
  assumes ok: "maps_ok k" "blocks_ok k" and cr: "created k es nm ftype d i b k'" and lt: "i < 426" "d < 426" and i: "i \<notin> bm_used (global_ibmap k)"
    and b: "ftype \<noteq> 2 \<Longrightarrow> b \<notin> bm_used (global_dbmap k)"
  shows "blocks_ok k'"
proof -
  have tab: "i < length (global_inode_table k)" "d < length (global_inode_table k)" using ok(1) lt by (simp_all add: maps_ok_def)
  note node = created_inodes [OF cr tab]
  have U: "bm_used (global_ibmap k') = insert i (bm_used (global_ibmap k))" using cr by (simp add: created_def)
  have ty: "\<And>j. j \<in> bm_used (global_ibmap k) \<Longrightarrow> type_of k' j = type_of k j" using node(4) i by metis
  have W: "with_block k' = (if ftype = 2 then with_block k else insert i (with_block k))"
    using node(1) ty by (auto simp: with_block_def U)
  have iW: "i \<notin> with_block k" using i by (simp add: with_block_def)
  then have same: "\<And>j. j \<in> with_block k \<Longrightarrow> block_of k' j = block_of k j" using node(5) by metis
  have inj: "inj_on (block_of k') (with_block k)" using ok(2) same by (simp add: blocks_ok_def inj_on_def)
  have img: "block_of k' ` with_block k = block_of k ` with_block k" using same by (simp cong: image_cong)
  show ?thesis
  proof (cases "ftype = 2")
    case True
    then show ?thesis using W inj img ok(2) cr by (simp add: blocks_ok_def created_def)
  next
    case False
    have "b \<notin> block_of k ` with_block k" using b [OF False] ok(2) by (auto simp: blocks_ok_def)
    then have "inj_on (block_of k') (insert i (with_block k))" using inj node(2) [OF False] img iW by simp
    moreover have "block_of k' ` insert i (with_block k) = insert b (block_of k ` with_block k)" using node(2) [OF False] img by simp
    moreover have "insert b (block_of k ` with_block k) \<subseteq> bm_used (global_dbmap k')"
    proof -
      have "bm_used (global_dbmap k') = insert b (bm_used (global_dbmap k))" using cr False by (simp add: created_def)
      moreover have "block_of k ` with_block k \<subseteq> bm_used (global_dbmap k)" using ok(2) by (simp add: blocks_ok_def)
      ultimately show ?thesis by blast
    qed
    ultimately show ?thesis unfolding blocks_ok_def if_not_P [OF False] W by simp
  qed
qed

lemma created_dir_other:
  assumes cr: "created k es nm ftype d i b k'" and ok: "maps_ok k" "blocks_ok k" and lt: "i < 426" "d < 426"
    and j: "j \<in> directories k" "j \<noteq> i" "j \<noteq> d" and dd: "d \<in> directories k" and dir: "dir_of k j es'"
  shows "dir_of k' j es'"
proof -
  have tab: "i < length (global_inode_table k)" "d < length (global_inode_table k)" using ok(1) lt by (simp_all add: maps_ok_def)
  have "disk_block (block_of k j) \<noteq> disk_block (block_of k d)"
    using distinct_blocks [OF ok] j dd directories_with_block by blast
  then have "disk k' (disk_block (block_of k j)) = disk k (disk_block (block_of k j))"
    using cr by (simp add: created_def block_of_def)
  moreover have "length (global_inode_table k') = length (global_inode_table k)" using cr by (simp add: created_def)
  ultimately show ?thesis
    using dir created_inodes(6) [OF cr tab j(2,3)] by (simp add: dir_of_def read_block_def block_of_def)
qed

lemma names_ok_add:
  assumes "names_ok D U dirs" and "d \<in> D" and "i \<notin> U" and "0 \<in> U" and "D \<subseteq> U" and "map_of (dirs d) nm = None"
  shows "names_ok D (insert i U) (add_node dirs d nm i)" and "names_ok (insert i D) (insert i U) (add_node dirs d nm i)"
proof -
  have sets: "snd ` set (add_node dirs d nm i j) = (if j = i then {} else if j = d then insert i (snd ` set (dirs d)) else snd ` set (dirs j))" for j
    using assms(2,3,5) by (auto simp: add_node_def)
  have i0: "i \<noteq> 0" using assms(3,4) by metis
  have new: "j \<in> D \<Longrightarrow> i \<notin> snd ` set (dirs j)" for j using assms(1,3) by (auto simp: names_ok_def)
  have "nm \<notin> fst ` set (dirs d)" using assms(6) by (simp add: map_of_eq_None_iff)
  then have dis: "distinct (map fst (add_node dirs d nm i j)) \<and> distinct (map snd (add_node dirs d nm i j))" if "j \<in> insert i D" for j
    using assms(1,2) new [of d] that by (auto simp: names_ok_def add_node_def)
  have sub: "j \<in> insert i D \<Longrightarrow> snd ` set (add_node dirs d nm i j) \<subseteq> insert i U - {0}" for j
    using assms(1,2) i0 unfolding sets names_ok_def by auto
  have apart: "snd ` set (add_node dirs d nm i j) \<inter> snd ` set (add_node dirs d nm i j') = {}"
    if "j \<in> insert i D" "j' \<in> insert i D" "j \<noteq> j'" for j j'
  proof -
    have "j \<in> D \<Longrightarrow> j' \<in> D \<Longrightarrow> snd ` set (dirs j) \<inter> snd ` set (dirs j') = {}" using assms(1) that(3) by (simp add: names_ok_def)
    then show ?thesis unfolding sets using that new [of j] new [of j'] assms(2) by auto
  qed
  show "names_ok (insert i D) (insert i U) (add_node dirs d nm i)" unfolding names_ok_def using dis sub apart by simp
  show "names_ok D (insert i U) (add_node dirs d nm i)" unfolding names_ok_def using dis sub apart by simp
qed

lemma created_tree_ok:
  assumes ok: "tree_ok k dirs" and cr: "created k (dirs d) nm ftype d i b k'" and i: "i < 426" "i \<notin> bm_used (global_ibmap k)"
    and d: "d \<in> directories k" "map_of (dirs d) nm = None" and b: "ftype \<noteq> 2 \<Longrightarrow> b \<notin> bm_used (global_dbmap k)" "b \<noteq> 32767"
  shows "tree_ok k' (add_node dirs d nm i)"
proof -
  have m: "maps_ok k" "blocks_ok k" "0 \<in> directories k" "names_ok (directories k) (bm_used (global_ibmap k)) dirs"
    and D: "\<And>j. j \<in> directories k \<Longrightarrow> dir_of k j (dirs j)" using ok by (simp_all add: tree_ok_def)
  have U: "bm_used (global_ibmap k') = insert i (bm_used (global_ibmap k))" and id: "i \<noteq> d"
    and dd: "dir_of k' d (dirs d @ [(nm, i)])" and rest: "\<And>c. c \<noteq> disk_block (block_of k d) \<Longrightarrow> disk k' c = disk k c"
    and len: "length (global_inode_table k') = length (global_inode_table k)"
      "length (global_ibmap k') = length (global_ibmap k)" "length (global_dbmap k') = length (global_dbmap k)"
    using cr by (simp_all add: created_def block_of_def)
  have sub: "directories k \<subseteq> bm_used (global_ibmap k)" "0 \<in> bm_used (global_ibmap k)" using m(3) by (auto simp: directories_def)
  have lt: "d < 426" using d(1) m(1) sub by (auto simp: maps_ok_def)
  have tab: "i < length (global_inode_table k)" "d < length (global_inode_table k)" using m(1) i lt by (simp_all add: maps_ok_def)
  note node = created_inodes [OF cr tab]
  have ty: "\<And>j. j \<in> bm_used (global_ibmap k) \<Longrightarrow> type_of k' j = type_of k j" using node(4) i by metis
  have D': "directories k' = (if ftype = 0 then insert i (directories k) else directories k)"
    using node(1) ty by (auto simp: directories_def U)
  have blk: "length (disk k' c) = 4096" for c
  proof (cases "c = disk_block (block_of k d)")
    case True
    then show ?thesis using dd node(5) [of d] id by (simp add: dir_of_def dir_rep_def read_block_def block_of_def)
  qed (use rest m(1) in \<open>simp add: maps_ok_def\<close>)
  have db: "bm_used (global_dbmap k') \<subseteq> insert b (bm_used (global_dbmap k))" using cr by (simp add: created_def subset_insertI)
  have "bm_inv 1024 (global_dbmap k')" "bm_inv 1024 (global_ibmap k')"
    using m(1) len U i(1) subsetD [OF db, of 32767] b(2) by (auto simp: maps_ok_def bm_inv_def)
  then have "maps_ok k'" using m(1) len blk U i by (simp add: maps_ok_def)
  moreover have "blocks_ok k'" using created_blocks_ok [OF m(1,2) cr i(1) lt i(2) b(1)] .
  moreover have "dir_of k' j (add_node dirs d nm i j)" if j: "j \<in> directories k'" for j
  proof -
    consider "j = i" "ftype = 0" | "j = d" | "j \<in> directories k" "j \<noteq> i" "j \<noteq> d"
      using j D' i sub by (auto split: if_splits)
    then show ?thesis
    proof cases
      case 1
      then show ?thesis using node(1,3) blk tab len by (simp add: dir_of_def add_node_def dir_rep_def type_of_def read_block_def)
    next
      case 2
      then show ?thesis using dd id by (simp add: add_node_def)
    next
      case 3
      then show ?thesis using created_dir_other [OF cr m(1,2) i(1) lt 3 d(1) D [OF 3(1)]] by (simp add: add_node_def)
    qed
  qed
  moreover have "names_ok (directories k') (bm_used (global_ibmap k')) (add_node dirs d nm i)"
    using names_ok_add [OF m(4) d(1) i(2) sub(2,1) d(2)] unfolding D' U by simp
  ultimately show ?thesis using m(3) D' by (simp add: tree_ok_def)
qed

section \<open>Paths in the tree\<close>

text \<open>A path that goes through directories of the tree only; \<open>leads_to\<close> also says where it ends.\<close>

fun in_tree :: "nat set \<Rightarrow> (nat \<Rightarrow> dir_entries) \<Rightarrow> nat \<Rightarrow> u8 list list \<Rightarrow> bool" where
  "in_tree D dirs d [] \<longleftrightarrow> True"
| "in_tree D dirs d (c # cs) \<longleftrightarrow> d \<in> D \<and> (case map_of (dirs d) c of None \<Rightarrow> True | Some i \<Rightarrow> in_tree D dirs i cs)"

definition leads_to :: "kernel \<Rightarrow> (nat \<Rightarrow> dir_entries) \<Rightarrow> u8 list list \<Rightarrow> nat \<Rightarrow> bool" where
  "leads_to k dirs cs i \<longleftrightarrow> in_tree (directories k) dirs 0 cs \<and> resolve dirs 0 cs = Some i"

lemma tree_entry_used:
  assumes "tree_ok k dirs" and "d \<in> directories k" and "map_of (dirs d) c = Some i"
  shows "i \<in> bm_used (global_ibmap k)" and "i < 426" and "i \<noteq> 0"
proof -
  have "i \<in> snd ` set (dirs d)" using map_of_SomeD [OF assms(3)] by force
  moreover have "snd ` set (dirs d) \<subseteq> bm_used (global_ibmap k) - {0}" using assms(1,2) by (simp add: tree_ok_def names_ok_def)
  ultimately have "i \<in> bm_used (global_ibmap k) - {0}" by (rule rev_subsetD)
  then show i: "i \<in> bm_used (global_ibmap k)" "i \<noteq> 0" by simp_all
  have "bm_used (global_ibmap k) \<subseteq> {..< 426}" using assms(1) by (simp add: tree_ok_def maps_ok_def)
  from subsetD [OF this i(1)] show "i < 426" by simp
qed

lemma in_tree_path_ok: "tree_ok k dirs \<Longrightarrow> in_tree (directories k) dirs d cs \<Longrightarrow> d < 2147483648 \<Longrightarrow> path_ok k dirs d cs"
proof (induction cs arbitrary: d)
  case (Cons c cs)
  then have d: "d \<in> directories k" "dir_of k d (dirs d)" by (simp_all add: tree_ok_def)
  show ?case
  proof (cases "map_of (dirs d) c")
    case (Some i)
    then have "i < 2147483648" using tree_entry_used(2) [OF Cons.prems(1) d(1)] by fastforce
    then show ?thesis using Cons Some d by simp
  qed (use d in simp)
qed simp

lemma resolve_append: "resolve dirs d (cs @ cs') = (case resolve dirs d cs of None \<Rightarrow> None | Some e \<Rightarrow> resolve dirs e cs')"
  by (induction cs arbitrary: d) (auto split: option.splits)

lemma in_tree_append:
  "in_tree D dirs d (cs @ cs') \<longleftrightarrow> in_tree D dirs d cs \<and> (case resolve dirs d cs of None \<Rightarrow> True | Some e \<Rightarrow> in_tree D dirs e cs')"
  by (induction cs arbitrary: d) (auto split: option.splits)

text \<open>Adding a node leaves every path of the tree where it was.\<close>

lemma add_node_path:
  assumes ok: "tree_ok k dirs" and i: "i \<notin> bm_used (global_ibmap k)" and D: "directories k \<subseteq> D'"
  shows "in_tree (directories k) dirs a cs \<Longrightarrow> resolve dirs a cs = Some e \<Longrightarrow>
    in_tree D' (add_node dirs d nm i) a cs \<and> resolve (add_node dirs d nm i) a cs = Some e"
proof (induction cs arbitrary: a)
  case (Cons c cs)
  then obtain x where a: "a \<in> directories k" and x: "map_of (dirs a) c = Some x" "in_tree (directories k) dirs x cs" "resolve dirs x cs = Some e"
    by (auto split: option.splits)
  have "a \<noteq> i" using a i by (auto simp: directories_def)
  then have "map_of (add_node dirs d nm i a) c = Some x" using x(1) by (auto simp: add_node_def map_add_Some_iff)
  then show ?case using Cons.IH [OF x(2,3)] a D by auto
qed simp

lemma add_node_leads_to:
  assumes ok: "tree_ok k dirs" and i: "i \<notin> bm_used (global_ibmap k)" and D: "directories k \<subseteq> directories k'"
    and p: "leads_to k dirs cs d" "d \<in> directories k" "map_of (dirs d) nm = None"
  shows "leads_to k' (add_node dirs d nm i) (cs @ [nm]) i"
proof -
  have old: "in_tree (directories k') (add_node dirs d nm i) 0 cs" "resolve (add_node dirs d nm i) 0 cs = Some d"
    using add_node_path [OF ok i D, of 0 cs d d nm] p(1) by (simp_all add: leads_to_def)
  have "d \<noteq> i" using p(2) i by (auto simp: directories_def)
  then have "map_of (add_node dirs d nm i d) nm = Some i" using p(3) by (simp add: add_node_def map_add_def)
  then show ?thesis using old p(2) D by (auto simp: leads_to_def resolve_append in_tree_append)
qed

section \<open>Operations on the tree\<close>

text \<open>A path argument the kernel can take apart: \<open>s\<close> is a string in memory, and the heap has room for its parts.\<close>

definition path_arg :: "kernel \<Rightarrow> u8 list \<Rightarrow> nat \<Rightarrow> u8 list \<Rightarrow> bool" where
  "path_arg k path off s \<longleftrightarrow> cstr_at path off s \<and> length s < 4294967295 \<and> heap_inv (heap k) \<and>
     (\<exists>dp fn h2. path_room k (length s + 1) dp fn h2)"

text \<open>A new name \<open>nm\<close> in the directory \<open>d\<close> that \<open>cs\<close> leads to, with the inode \<open>i\<close> and the block \<open>b\<close> that are next.\<close>

definition creatable :: "kernel \<Rightarrow> (nat \<Rightarrow> dir_entries) \<Rightarrow> u8 list list \<Rightarrow> u8 list \<Rightarrow> nat \<Rightarrow> nat \<Rightarrow> nat \<Rightarrow> bool" where
  "creatable k dirs cs nm d i b \<longleftrightarrow> leads_to k dirs cs d \<and> d \<in> directories k \<and> (\<forall>x \<in> set cs. comp_ok x) \<and> comp_ok nm \<and>
     map_of (dirs d) nm = None \<and> length (dirs d) < 113 \<and> least_free (global_ibmap k) i \<and> i < 426 \<and> least_free (global_dbmap k) b"

definition heap_kept :: "kernel \<Rightarrow> kernel \<Rightarrow> bool" where
  "heap_kept k k' \<longleftrightarrow> heap_inv (heap k') \<and> heap_live (heap k') = heap_live (heap k) \<and> length (hmem k') = length (hmem k)"

lemma creatable_can_create:
  assumes "tree_ok k dirs" and "creatable k dirs cs nm d i b" and "heap_inv (heap k)"
  shows "can_create k dirs cs nm ftype d i b"
proof -
  have "path_ok k dirs 0 cs" using in_tree_path_ok [OF assms(1), of 0 cs] assms(2) by (simp add: creatable_def leads_to_def)
  then show ?thesis using assms
    by (auto simp: can_create_def creatable_def tree_ok_def maps_ok_def bm_inv_def leads_to_def directories_def)
qed

lemma created_in_tree:
  assumes ok: "tree_ok k dirs" and new: "creatable k dirs cs nm d i b" and cr: "created k (dirs d) nm ftype d i b k'"
  shows "tree_ok k' (add_node dirs d nm i)" and "leads_to k' (add_node dirs d nm i) (cs @ [nm]) i" and "type_of k' i = ftype"
    and "leads_to k dirs cs' j \<Longrightarrow> leads_to k' (add_node dirs d nm i) cs' j" and "file_size k' i = 0"
proof -
  have i: "i < 426" "i \<notin> bm_used (global_ibmap k)" and d: "d \<in> directories k" "map_of (dirs d) nm = None" and b: "b \<notin> bm_used (global_dbmap k)" "b \<noteq> 32767"
    using new ok by (auto simp: creatable_def least_free_def tree_ok_def maps_ok_def bm_inv_def)
  show "tree_ok k' (add_node dirs d nm i)" by (rule created_tree_ok [OF ok cr i d b])
  have m: "maps_ok k" "directories k \<subseteq> {..< 426}" using ok by (auto simp: tree_ok_def maps_ok_def directories_def)
  then have tab: "i < length (global_inode_table k)" "d < length (global_inode_table k)" using i d by (auto simp: maps_ok_def)
  note node = created_inodes [OF cr tab]
  show "type_of k' i = ftype" "file_size k' i = 0" using node(1,3) by (simp_all add: file_size_def)
  have U: "bm_used (global_ibmap k') = insert i (bm_used (global_ibmap k))" using cr by (simp add: created_def)
  have D: "directories k \<subseteq> directories k'"
  proof
    fix j assume "j \<in> directories k"
    then have "j \<in> bm_used (global_ibmap k)" "type_of k j = 0" "j \<noteq> i" using i(2) by (auto simp: directories_def)
    then show "j \<in> directories k'" using node(4) U by (simp add: directories_def)
  qed
  show "leads_to k' (add_node dirs d nm i) (cs @ [nm]) i"
    using add_node_leads_to [OF ok i(2) D] new by (simp add: creatable_def)
  show "leads_to k' (add_node dirs d nm i) cs' j" if "leads_to k dirs cs' j"
    using add_node_path [OF ok i(2) D, of 0 cs' j d nm] that by (simp add: leads_to_def)
qed

text \<open>A write to a file changes no directory.\<close>

lemma write_file_tree_ok:
  assumes ok: "tree_ok k dirs" and fd: "plain_fd k fd f" "f \<in> bm_used (global_ibmap k)" "type_of k f = 1"
    and size: "file_size k f + cnt < 4294967296" "cnt \<le> length buf" "write_pos (fd_entries k ! fd) = p" "p + cnt \<le> 4096"
  shows "\<exists>k'. write_file w k (int fd) buf cnt = Inr (cnt, k') \<and> tree_ok k' dirs \<and> file_size k' f = file_size k f + cnt \<and>
    (\<forall>j \<in> with_block k. j \<noteq> f \<longrightarrow> file_block k' j = file_block k j \<and> file_size k' j = file_size k j)"
proof -
  let ?b = "data_block_start (global_inode_table k ! f)" and ?blk = "overlay p (take cnt buf) (file_block k f)"
  let ?k' = "write_block ?b ?blk
      (fd_set (k\<lparr>global_inode_table := (global_inode_table k)[f := (global_inode_table k ! f)\<lparr>i_size := file_size k f + cnt\<rparr>]\<rparr>)
        (int fd) ((fd_entries k ! fd)\<lparr>write_pos := p + cnt\<rparr>))"
  have m: "maps_ok k" "blocks_ok k" using ok by (simp_all add: tree_ok_def)
  have f: "f < length (global_inode_table k)" "length (file_block k f) = 4096" using fd(1) by (simp_all add: plain_fd_def file_block_def)
  have st: "global_ibmap ?k' = global_ibmap k" "global_dbmap ?k' = global_dbmap k"
    "disk ?k' = (disk k)(disk_block ?b := ?blk)" by (simp_all add: write_block_def fd_set_def)
  have ty: "type_of ?k' j = type_of k j" "block_of ?k' j = block_of k j" for j
    using f(1) by (cases "j = f"; simp add: type_of_def block_of_def write_block_def fd_set_def)+
  have D: "directories ?k' = directories k" "with_block ?k' = with_block k" unfolding directories_def with_block_def st ty by simp_all
  have fW: "f \<in> with_block k" "f \<notin> directories k" using fd(2,3) by (simp_all add: with_block_def directories_def)
  have other: "read_block ?k' (block_of k j) = read_block k (block_of k j)" if "j \<in> with_block k" "j \<noteq> f" for j
    using distinct_blocks [OF m that(1) fW(1) that(2)] by (simp add: read_block_def st block_of_def)
  have ino: "global_inode_table ?k' ! j = global_inode_table k ! j" if "j \<noteq> f" for j using that by (simp add: write_block_def fd_set_def)
  have "length ?blk = 4096" using f size by simp
  then have "maps_ok ?k'" using m(1) by (simp add: maps_ok_def write_block_def fd_set_def)
  moreover have "blocks_ok ?k'" using m(2) unfolding blocks_ok_def D st by (simp add: ty cong: inj_on_cong image_cong)
  moreover have "dir_of ?k' j (dirs j)" if j: "j \<in> directories k" for j
  proof -
    have "j \<noteq> f" "j \<in> with_block k" "dir_of k j (dirs j)" using j fW(2) directories_with_block ok by (auto simp: tree_ok_def)
    then show ?thesis using ino other by (simp add: dir_of_def block_of_def write_block_def fd_set_def)
  qed
  ultimately have "tree_ok ?k' dirs" using ok D st by (simp add: tree_ok_def)
  moreover have "file_size ?k' f = file_size k f + cnt" using f by (simp add: file_size_def write_block_def fd_set_def)
  moreover have "\<forall>j \<in> with_block k. j \<noteq> f \<longrightarrow> file_block ?k' j = file_block k j \<and> file_size ?k' j = file_size k j"
    using ino other by (simp add: file_block_def file_size_def block_of_def)
  ultimately show ?thesis using write_file_plain [OF fd(1) size] by blast
qed

section \<open>Deleting\<close>

text \<open>The tree after inode \<open>f\<close> was removed from directory \<open>d\<close>.\<close>

definition del_node :: "(nat \<Rightarrow> dir_entries) \<Rightarrow> nat \<Rightarrow> nat \<Rightarrow> nat \<Rightarrow> dir_entries" where
  "del_node dirs d f = dirs(d := remove_ino f (dirs d))"

lemma set_remove_ino: "distinct (map snd es) \<Longrightarrow> snd ` set (remove_ino f es) = snd ` set es - {f}"
  by (induction es) (auto simp: image_iff)

lemma distinct_remove_ino: "distinct (map snd es) \<Longrightarrow> distinct (map snd (remove_ino f es))"
proof (induction es)
  case (Cons e es)
  then have "snd ` set (remove_ino f es) = snd ` set es - {f}" by (simp add: set_remove_ino)
  then show ?case using Cons by auto
qed simp

lemma fst_remove_ino: "fst ` set (remove_ino f es) \<subseteq> fst ` set es"
  by (induction es) auto

lemma distinct_fst_remove_ino: "distinct (map fst es) \<Longrightarrow> distinct (map fst (remove_ino f es))"
proof (induction es)
  case (Cons e es)
  then show ?case using subsetD [OF fst_remove_ino, of "fst e" f es] by auto
qed simp

lemma map_of_remove_ino:
  "distinct (map fst es) \<Longrightarrow> distinct (map snd es) \<Longrightarrow> map_of es nm = Some f \<Longrightarrow> map_of (remove_ino f es) n = (if n = nm then None else map_of es n)"
proof (induction es)
  case (Cons e es)
  show ?case
  proof (cases "snd e = f")
    case True
    have "f \<notin> snd ` set es" using Cons.prems(2) True by auto
    then have "map_of es nm \<noteq> Some f" using map_of_SomeD [of es nm f] by force
    then have "fst e = nm" using Cons.prems(3) by (cases e) (auto split: if_splits)
    moreover have "fst e \<notin> fst ` set es" using Cons.prems(1) by auto
    ultimately show ?thesis using True by (cases e) (auto simp: map_of_eq_None_iff)
  next
    case False
    then have "fst e \<noteq> nm" "map_of es nm = Some f" using Cons.prems(3) by (cases e; auto split: if_splits)+
    then show ?thesis using Cons False by (cases e) auto
  qed
qed simp

lemma names_ok_del:
  assumes "names_ok D U dirs" and "d \<in> D" and "f \<in> snd ` set (dirs d)"
  shows "names_ok (D - {f}) (U - {f}) (del_node dirs d f)"
proof -
  have sets: "snd ` set (del_node dirs d f j) = (if j = d then snd ` set (dirs d) - {f} else snd ` set (dirs j))" if "j \<in> D" for j
    using assms(1,2) by (simp add: del_node_def set_remove_ino names_ok_def)
  have apart: "j \<in> D \<Longrightarrow> j' \<in> D \<Longrightarrow> j \<noteq> j' \<Longrightarrow> snd ` set (dirs j) \<inter> snd ` set (dirs j') = {}" for j j'
    using assms(1) by (simp add: names_ok_def)
  have nof: "f \<notin> snd ` set (dirs j)" if "j \<in> D" "j \<noteq> d" for j using apart [OF that(1) assms(2) that(2)] assms(3) by blast
  have "distinct (map fst (del_node dirs d f j)) \<and> distinct (map snd (del_node dirs d f j))" if "j \<in> D" for j
    using assms(1,2) that by (simp add: names_ok_def del_node_def distinct_remove_ino distinct_fst_remove_ino)
  moreover have "snd ` set (del_node dirs d f j) \<subseteq> U - {f} - {0}" if "j \<in> D" for j
  proof -
    have "snd ` set (dirs j) \<subseteq> U - {0}" using assms(1) that by (simp add: names_ok_def)
    then show ?thesis using nof [OF that] unfolding sets [OF that] by auto
  qed
  moreover have "snd ` set (del_node dirs d f j) \<inter> snd ` set (del_node dirs d f j') = {}" if "j \<in> D" "j' \<in> D" "j \<noteq> j'" for j j'
    using apart [OF that] unfolding sets [OF that(1)] sets [OF that(2)] by (auto split: if_splits)
  ultimately show ?thesis by (simp add: names_ok_def)
qed

text \<open>A directory the path leads to does not contain itself.\<close>

lemma entered_from:
  assumes "in_tree D dirs a cs" and "resolve dirs a cs = Some d" and "a \<noteq> d"
  shows "\<exists>j \<in> D. j \<noteq> d \<and> d \<in> snd ` set (dirs j)"
  using assms
proof (induction cs arbitrary: a)
  case (Cons c cs)
  then obtain x where a: "a \<in> D" and x: "map_of (dirs a) c = Some x" "in_tree D dirs x cs" "resolve dirs x cs = Some d"
    by (auto split: option.splits)
  show ?case
  proof (cases "x = d")
    case True
    then have "d \<in> snd ` set (dirs a)" using map_of_SomeD [OF x(1)] by force
    then show ?thesis using a Cons.prems(3) by blast
  qed (use Cons.IH x in blast)
qed simp

lemma not_own_entry:
  assumes ok: "tree_ok k dirs" and p: "leads_to k dirs cs d" "d \<in> directories k"
  shows "d \<notin> snd ` set (dirs d)"
proof
  assume self: "d \<in> snd ` set (dirs d)"
  have n: "names_ok (directories k) (bm_used (global_ibmap k)) dirs" using ok by (simp add: tree_ok_def)
  have sub: "snd ` set (dirs d) \<subseteq> bm_used (global_ibmap k) - {0}" using n p(2) by (simp add: names_ok_def)
  from subsetD [OF sub self] have "0 \<noteq> d" by simp
  then obtain j where "j \<in> directories k" "j \<noteq> d" "d \<in> snd ` set (dirs j)"
    using entered_from [of "directories k" dirs 0 cs d] p(1) by (auto simp: leads_to_def)
  then show False using n p(2) self unfolding names_ok_def by blast
qed

text \<open>What deleting changes: \<open>removed\<close> relates the states before and after \<open>f\<close> was deleted from \<open>d\<close>.\<close>

definition removed :: "kernel \<Rightarrow> dir_entries \<Rightarrow> nat \<Rightarrow> nat \<Rightarrow> kernel \<Rightarrow> bool" where
  "removed k es d f k' \<longleftrightarrow> dir_of k' d (remove_ino f es) \<and>
     global_inode_table k' = (global_inode_table k)[d := (global_inode_table k ! d)\<lparr>i_size := 36 * (length es - 1)\<rparr>] \<and>
     (\<forall>c. c \<noteq> disk_block (block_of k d) \<longrightarrow> disk k' c = disk k c) \<and>
     bm_used (global_ibmap k') = bm_used (global_ibmap k) - {f} \<and> bm_inv 1024 (global_ibmap k') \<and>
     bm_used (global_dbmap k') = bm_used (global_dbmap k) - {block_of k f} \<and> bm_inv 1024 (global_dbmap k')"

lemma removed_tree_ok:
  assumes ok: "tree_ok k dirs" and d: "d \<in> directories k" "d \<noteq> f" and f: "f \<in> snd ` set (dirs d)" "type_of k f \<noteq> 2"
    and rm: "removed k (dirs d) d f k'"
  shows "tree_ok k' (del_node dirs d f)"
proof -
  have m: "maps_ok k" "blocks_ok k" "0 \<in> directories k" "names_ok (directories k) (bm_used (global_ibmap k)) dirs"
    and D: "\<And>j. j \<in> directories k \<Longrightarrow> dir_of k j (dirs j)" using ok by (simp_all add: tree_ok_def)
  have U: "bm_used (global_ibmap k') = bm_used (global_ibmap k) - {f}" and B: "bm_used (global_dbmap k') = bm_used (global_dbmap k) - {block_of k f}"
    and dd: "dir_of k' d (remove_ino f (dirs d))" and rest: "\<And>c. c \<noteq> disk_block (block_of k d) \<Longrightarrow> disk k' c = disk k c"
    and tab: "global_inode_table k' = (global_inode_table k)[d := (global_inode_table k ! d)\<lparr>i_size := 36 * (length (dirs d) - 1)\<rparr>]"
    and inv: "bm_inv 1024 (global_ibmap k')" "bm_inv 1024 (global_dbmap k')"
    using rm by (simp_all add: removed_def)
  have ty: "type_of k' j = type_of k j" "block_of k' j = block_of k j" for j
    unfolding type_of_def block_of_def tab
    by (cases "j = d \<and> d < length (global_inode_table k)"; auto simp: nth_list_update list_update_beyond)+
  have D': "directories k' = directories k - {f}" and W': "with_block k' = with_block k - {f}"
    by (auto simp: directories_def with_block_def ty U)
  have sub: "snd ` set (dirs d) \<subseteq> bm_used (global_ibmap k) - {0}" using m(4) d(1) by (simp add: names_ok_def)
  from subsetD [OF this f(1)] have fU: "f \<in> bm_used (global_ibmap k)" "f \<noteq> 0" by simp_all
  have fW: "f \<in> with_block k" using fU f(2) by (simp add: with_block_def)
  have blk: "length (disk k' c) = 4096" for c
  proof (cases "c = disk_block (block_of k d)")
    case True
    then show ?thesis using dd ty(2) [of d] by (simp add: dir_of_def dir_rep_def read_block_def block_of_def)
  qed (use rest m(1) in \<open>simp add: maps_ok_def\<close>)
  have "maps_ok k'" using m(1) blk inv U by (auto simp: maps_ok_def tab)
  moreover have "blocks_ok k'"
  proof -
    have "block_of k f \<notin> block_of k ` (with_block k - {f})" using m(2) fW by (auto simp: blocks_ok_def inj_on_def)
    then have "block_of k ` (with_block k - {f}) \<subseteq> bm_used (global_dbmap k')" using m(2) unfolding B blocks_ok_def by blast
    moreover have "inj_on (block_of k) (with_block k)" using m(2) by (simp add: blocks_ok_def)
    then have "inj_on (block_of k) (with_block k - {f})" by (rule inj_on_subset) blast
    ultimately show ?thesis unfolding blocks_ok_def W' by (simp add: ty cong: inj_on_cong image_cong)
  qed
  moreover have "dir_of k' j (del_node dirs d f j)" if j: "j \<in> directories k'" for j
  proof (cases "j = d")
    case True
    then show ?thesis using dd by (simp add: del_node_def)
  next
    case False
    then have jd: "j \<in> directories k" "j \<in> with_block k" "d \<in> with_block k" using j D' d(1) directories_with_block by auto
    have "disk k' (disk_block (block_of k j)) = disk k (disk_block (block_of k j))"
      using rest distinct_blocks [OF m(1,2) jd(2,3) False] by simp
    then show ?thesis using D [OF jd(1)] False by (simp add: dir_of_def del_node_def tab read_block_def block_of_def)
  qed
  moreover have "names_ok (directories k') (bm_used (global_ibmap k')) (del_node dirs d f)"
    using names_ok_del [OF m(4) d(1) f(1)] unfolding D' U .
  ultimately show ?thesis using m(3) fU(2) D' by (simp add: tree_ok_def)
qed

lemma unlink_ok:
  assumes ok: "tree_ok k dirs" and c: "cstr_at path off (47 # join_path cs @ nm)" and nm: "47 \<notin> set nm" "length nm < 32"
    and cs: "\<forall>x \<in> set cs. comp_ok x" and p: "leads_to k dirs cs d" "d \<in> directories k" and f: "map_of (dirs d) nm = Some f"
    and room: "length (dirs d) < 113" and b: "block_of k f \<in> bm_used (global_dbmap k)"
    and env: "\<And>n. length (junk (env w) n) = n" "length (47 # join_path cs @ nm) < vla (env w) (length (47 # join_path cs @ nm))"
  shows "\<exists>k'. unlink w k path off = Inr (0, k') \<and> removed k (dirs d) d f k'"
proof -
  let ?s = "47 # join_path cs @ nm"
  have m: "maps_ok k" and dir: "dir_of k d (dirs d)" using ok p(2) by (simp_all add: tree_ok_def)
  obtain dp fn where pp: "parse_path path off (junk (env w) (vla (env w) (length ?s))) (junk (env w) 32) = Inr (dp, fn)"
      "cstr_at dp 0 (47 # join_path cs)" "cstr_at fn 0 nm"
    using parse_path_parts [OF c, of "junk (env w) (vla (env w) (length ?s))" "junk (env w) 32"] env nm path_parts_join [OF nm(1)] by auto
  note fE = tree_entry_used [OF ok p(2) f]
  have dlt: "d < 426" using p(2) m by (auto simp: maps_ok_def directories_def)
  have pok: "path_ok k dirs 0 cs" using in_tree_path_ok [OF ok, of 0 cs] p(1) by (simp add: leads_to_def)
  have len: "length (global_inode_table k) = 426" using m by (simp add: maps_ok_def)
  have "file_type (global_inode_table k ! d) = 0" using dir by (simp add: dir_of_def)
  then have "seek_directory k dp 0 = Inr (s32 d, k)"
    using seek_directory_resolves [OF pp(2) cs pok] p(1) len dlt by (simp add: leads_to_def)
  moreover have "u32_of_int (s32 d) = d" "u32_of_int (s32 f) = f" "s32 f \<noteq> - 1"
    using dlt fE(2) by (simp_all add: s32_def u32_of_int_def)
  moreover have "search_dir k d fn 0 = Inr (s32 f, k)" using search_dir_of [OF dir pp(3)] f by simp
  moreover have fd: "f \<in> snd ` set (dirs d)" using map_of_SomeD [OF f] by force
  obtain k3 blk where k3: "unlink_file_in_dir k d f = Inr k3" "dir_of k3 d (remove_ino f (dirs d))"
      "k3 = k\<lparr>global_inode_table := (global_inode_table k)[d := (global_inode_table k ! d)\<lparr>i_size := 36 * (length (dirs d) - 1)\<rparr>],
           disk := (disk k)(disk_block (block_of k d) := blk)\<rparr>"
    using unlink_file_in_dir_of [OF dir room fd] unfolding block_of_def by blast
  have "d \<noteq> f" using fd not_own_entry [OF ok p] by auto
  then have ino: "global_inode_table k3 ! f = global_inode_table k ! f" "f < length (global_inode_table k3)" using k3(3) fE(2) len by simp_all
  obtain dbm where dbm: "dealloc_bitrange (global_dbmap k) \<lparr>br_start = block_of k f, br_length = 1\<rparr> = Inr dbm"
      "bm_used dbm = bm_used (global_dbmap k) - {block_of k f}" "bm_inv 1024 dbm"
    using fs_map.dealloc_result [of "global_dbmap k" "\<lparr>br_start = block_of k f, br_length = 1\<rparr>"] m b by (auto simp: maps_ok_def br_set_def)
  obtain ibm where ibm: "dealloc_bitrange (global_ibmap k) \<lparr>br_start = f, br_length = 1\<rparr> = Inr ibm"
      "bm_used ibm = bm_used (global_ibmap k) - {f}" "bm_inv 1024 ibm"
    using fs_map.dealloc_result [of "global_ibmap k" "\<lparr>br_start = f, br_length = 1\<rparr>"] m fE(1) by (auto simp: maps_ok_def br_set_def)
  have maps: "global_dbmap k3 = global_dbmap k" "global_ibmap k3 = global_ibmap k" using k3(3) by simp_all
  ultimately have "unlink w k path off = Inr (0, k3\<lparr>global_dbmap := dbm, global_ibmap := ibm\<rparr>)" (is "_ = Inr (0, ?k')")
    using pp(1) k3(1) ino maps dbm(1) ibm(1) c by (simp add: unlink_def block_of_def)
  moreover have "removed k (dirs d) d f ?k'"
    using k3(2,3) dbm ibm dir_of_cong [of ?k' k3 d "remove_ino f (dirs d)"] by (simp add: removed_def)
  ultimately show ?thesis by blast
qed

section \<open>Properties\<close>

lemma create_in_tree:
  assumes ok: "tree_ok k dirs" and new: "creatable k dirs cs nm d i b" and arg: "path_arg k path off (47 # join_path cs @ nm)"
    and fd: "next_descriptor k fd"
  shows "\<exists>k'. create_filetype k path off ftype True = Inr (int fd, k') \<and> created k (dirs d) nm ftype d i b k' \<and> opened k nm i fd k' \<and> heap_kept k k'"
proof -
  obtain dp fn h2 where room: "path_room k (length (47 # join_path cs @ nm) + 1) dp fn h2" and
    a: "cstr_at path off (47 # join_path cs @ nm)" "length (47 # join_path cs @ nm) < 4294967295" "heap_inv (heap k)"
    using arg by (auto simp: path_arg_def)
  show ?thesis
    using create_filetype_fd_ok [OF creatable_can_create [OF ok new a(3)] a(1,2) room fd] by (simp add: heap_kept_def)
qed

lemma root_kernel_tree: "tree_ok root_kernel (\<lambda>_. [])"
proof -
  have D: "directories root_kernel = {0}" "with_block root_kernel = {0}"
    unfolding directories_def with_block_def root_kernel_maps(1) by (auto simp: type_of_def root_kernel_def root_inode_def zero_inode_def)
  have "maps_ok root_kernel" using root_kernel_maps(1,2) root_kernel_table
    by (simp add: maps_ok_def bm_inv_def) (simp add: root_kernel_def)
  moreover have "blocks_ok root_kernel"
    unfolding blocks_ok_def D root_kernel_maps(2) by (simp add: block_of_def root_kernel_def root_inode_def)
  ultimately show ?thesis using root_kernel_dir D by (simp add: tree_ok_def names_ok_def)
qed

lemma root_kernel_creatable: "comp_ok nm \<Longrightarrow> creatable root_kernel (\<lambda>_. []) [] nm 0 1 9"
  using root_kernel_maps root_kernel_tree
  by (simp add: creatable_def leads_to_def tree_ok_def)

lemma root_kernel_arg: "cstr_at path off s \<Longrightarrow> length s < 1000 \<Longrightarrow> path_arg root_kernel path off s"
  using root_kernel_room [of "length s + 1"] root_kernel_heap by (simp add: path_arg_def)

text \<open>C2: Creating a file puts it into the tree and disturbs nothing else. For a new name in an existing
  directory with room, \<open>create\<close> returns the lowest free descriptor, the disk represents the old tree with exactly that
  file added (an empty file whose inode and data block are the lowest free ones), every path that led somewhere still
  leads there, and the temporary strings on the heap are released.\<close>

theorem create_extends_tree:
  assumes "tree_ok k dirs" and "creatable k dirs cs nm d i b" and "path_arg k path off (47 # join_path cs @ nm)" and "next_descriptor k fd"
  shows "\<exists>k'. create k path off = Inr (int fd, k') \<and> tree_ok k' (add_node dirs d nm i) \<and>
    leads_to k' (add_node dirs d nm i) (cs @ [nm]) i \<and> type_of k' i = FILE_TYPE_NORMAL \<and> file_size k' i = 0 \<and> block_of k' i = b \<and>
    (\<forall>cs' j. leads_to k dirs cs' j \<longrightarrow> leads_to k' (add_node dirs d nm i) cs' j) \<and> opened k nm i fd k' \<and> heap_kept k k'"
proof -
  obtain k' where k': "create k path off = Inr (int fd, k')" "created k (dirs d) nm 1 d i b k'" "opened k nm i fd k'" "heap_kept k k'"
    using create_in_tree [OF assms, of 1] by (auto simp: create_def FILE_TYPE_NORMAL_def)
  have "i < length (global_inode_table k)" "d < length (global_inode_table k)"
    using assms(1,2) by (auto simp: creatable_def tree_ok_def maps_ok_def directories_def)
  from created_inodes(2) [OF k'(2) this] have "block_of k' i = b" by simp
  then show ?thesis using k' created_in_tree [OF assms(1,2) k'(2)] by (auto simp: FILE_TYPE_NORMAL_def)
qed

theorem create_extends_tree_witness:
  "\<exists>k'. create root_kernel [47, 97, 0] 0 = Inr (0, k') \<and> tree_ok k' (add_node (\<lambda>_. []) 0 [97] 1) \<and> block_of k' 1 = 9"
proof -
  have "path_arg root_kernel [47, 97, 0] 0 (47 # join_path [] @ [97])"
    by (rule root_kernel_arg) (simp_all add: cstr_at_def join_path_def)
  moreover have "comp_ok [97]" by (simp add: comp_ok_def name_ok_def)
  ultimately show ?thesis
    using create_extends_tree [OF root_kernel_tree root_kernel_creatable _ root_kernel_maps(5)] by fastforce
qed

text \<open>The disk with the file \<open>/a\<close> on it.\<close>

lemma sample_file:
  obtains k' where "created root_kernel [] [97] 1 0 1 9 k'" and "opened root_kernel [97] 1 0 k'" and "heap_kept root_kernel k'"
    and "tree_ok k' (add_node (\<lambda>_. []) 0 [97] 1)" and "next_descriptor k' 1" and "0 \<in> directories k'" and "leads_to k' (add_node (\<lambda>_. []) 0 [97] 1) [] 0"
    and "type_of k' 1 = 1" and "block_of k' 1 = 9"
proof -
  have c: "comp_ok [97]" by (simp add: comp_ok_def name_ok_def)
  have arg: "path_arg root_kernel [47, 97, 0] 0 (47 # join_path [] @ [97])"
    by (rule root_kernel_arg) (simp_all add: cstr_at_def join_path_def)
  obtain k' where k': "created root_kernel [] [97] 1 0 1 9 k'" "opened root_kernel [97] 1 0 k'" "heap_kept root_kernel k'"
    using create_in_tree [OF root_kernel_tree root_kernel_creatable [OF c] arg root_kernel_maps(5), of 1] by auto
  note tr = created_in_tree [OF root_kernel_tree root_kernel_creatable [OF c] k'(1)]
  have "bm_used (fd_bitmap root_kernel) = {}"
    using bm_bit_head [of _ 0 0] by (auto simp: root_kernel_def bm_used_def)
  then have "next_descriptor k' 1"
    using k'(2) root_kernel_maps(5) by (auto simp: next_descriptor_def opened_def least_free_def)
  moreover have "0 \<in> directories k'" using tr(1) by (simp add: tree_ok_def)
  moreover have "leads_to k' (add_node (\<lambda>_. []) 0 [97] 1) [] 0" by (simp add: leads_to_def)
  moreover have "block_of k' 1 = 9" using created_inodes(2) [OF k'(1)] root_kernel_table by simp
  ultimately show thesis using that k' tr(1,3) by blast
qed

lemma create_nofd_in_tree:
  assumes ok: "tree_ok k dirs" and new: "creatable k dirs cs nm d i b" and arg: "path_arg k path off (47 # join_path cs @ nm)"
  shows "\<exists>k'. create_filetype k path off ftype False = Inr (0, k') \<and> created k (dirs d) nm ftype d i b k' \<and> heap_kept k k' \<and>
    fd_bitmap k' = fd_bitmap k \<and> fd_entries k' = fd_entries k"
proof -
  obtain dp fn h2 where room: "path_room k (length (47 # join_path cs @ nm) + 1) dp fn h2" and
    a: "cstr_at path off (47 # join_path cs @ nm)" "length (47 # join_path cs @ nm) < 4294967295" "heap_inv (heap k)"
    using arg by (auto simp: path_arg_def)
  show ?thesis
    using create_filetype_ok [OF creatable_can_create [OF ok new a(3)] a(1,2) room] by (simp add: heap_kept_def)
qed

lemma open_in_tree:
  assumes ok: "tree_ok k dirs" and p: "leads_to k dirs cs d" "d \<in> directories k" "\<forall>x \<in> set cs. comp_ok x" "comp_ok nm"
    and arg: "path_arg k path off (47 # join_path cs @ nm)" and fd: "next_descriptor k fd"
  shows "\<exists>k'. open_file k path off = Inr (if map_of (dirs d) nm = None then - 1 else int fd, k') \<and> tree_ok k' dirs \<and> heap_kept k k' \<and> sys_fds k' = sys_fds k \<and> global_ibmap k' = global_ibmap k \<and>
    disk k' = disk k \<and> global_inode_table k' = global_inode_table k \<and>
    (case map_of (dirs d) nm of None \<Rightarrow> fd_entries k' = fd_entries k \<and> fd_bitmap k' = fd_bitmap k | Some i \<Rightarrow> opened k nm i fd k')"
proof -
  obtain dp fn h2 where room: "path_room k (length (47 # join_path cs @ nm) + 1) dp fn h2" and
    a: "cstr_at path off (47 # join_path cs @ nm)" "length (47 # join_path cs @ nm) < 4294967295" "heap_inv (heap k)"
    using arg by (auto simp: path_arg_def)
  have nm: "47 \<notin> set nm" "length nm < 32" using p(4) by (simp_all add: comp_ok_def name_ok_def)
  have pok: "path_ok k dirs 0 cs" "resolve dirs 0 cs = Some d" using in_tree_path_ok [OF ok, of 0 cs] p(1) by (simp_all add: leads_to_def)
  have d: "dir_of k d (dirs d)" using ok p(2) by (simp add: tree_ok_def)
  have small: "i < 2147483648" if "map_of (dirs d) nm = Some i" for i using tree_entry_used(2) [OF ok p(2) that] by linarith
  have keep: "tree_ok k' dirs" if "disk k' = disk k" "global_inode_table k' = global_inode_table k" "global_ibmap k' = global_ibmap k"
    "global_dbmap k' = global_dbmap k" for k'
    using ok dir_of_cong [OF that(2,1)] that
    by (simp add: tree_ok_def maps_ok_def blocks_ok_def directories_def with_block_def type_of_def block_of_def [abs_def])
  obtain m h where mh: "heap_inv h" "heap_live h = heap_live (heap k)" "length m = length (hmem k)" and res:
    "case map_of (dirs d) nm of
       None \<Rightarrow> open_file k path off = Inr (- 1, PUSH_ERROR ''src/fs.c:388: error:file doesn't exist'' (k\<lparr>heap := h, hmem := m\<rparr>))
     | Some i \<Rightarrow> \<exists>bm. open_file k path off =
         Inr (int fd, k\<lparr>heap := h, hmem := m\<rparr>\<lparr>fd_bitmap := bm, fd_entries := (fd_entries k)[fd := new_descriptor nm i fd]\<rparr>) \<and>
         length bm = 1 \<and> bm_used bm = insert fd (bm_used (fd_bitmap k))"
    using open_file_ok [OF a(3,1) nm a(2) room p(3) pok d fd small] by auto
  show ?thesis
  proof (cases "map_of (dirs d) nm")
    case None
    then show ?thesis using res mh keep by (auto simp: PUSH_ERROR_def heap_kept_def)
  next
    case (Some i)
    then obtain bm where "open_file k path off =
         Inr (int fd, k\<lparr>heap := h, hmem := m\<rparr>\<lparr>fd_bitmap := bm, fd_entries := (fd_entries k)[fd := new_descriptor nm i fd]\<rparr>)" (is "_ = Inr (_, ?k')")
      "length bm = 1" "bm_used bm = insert fd (bm_used (fd_bitmap k))" using res by auto
    then show ?thesis
      using Some mh keep [of ?k'] fd by (intro exI [of _ ?k']) (simp add: opened_def heap_kept_def next_descriptor_def)
  qed
qed



text \<open>C14: Writing to a file changes that file only: the tree, and the bytes and sizes of all other files and
  directories, are as before, and all the bytes asked for are written.\<close>

theorem write_changes_one_file:
  assumes "tree_ok k dirs" and "plain_fd k fd f" and "f \<in> bm_used (global_ibmap k)" and "type_of k f = FILE_TYPE_NORMAL"
    and "cnt \<le> length buf" and "file_size k f + cnt < 4294967296" and "write_pos (fd_entries k ! fd) + cnt \<le> 4096"
  shows "\<exists>k'. write_file w k (int fd) buf cnt = Inr (cnt, k') \<and> tree_ok k' dirs \<and> file_size k' f = file_size k f + cnt \<and>
    (\<forall>j \<in> with_block k - {f}. file_block k' j = file_block k j \<and> file_size k' j = file_size k j)"
  using write_file_tree_ok [OF assms(1-3) _ assms(6,5) refl assms(7), of w] assms(4)
  by (auto simp: FILE_TYPE_NORMAL_def)

theorem write_changes_one_file_witness:
  "\<exists>k. tree_ok k (add_node (\<lambda>_. []) 0 [97] 1) \<and> (\<forall>w. \<exists>k'. write_file w k 0 [72, 105] 2 = Inr (2, k') \<and> tree_ok k' (add_node (\<lambda>_. []) 0 [97] 1))"
proof -
  obtain k where k: "created root_kernel [] [97] 1 0 1 9 k" "opened root_kernel [97] 1 0 k" "tree_ok k (add_node (\<lambda>_. []) 0 [97] 1)"
    "type_of k 1 = 1" "block_of k 1 = 9"
    by (rule sample_file)
  have m: "length (global_inode_table k) = 426" "\<And>c. length (disk k c) = 4096" using k(3) by (simp_all add: tree_ok_def maps_ok_def)
  have e: "fd_entries k ! 0 = new_descriptor [97] 1 0" "length (fd_entries k) = 32"
    using k(2) root_kernel_maps(5) by (simp_all add: opened_def next_descriptor_def)
  have "plain_fd k 0 1" using e k(4) m by (simp add: plain_fd_def new_descriptor_def type_of_def read_block_def)
  moreover have "1 \<in> bm_used (global_ibmap k)" using k(1) by (simp add: created_def)
  moreover have "file_size k 1 = 0" using created_inodes(3) [OF k(1)] root_kernel_table by (simp add: file_size_def)
  ultimately have "\<exists>k'. write_file w k (int 0) [72, 105] 2 = Inr (2, k') \<and> tree_ok k' (add_node (\<lambda>_. []) 0 [97] 1)" for w
    using write_changes_one_file [OF k(3), of 0 1 2 "[72, 105]" w] k(4) e by (auto simp: FILE_TYPE_NORMAL_def new_descriptor_def)
  then show ?thesis using k(3) by auto
qed

text \<open>C4: Deleting an entry of a directory. \<open>unlink_file_in_dir\<close> with an inode number that the directory does not have changes nothing. With one that it has, in a directory
  of fewer than 113 entries, exactly the first entry with that number goes, the later ones keep their order, the size of the directory shrinks by one entry, and no other inode
  and no other block changes. In a directory of 113 entries, the most a block can hold, the loop that moves the later entries down reads past the end of the block.\<close>

theorem unlink_file_in_dir_outcome:
  assumes d: "dir_of k d es"
  shows "if f \<notin> snd ` set es then unlink_file_in_dir k d f = Inr k
    else if length es < 113 then \<exists>k'. unlink_file_in_dir k d f = Inr k' \<and> dir_of k' d (remove_ino f es) \<and> i_size (global_inode_table k' ! d) = 36 * (length es - 1) \<and>
      (\<forall>j. j \<noteq> d \<longrightarrow> global_inode_table k' ! j = global_inode_table k ! j) \<and> (\<forall>c. c \<noteq> disk_block (block_of k d) \<longrightarrow> disk k' c = disk k c) \<and>
      global_ibmap k' = global_ibmap k \<and> global_dbmap k' = global_dbmap k
    else unlink_file_in_dir k d f = Inl Out_of_bounds"
proof -
  have n: "length es \<le> 113" "d < length (global_inode_table k)" using dir_of_length [OF d] d by (simp_all add: dir_of_def)
  consider "f \<notin> snd ` set es" | "f \<in> snd ` set es" "length es < 113" | "f \<in> snd ` set es" "length es = 113" using n(1) by linarith
  then show ?thesis
  proof cases
    case 2
    obtain k' where "unlink_file_in_dir k d f = Inr k'" "dir_of k' d (remove_ino f es)"
        "global_inode_table k' = (global_inode_table k)[d := (global_inode_table k ! d)\<lparr>i_size := 36 * (length es - 1)\<rparr>]"
        "\<forall>c. c \<noteq> disk_block (block_of k d) \<longrightarrow> disk k' c = disk k c" "global_ibmap k' = global_ibmap k" "global_dbmap k' = global_dbmap k"
      using unlink_file_in_dir_of [OF d 2(2,1)] by (auto simp: block_of_def)
    then show ?thesis using 2 n(2) by simp
  qed (use unlink_file_in_dir_missing [OF d] unlink_file_in_dir_full [OF d] in simp_all)
qed

theorem unlink_file_in_dir_outcome_witness: "\<exists>k k'. dir_of k 0 [([97], 1)] \<and> unlink_file_in_dir k 0 1 = Inr k' \<and> dir_of k' 0 [] \<and> unlink_file_in_dir k 0 7 = Inr k"
proof -
  obtain k where "tree_ok k (add_node (\<lambda>_. []) 0 [97] 1)" "0 \<in> directories k" by (rule sample_file)
  then have d: "dir_of k 0 [([97], 1)]" by (auto simp: tree_ok_def add_node_def)
  then show ?thesis using unlink_file_in_dir_outcome [OF d, of 1] unlink_file_in_dir_outcome [OF d, of 7] by auto
qed

text \<open>C3: Deleting a file. \<open>unlink\<close> copies the path with its terminator into an array declared with \<open>strlen(path)\<close> bytes. With exactly these bytes the copy leaves the array, for
  every path; that is its outcome by the language. On a machine where at least one more byte has been set aside for the array it goes on, and for a file or directory with a data block, in a
  directory that is not completely full, it then frees exactly the inode and the block of the file, the name is gone, and every other name of that directory and the rest of the tree are unchanged.\<close>

theorem unlink_prunes_tree:
  assumes ok: "tree_ok k dirs" and p: "leads_to k dirs cs d" "d \<in> directories k" "\<forall>x \<in> set cs. comp_ok x" "comp_ok nm"
    and c: "cstr_at path off (47 # join_path cs @ nm)" and f: "map_of (dirs d) nm = Some f" "type_of k f \<noteq> FILE_TYPE_SPECIAL"
    and room: "length (dirs d) < 113" and env: "\<forall>n. length (junk (env w) n) = n"
  shows "if vla (env w) (length (47 # join_path cs @ nm)) \<le> length (47 # join_path cs @ nm) then unlink w k path off = Inl Out_of_bounds
    else \<exists>k'. unlink w k path off = Inr (0, k') \<and> tree_ok k' (del_node dirs d f) \<and>
      bm_used (global_ibmap k') = bm_used (global_ibmap k) - {f} \<and> bm_used (global_dbmap k') = bm_used (global_dbmap k) - {block_of k f} \<and>
      map_of (del_node dirs d f d) = (map_of (dirs d))(nm := None) \<and> (\<forall>j. j \<noteq> d \<longrightarrow> del_node dirs d f j = dirs j)"
proof (cases "vla (env w) (length (47 # join_path cs @ nm)) \<le> length (47 # join_path cs @ nm)")
  case True
  then show ?thesis using unlink_overruns_path_buffer [OF c True] env by simp
next
  case False
  have nm: "47 \<notin> set nm" "length nm < 32" using p(4) by (simp_all add: comp_ok_def name_ok_def)
  have t2: "type_of k f \<noteq> 2" using f(2) by (simp add: FILE_TYPE_SPECIAL_def)
  have fU: "f \<in> bm_used (global_ibmap k)" using tree_entry_used(1) [OF ok p(2) f(1)] .
  then have "f \<in> with_block k" using t2 by (simp add: with_block_def)
  then have b: "block_of k f \<in> bm_used (global_dbmap k)" using ok by (auto simp: tree_ok_def blocks_ok_def)
  obtain k' where k': "unlink w k path off = Inr (0, k')" "removed k (dirs d) d f k'"
    using unlink_ok [OF ok c nm p(3,1,2) f(1) room b] env False by (auto simp: not_le)
  have fe: "f \<in> snd ` set (dirs d)" using map_of_SomeD [OF f(1)] by force
  have "d \<noteq> f" using fe not_own_entry [OF ok p(1,2)] by auto
  from removed_tree_ok [OF ok p(2) this fe t2 k'(2)] have "tree_ok k' (del_node dirs d f)" .
  moreover have "map_of (del_node dirs d f d) = (map_of (dirs d))(nm := None)"
    using map_of_remove_ino [OF _ _ f(1)] ok p(2) by (auto simp: del_node_def tree_ok_def names_ok_def fun_eq_iff)
  moreover have "\<forall>j. j \<noteq> d \<longrightarrow> del_node dirs d f j = dirs j" by (simp add: del_node_def)
  ultimately show ?thesis using k' False unfolding removed_def by (simp only: if_False) blast
qed

definition roomy_world :: world where
  "roomy_world = exact_world\<lparr>env := \<lparr>vla = (\<lambda>n. n + 16), junk = (\<lambda>n. replicate n 0)\<rparr>\<rparr>"

theorem unlink_prunes_tree_witness:
  "\<exists>k k'. tree_ok k (add_node (\<lambda>_. []) 0 [97] 1) \<and> unlink exact_world k [47, 97, 0] 0 = Inl Out_of_bounds \<and> unlink roomy_world k [47, 97, 0] 0 = Inr (0, k') \<and>
     tree_ok k' (del_node (add_node (\<lambda>_. []) 0 [97] 1) 0 1) \<and> del_node (add_node (\<lambda>_. []) 0 [97] 1) 0 1 0 = []"
proof -
  obtain k where k: "tree_ok k (add_node (\<lambda>_. []) 0 [97] 1)" "0 \<in> directories k" "leads_to k (add_node (\<lambda>_. []) 0 [97] 1) [] 0" "type_of k 1 = 1"
    by (rule sample_file)
  have "cstr_at [47, 97, 0] 0 (47 # join_path [] @ [97])" by (simp add: cstr_at_def join_path_def)
  then show ?thesis
    using unlink_prunes_tree [OF k(1,3,2), of "[97]" "[47, 97, 0]" 0 1 roomy_world] unlink_prunes_tree [OF k(1,3,2), of "[97]" "[47, 97, 0]" 0 1 exact_world] k
    by (auto simp: comp_ok_def name_ok_def add_node_def del_node_def FILE_TYPE_SPECIAL_def roomy_world_def exact_world_def join_path_def)
qed

text \<open>C33: Deleting a special file. A special file is made without a data block; its inode holds the place-holder 0. \<open>unlink\<close> of a special file that \<open>create_filetype\<close> has just made either leaves
  its array for the path (which has exactly the declared bytes) or, with a spare byte behind the array, clears bit 0 of the data map, the bit of the superblock: the next file that is created
  gets block 0, and its first write replaces the superblock.\<close>

theorem unlink_special_frees_superblock:
  assumes ok: "tree_ok k dirs" "creatable k dirs cs nm d i b" "length (dirs d) < 112" and arg: "path_arg k path off (47 # join_path cs @ nm)"
    and mk: "create_filetype k path off FILE_TYPE_SPECIAL False = Inr (0, k1)" and super: "0 \<in> bm_used (global_dbmap k)" and env: "\<forall>n. length (junk (env w) n) = n"
  shows "if vla (env w) (length (47 # join_path cs @ nm)) \<le> length (47 # join_path cs @ nm) then unlink w k1 path off = Inl Out_of_bounds
    else \<exists>k2 bm. unlink w k1 path off = Inr (0, k2) \<and> alloc_bitrange (global_dbmap k2) MAP_CAPACITY 1 False = Inr (\<lparr>br_start = 0, br_length = 1\<rparr>, bm)"
proof (cases "vla (env w) (length (47 # join_path cs @ nm)) \<le> length (47 # join_path cs @ nm)")
  case True
  have "cstr_at path off (47 # join_path cs @ nm)" using arg by (simp add: path_arg_def)
  then show ?thesis using unlink_overruns_path_buffer [OF _ True] True env by simp
next
  case False
  have new: "leads_to k dirs cs d" "d \<in> directories k" "\<forall>x \<in> set cs. comp_ok x" "comp_ok nm" "map_of (dirs d) nm = None" "i < 426" using ok(2) by (simp_all add: creatable_def)
  have nm: "47 \<notin> set nm" "length nm < 32" and c: "cstr_at path off (47 # join_path cs @ nm)" using new(4) arg by (simp_all add: comp_ok_def name_ok_def path_arg_def)
  have cr: "created k (dirs d) nm FILE_TYPE_SPECIAL d i b k1" using create_nofd_in_tree [OF ok(1,2) arg, of FILE_TYPE_SPECIAL] mk by auto
  note tr = created_in_tree [OF ok(1,2) cr]
  have id: "i \<noteq> d" and lt: "i < length (global_inode_table k)" "d < length (global_inode_table k)"
    using cr ok(1) new(2,6) by (auto simp: created_def tree_ok_def maps_ok_def directories_def)
  have d1: "d \<in> directories k1" using new(2) created_inodes(4) [OF cr lt, of d] cr id by (simp add: directories_def created_def)
  have b0: "block_of k1 i = 0" "0 \<in> bm_used (global_dbmap k1)"
    using cr super id lt by (simp_all add: created_def block_of_def new_inode_def FILE_TYPE_SPECIAL_def)
  have e: "map_of (add_node dirs d nm i d) nm = Some i" "length (add_node dirs d nm i d) < 113" using new(5) id ok(3) by (simp_all add: add_node_def map_add_def)
  obtain k2 where k2: "unlink w k1 path off = Inr (0, k2)" "removed k1 (add_node dirs d nm i d) d i k2"
    using unlink_ok [OF tr(1) c nm new(3) tr(4) [OF new(1)] d1 e] b0 env False by (auto simp: not_le)
  then have "least_free (global_dbmap k2) 0" "length (global_dbmap k2) \<le> 1024"
    using b0(1) by (simp_all add: removed_def bm_inv_def least_free_def)
  from alloc_least_free [OF this] show ?thesis using k2(1) False by auto
qed

theorem unlink_special_frees_superblock_witness:
  "\<exists>k k' bm. create_filetype root_kernel [47, 97, 0] 0 FILE_TYPE_SPECIAL False = Inr (0, k) \<and> unlink roomy_world k [47, 97, 0] 0 = Inr (0, k') \<and>
     alloc_bitrange (global_dbmap k') MAP_CAPACITY 1 False = Inr (\<lparr>br_start = 0, br_length = 1\<rparr>, bm)"
proof -
  have c: "comp_ok [97]" by (simp add: comp_ok_def name_ok_def)
  have arg: "path_arg root_kernel [47, 97, 0] 0 (47 # join_path [] @ [97])"
    by (rule root_kernel_arg) (simp_all add: cstr_at_def join_path_def)
  obtain k where k: "create_filetype root_kernel [47, 97, 0] 0 FILE_TYPE_SPECIAL False = Inr (0, k)"
    using create_nofd_in_tree [OF root_kernel_tree root_kernel_creatable [OF c] arg, of FILE_TYPE_SPECIAL] by blast
  then show ?thesis using unlink_special_frees_superblock [OF root_kernel_tree root_kernel_creatable [OF c] _ arg k, of roomy_world] root_kernel_maps(2)
    by (auto simp: roomy_world_def exact_world_def join_path_def)
qed

end
