(* ===== verification/Fs_Mount.thy ===== *)
theory Fs_Mount
  imports Fs_Tree
begin

text \<open>
  Mounting, formatting and shutting down (\<open>initalize_file_system\<close> and \<open>shutdown\<close> of \<open>src/src/fs.c\<close>,
  \<open>create_system_files\<close> and \<open>open_system_files\<close> of \<open>src/src/file_handlers.c\<close>), with the layout of the
  metadata on the disk: the superblock in block 0, the two maps and the inode table in the blocks it names. Numbers are
  stored least significant byte first; an inode takes 48 bytes, three of them padding that comes from the compiler
  (\<open>inode_pad\<close>); the superblock is written as a whole block, that is with the 4044 bytes the linker placed behind it
  (\<open>super_tail\<close>).
\<close>

section \<open>Definitions\<close>

subsection \<open>The layout on the disk\<close>

definition SUPER_SIZE :: nat where "SUPER_SIZE = 1"
definition INODE_BITMAP_SIZE :: nat where "INODE_BITMAP_SIZE = 1"
definition DATA_BITMAP_SIZE :: nat where "DATA_BITMAP_SIZE = 1"
definition INODE_TABLE_SIZE :: nat where "INODE_TABLE_SIZE = 5"
definition DATA_REGION_START :: nat where "DATA_REGION_START = SUPER_SIZE + INODE_BITMAP_SIZE + DATA_BITMAP_SIZE + INODE_TABLE_SIZE"

fun le_val :: "u8 list \<Rightarrow> nat" where
  "le_val [] = 0"
| "le_val (b # bs) = unat b + 256 * le_val bs"

definition field :: "u8 list \<Rightarrow> nat \<Rightarrow> nat \<Rightarrow> nat" where
  "field bs p n = le_val (take n (drop p bs))"

definition le64 :: "nat \<Rightarrow> u8 list" where
  "le64 n = le32 n @ le32 (n div 4294967296)"

definition super_bytes :: "FileSystemSuper \<Rightarrow> u8 list" where
  "super_bytes s = format_indicator s @ le64 (disk_size s) @ le32 (sector_count s) @ le32 (block_count s) @
     le32 (i_bmap_start s) @ le32 (d_bmap_start s) @ le32 (inode_table_start s) @ le32 (used_inodes s) @ le32 (data_start s)"

definition bytes_super :: "u8 list \<Rightarrow> FileSystemSuper" where
  "bytes_super bs =
     \<lparr>format_indicator = take 16 bs, disk_size = field bs 16 8, sector_count = field bs 24 4, block_count = field bs 28 4,
      i_bmap_start = field bs 32 4, d_bmap_start = field bs 36 4, inode_table_start = field bs 40 4,
      used_inodes = field bs 44 4, data_start = field bs 48 4\<rparr>"

definition inode_bytes :: "u8 list \<Rightarrow> FileSystemInode \<Rightarrow> u8 list" where
  "inode_bytes pad ino = i_name ino @ [file_type ino] @ pad @ le32 (data_block_start ino) @ le32 (i_size ino) @ le32 (parent_inode_num ino)"

definition bytes_inode :: "u8 list \<Rightarrow> FileSystemInode" where
  "bytes_inode bs =
     \<lparr>i_name = take 32 bs, file_type = bs ! 32, data_block_start = field bs 36 4, i_size = field bs 40 4,
      parent_inode_num = field bs 44 4\<rparr>"

definition words_bytes :: "u32 list \<Rightarrow> u8 list" where
  "words_bytes ws = concat (map (\<lambda>w. le32 (unat w)) ws)"

definition bytes_words :: "nat \<Rightarrow> u8 list \<Rightarrow> u32 list" where
  "bytes_words n bs = map (\<lambda>i. of_nat (field bs (4 * i) 4)) [0 ..< n]"

definition table_bytes :: "u8 list \<Rightarrow> FileSystemInode list \<Rightarrow> u8 list" where
  "table_bytes pad tab = concat (map (inode_bytes pad) tab)"

definition bytes_table :: "nat \<Rightarrow> u8 list \<Rightarrow> FileSystemInode list" where
  "bytes_table n bs = map (\<lambda>i. bytes_inode (take 48 (drop (48 * i) bs))) [0 ..< n]"

definition load_blocks :: "nat \<Rightarrow> nat \<Rightarrow> kernel \<Rightarrow> u8 list" where
  "load_blocks b n k = concat (map (\<lambda>i. read_block k (b + i)) [0 ..< n])"

fun store_blocks :: "nat \<Rightarrow> u8 list \<Rightarrow> nat \<Rightarrow> kernel \<Rightarrow> kernel" where
  "store_blocks b bytes 0 k = k"
| "store_blocks b bytes (Suc n) k = store_blocks (b + 1) (drop 4096 bytes) n (write_block b (take 4096 bytes) k)"

subsection \<open>The special files\<close>

definition print :: "world \<Rightarrow> string \<Rightarrow> kernel \<Rightarrow> kernel res" where
  "print w msg k = obind (kprintf (env w) (cstr_of msg @ [0]) [] (screen k)) (\<lambda>s. Inr (k\<lparr>screen := s\<rparr>))"

text \<open>\<open>whole_name\<close>: the path of a special file, in an array of 48 bytes.\<close>

definition whole_name :: "nat \<Rightarrow> u8 list res" where
  "whole_name i =
     obind (strcat (system_names ! i) 0 (cstr_of ''/dev/'' @ replicate 43 0) 5) (\<lambda>(_, buf). Inr buf)"

definition create_system_file :: "nat \<Rightarrow> kernel \<Rightarrow> kernel res" where
  "create_system_file i k =
     obind (whole_name i) (\<lambda>path.
     obind (create_filetype k path 0 FILE_TYPE_SPECIAL False) (\<lambda>(r, k').
     obind (assert_that (r \<noteq> - 1) ''Failure in system files assignment'') (\<lambda>_. Inr k')))"

definition create_system_files :: "kernel \<Rightarrow> kernel res" where
  "create_system_files k =
     obind (mkdir k (cstr_of ''/dev'' @ [0]) 0) (\<lambda>(r, k1).
       if r = 1 then Inl (Panic (error_msg k1))
       else obind (create_system_file 0 k1) (create_system_file 1))"

text \<open>\<open>system_files->initialization_func\<close> is the one of the first file, whatever the loop index: it does nothing.\<close>

definition open_system_file :: "nat \<Rightarrow> kernel \<Rightarrow> kernel res" where
  "open_system_file i k =
     obind (whole_name i) (\<lambda>path.
     obind (open_file k path 0) (\<lambda>(fd, k').
       if fd = - 1 then Inl (Panic (error_msg k'))
       else Inr (k'\<lparr>sys_fds := (sys_fds k')[i := fd]\<rparr>)))"

definition open_system_files :: "kernel \<Rightarrow> kernel res" where
  "open_system_files k = obind (open_system_file 0 k) (open_system_file 1)"

subsection \<open>Mounting, formatting, shutting down\<close>

definition load_metadata :: "kernel \<Rightarrow> kernel" where
  "load_metadata k =
     (let s = global_super k; tab = load_blocks (inode_table_start s) INODE_TABLE_SIZE k in
      k\<lparr>global_ibmap := bytes_words 1024 (load_blocks (i_bmap_start s) INODE_BITMAP_SIZE k),
        global_dbmap := bytes_words 1024 (load_blocks (d_bmap_start s) DATA_BITMAP_SIZE k),
        global_inode_table := bytes_table 426 tab, table_tail := drop 20448 tab\<rparr>)"

definition new_super :: "world \<Rightarrow> FileSystemSuper \<Rightarrow> FileSystemSuper" where
  "new_super w s =
     (let i = SUPER_SIZE; d = i + INODE_BITMAP_SIZE; t = d + DATA_BITMAP_SIZE in
      \<lparr>format_indicator = overlay 0 (cstr_of ''Yorha'' @ [0]) (format_indicator s), disk_size = drive_size w,
       sector_count = w32 (drive_size w div 512), block_count = 64, i_bmap_start = i, d_bmap_start = d,
       inode_table_start = t, used_inodes = 1, data_start = t + INODE_TABLE_SIZE\<rparr>)"

definition format_disk :: "world \<Rightarrow> kernel \<Rightarrow> kernel res" where
  "format_disk w k0 =
     (let s = new_super w (global_super k0);
          k1 = store_blocks 0 (super_bytes s @ super_tail w) 1 (k0\<lparr>global_super := s\<rparr>) in
      obind (rd (global_ibmap k1) 0) (\<lambda>i0.
      obind (alloc_bitrange (global_dbmap k1) MAP_CAPACITY (DATA_REGION_START + 1) False) (\<lambda>(_, dbm).
      let k2 = k1\<lparr>global_ibmap := (global_ibmap k1)[0 := i0 OR push_bit 31 1], global_dbmap := dbm\<rparr>;
          k3 = store_blocks (i_bmap_start s) (words_bytes (global_ibmap k2)) 1 k2;
          k4 = store_blocks (d_bmap_start s) (words_bytes (global_dbmap k3)) 1 k3 in
      obind (wr (global_inode_table k4) 0
               \<lparr>i_name = replicate 32 0, file_type = 0, data_block_start = data_start s, i_size = 0, parent_inode_num = 0\<rparr>) (\<lambda>tab.
      let k5 = k4\<lparr>global_inode_table := tab\<rparr>;
          k6 = store_blocks (inode_table_start s) (table_bytes (inode_pad w) tab @ table_tail k5)
                 (data_start s - inode_table_start s) k5 in
      case null_page w of
        None \<Rightarrow> Inl Null_deref
      | Some bytes \<Rightarrow> Inr (store_blocks (data_start s) bytes 1 k6)))))"

definition initalize_file_system :: "world \<Rightarrow> kernel \<Rightarrow> bool \<Rightarrow> (bool \<times> kernel) res" where
  "initalize_file_system w k force_format =
     (let k0 = k\<lparr>global_super := bytes_super (take 512 (read_block k 0))\<rparr> in
      obind (if force_format then Inr False
             else obind (strcmp (format_indicator (global_super k0)) 0 (cstr_of ''Yorha'' @ [0]) 0) (\<lambda>r. Inr (r = 0))) (\<lambda>known.
        if known then
          obind (print w ''Disk Recognized\<newline>'' k0) (\<lambda>k1.
          obind (open_system_files (load_metadata k1)) (\<lambda>k2. Inr (True, k2)))
        else
          obind (print w ''Formatting Disk...\<newline>'' k0) (\<lambda>k1.
          obind (format_disk w k1) (\<lambda>k2.
          obind (create_system_files k2) (\<lambda>k3.
          obind (open_system_files k3) (\<lambda>k4. Inr (True, k4)))))))"

definition sync_metadata :: "world \<Rightarrow> kernel \<Rightarrow> kernel" where
  "sync_metadata w k =
     (let s = global_super k;
          k1 = store_blocks 0 (super_bytes s @ super_tail w) SUPER_SIZE k;
          k2 = store_blocks (i_bmap_start s) (words_bytes (global_ibmap k)) INODE_BITMAP_SIZE k1;
          k3 = store_blocks (d_bmap_start s) (words_bytes (global_dbmap k)) DATA_BITMAP_SIZE k2
      in store_blocks (inode_table_start s) (table_bytes (inode_pad w) (global_inode_table k) @ table_tail k) INODE_TABLE_SIZE k3)"

definition shutdown :: "world \<Rightarrow> kernel \<Rightarrow> kernel res" where
  "shutdown w k =
     obind (print w ''Shutting Down...\<newline>'' k) (\<lambda>k1.
     obind (print w ''Clearing File Descriptors...\<newline>'' k1) (\<lambda>k2.
     obind (close k2 (sys_fds k2 ! 0)) (\<lambda>(_, k3).
     obind (close k3 (sys_fds k3 ! 1)) (\<lambda>(_, k4).
     obind (print w ''Syncing Disk Metadata...\<newline>'' k4) (\<lambda>k5. Inr (sync_metadata w k5))))))"

section \<open>Encoding and decoding\<close>

lemma le_val_le32: "n < 4294967296 \<Longrightarrow> le_val (le32 n) = n"
  using le32_value [of n] by (simp add: le32_def algebra_simps)

lemma le_val_append: "le_val (xs @ ys) = le_val xs + 256 ^ length xs * le_val ys"
  by (induction xs) (simp_all add: algebra_simps)

lemma le32_mod: "le32 (n mod 4294967296) = le32 n"
proof -
  have w: "(of_nat (drop_bit i (take_bit 32 n)) :: u8) = of_nat (drop_bit i n)" if "i \<le> 24" for i
    using that unfolding word_of_nat_eq_iff by (intro bit_eqI) (auto simp: bit_simps)
  have e: "drop_bit 8 x = x div 256" "drop_bit 16 x = x div 65536" "drop_bit 24 x = x div 16777216" "take_bit 32 x = x mod 4294967296" for x :: nat
    by (simp_all add: drop_bit_eq_div take_bit_eq_mod)
  show ?thesis using w [of 0] w [of 8] w [of 16] w [of 24] unfolding e le32_def by simp
qed

lemma le_val_le64: "n < 18446744073709551616 \<Longrightarrow> le_val (le64 n) = n"
proof -
  assume "n < 18446744073709551616"
  then have "n div 4294967296 < 4294967296" by (simp add: div_less_iff_less_mult)
  then have "le_val (le64 n) = n mod 4294967296 + 4294967296 * (n div 4294967296)"
    using le_val_le32 [of "n mod 4294967296"] by (simp add: le64_def le_val_append le_val_le32 le32_mod)
  then show ?thesis by simp
qed

lemma length_le64 [simp]: "length (le64 n) = 8"
  by (simp add: le64_def)

text \<open>Cutting a concatenation of pieces of equal length.\<close>

lemma words_roundtrip: "bytes_words (length ws) (words_bytes ws @ rest) = ws"
proof (rule nth_equalityI)
  fix i assume "i < length (bytes_words (length ws) (words_bytes ws @ rest))"
  then have i: "i < length ws" by (simp add: bytes_words_def)
  have "unat (ws ! i) < 4294967296" using unsigned_less [of "ws ! i"] by simp
  then show "bytes_words (length ws) (words_bytes ws @ rest) ! i = ws ! i"
    using i concat_chunk [of ws "\<lambda>w. le32 (unat w)" 4 i rest] by (simp add: bytes_words_def words_bytes_def field_def le_val_le32)
qed (simp add: bytes_words_def)

definition inode_ok :: "FileSystemInode \<Rightarrow> bool" where
  "inode_ok ino \<longleftrightarrow> length (i_name ino) = 32 \<and> data_block_start ino < 4294967296 \<and> i_size ino < 4294967296 \<and> parent_inode_num ino < 4294967296"

lemma inode_roundtrip:
  assumes "inode_ok ino" and "length pad = 3"
  shows "bytes_inode (inode_bytes pad ino) = ino" and "length (inode_bytes pad ino) = 48"
proof -
  show "length (inode_bytes pad ino) = 48" using assms by (simp add: inode_bytes_def inode_ok_def)
  show "bytes_inode (inode_bytes pad ino) = ino"
    using assms by (simp add: inode_bytes_def bytes_inode_def field_def inode_ok_def nth_append le_val_le32)
qed

lemma table_roundtrip:
  assumes "\<forall>ino \<in> set tab. inode_ok ino" and "length pad = 3"
  shows "bytes_table (length tab) (table_bytes pad tab @ rest) = tab" and "length (table_bytes pad tab) = 48 * length tab"
proof -
  have len: "\<And>ino. ino \<in> set tab \<Longrightarrow> length (inode_bytes pad ino) = 48" using inode_roundtrip(2) assms by blast
  show "length (table_bytes pad tab) = 48 * length tab" unfolding table_bytes_def using len by (rule length_concat_const)
  show "bytes_table (length tab) (table_bytes pad tab @ rest) = tab"
  proof (rule nth_equalityI)
    fix i assume "i < length (bytes_table (length tab) (table_bytes pad tab @ rest))"
    then have i: "i < length tab" by (simp add: bytes_table_def)
    have "take 48 (drop (48 * i) (table_bytes pad tab @ rest)) = inode_bytes pad (tab ! i)"
      unfolding table_bytes_def by (rule concat_chunk [OF len i])
    then show "bytes_table (length tab) (table_bytes pad tab @ rest) ! i = tab ! i"
      using i inode_roundtrip(1) [OF _ assms(2), of "tab ! i"] assms(1) by (simp add: bytes_table_def)
  qed (simp add: bytes_table_def)
qed

definition super_ok :: "FileSystemSuper \<Rightarrow> bool" where
  "super_ok s \<longleftrightarrow> length (format_indicator s) = 16 \<and> disk_size s < 18446744073709551616 \<and> sector_count s < 4294967296 \<and>
     block_count s < 4294967296 \<and> i_bmap_start s < 4294967296 \<and> d_bmap_start s < 4294967296 \<and>
     inode_table_start s < 4294967296 \<and> used_inodes s < 4294967296 \<and> data_start s < 4294967296"

lemma super_roundtrip:
  assumes "super_ok s"
  shows "bytes_super (super_bytes s @ rest) = s" and "length (super_bytes s) = 52"
  using assms by (simp_all add: super_ok_def super_bytes_def bytes_super_def field_def le_val_le32 le_val_le64)

section \<open>Blocks written and read back\<close>

lemma write_block_simps [simp]:
  "b < 33554432 \<Longrightarrow> c < 33554432 \<Longrightarrow> read_block (write_block b bs k) c = (if c = b then bs else read_block k c)"
  by (simp add: read_block_def write_block_def disk_block_def)

lemma store_blocks_frame: "\<exists>d. store_blocks b bytes n k = k\<lparr>disk := d\<rparr>"
proof (induction n arbitrary: b bytes k)
  case 0
  then show ?case by (intro exI [of _ "disk k"]) simp
next
  case (Suc n)
  obtain d where "store_blocks (b + 1) (drop 4096 bytes) n (write_block b (take 4096 bytes) k) = (write_block b (take 4096 bytes) k)\<lparr>disk := d\<rparr>"
    using Suc.IH by blast
  then show ?case by (intro exI [of _ d]) (simp add: write_block_def)
qed

lemma store_blocks_same [simp]:
  "global_super (store_blocks b bytes n k) = global_super k" "global_ibmap (store_blocks b bytes n k) = global_ibmap k"
  "global_dbmap (store_blocks b bytes n k) = global_dbmap k" "global_inode_table (store_blocks b bytes n k) = global_inode_table k"
  "table_tail (store_blocks b bytes n k) = table_tail k" "fd_bitmap (store_blocks b bytes n k) = fd_bitmap k"
  "fd_entries (store_blocks b bytes n k) = fd_entries k" "sys_fds (store_blocks b bytes n k) = sys_fds k"
  "heap (store_blocks b bytes n k) = heap k" "hmem (store_blocks b bytes n k) = hmem k" "screen (store_blocks b bytes n k) = screen k"
  using store_blocks_frame [of b bytes n k] by auto

lemma read_after_write_blocks:
  assumes "b + n \<le> 33554432" and "c < 33554432"
  shows "read_block (store_blocks b bytes n k) c = (if b \<le> c \<and> c < b + n then take 4096 (drop (4096 * (c - b)) bytes) else read_block k c)"
  using assms
proof (induction n arbitrary: b bytes k)
  case (Suc n)
  have "read_block (store_blocks b bytes (Suc n) k) c =
      (if b + 1 \<le> c \<and> c < b + 1 + n then take 4096 (drop (4096 * (c - (b + 1))) (drop 4096 bytes))
       else read_block (write_block b (take 4096 bytes) k) c)"
    using Suc.IH [of "b + 1" "drop 4096 bytes" "write_block b (take 4096 bytes) k"] Suc.prems by simp
  moreover have "4096 * (c - (b + 1)) + 4096 = 4096 * (c - b)" if "b + 1 \<le> c" using that by simp
  ultimately show ?case using Suc.prems by (auto simp: add.commute)
qed auto

lemma read_one [simp]: "load_blocks b (Suc 0) k = read_block k b"
  by (simp add: load_blocks_def)

lemma concat_take_drop: "concat (map (\<lambda>i. take m (drop (m * i) xs)) [0 ..< n]) = take (m * n) xs"
proof (induction n)
  case (Suc n)
  have "take (m * Suc n) xs = take (m * n) xs @ take m (drop (m * n) xs)" using take_add [of "m * n" m xs] by (simp add: add.commute)
  then show ?case using Suc by simp
qed simp

lemma read_five:
  assumes "\<And>i. i < 5 \<Longrightarrow> read_block k (b + i) = take 4096 (drop (4096 * i) bytes)" and "length bytes = 20480"
  shows "load_blocks b 5 k = bytes"
proof -
  have "map (\<lambda>i. read_block k (b + i)) [0 ..< 5] = map (\<lambda>i. take 4096 (drop (4096 * i) bytes)) [0 ..< 5]"
    using assms(1) by (intro map_cong) auto
  then show ?thesis using concat_take_drop [of 4096 bytes 5] assms(2) by (simp only: load_blocks_def) simp
qed

text \<open>Metadata as a formatted disk has it: a recognised superblock that names the blocks 1, 2 and 3, and values that fit.\<close>

definition metadata_ok :: "kernel \<Rightarrow> bool" where
  "metadata_ok k \<longleftrightarrow> super_ok (global_super k) \<and> cstr_at (format_indicator (global_super k)) 0 (cstr_of ''Yorha'') \<and>
     i_bmap_start (global_super k) = 1 \<and> d_bmap_start (global_super k) = 2 \<and> inode_table_start (global_super k) = 3 \<and>
     length (global_ibmap k) = 1024 \<and> length (global_dbmap k) = 1024 \<and> length (global_inode_table k) = 426 \<and>
     (\<forall>ino \<in> set (global_inode_table k). inode_ok ino) \<and> length (table_tail k) = 32"

definition world_ok :: "world \<Rightarrow> bool" where
  "world_ok w \<longleftrightarrow> length (super_tail w) = 4044 \<and> length (inode_pad w) = 3"

lemma length_words_bytes: "length (words_bytes ws) = 4 * length ws"
  unfolding words_bytes_def by (rule length_concat_const) simp

lemma sync_metadata_blocks:
  assumes "metadata_ok k" and "world_ok w"
  defines "d \<equiv> sync_metadata w k"
  shows "read_block d 0 = super_bytes (global_super k) @ super_tail w" and "read_block d 1 = words_bytes (global_ibmap k)"
    and "read_block d 2 = words_bytes (global_dbmap k)"
    and "load_blocks 3 5 d = table_bytes (inode_pad w) (global_inode_table k) @ table_tail k"
    and "8 \<le> c \<Longrightarrow> c < 33554432 \<Longrightarrow> read_block d c = read_block k c"
proof -
  let ?tab = "table_bytes (inode_pad w) (global_inode_table k) @ table_tail k"
  have st: "i_bmap_start (global_super k) = 1" "d_bmap_start (global_super k) = 2" "inode_table_start (global_super k) = 3"
    and len: "length (super_bytes (global_super k) @ super_tail w) = 4096" "length (words_bytes (global_ibmap k)) = 4096"
      "length (words_bytes (global_dbmap k)) = 4096" "length ?tab = 20480"
    using assms(1,2) super_roundtrip(2) table_roundtrip(2) [of "global_inode_table k" "inode_pad w"]
    by (simp_all add: metadata_ok_def world_ok_def length_words_bytes)
  note rw = read_after_write_blocks [of _ "Suc 0"] read_after_write_blocks [of 3 5]
  have rd: "read_block d c = (if 3 \<le> c \<and> c < 8 then take 4096 (drop (4096 * (c - 3)) ?tab) else if c = 2 then words_bytes (global_dbmap k)
      else if c = 1 then words_bytes (global_ibmap k) else if c = 0 then super_bytes (global_super k) @ super_tail w else read_block k c)"
    if "c < 33554432" for c
    using that len unfolding d_def sync_metadata_def Let_def st
    by (auto simp: rw SUPER_SIZE_def INODE_BITMAP_SIZE_def DATA_BITMAP_SIZE_def INODE_TABLE_SIZE_def)
  show "read_block d 0 = super_bytes (global_super k) @ super_tail w" "read_block d 1 = words_bytes (global_ibmap k)"
    "read_block d 2 = words_bytes (global_dbmap k)" using rd [of 0] rd [of 1] rd [of 2] by simp_all
  show "8 \<le> c \<Longrightarrow> c < 33554432 \<Longrightarrow> read_block d c = read_block k c" using rd [of c] by simp
  show "load_blocks 3 5 d = ?tab"
  proof (rule read_five)
    show "read_block d (3 + i) = take 4096 (drop (4096 * i) ?tab)" if "i < 5" for i using rd [of "3 + i"] that by simp
  qed (rule len)
qed

lemma load_after_sync:
  assumes ok: "metadata_ok k" "world_ok w" and disk: "disk kb = disk (sync_metadata w k)"
  shows "bytes_super (take 512 (read_block kb 0)) = global_super k"
    and "global_super kb = global_super k \<Longrightarrow>
      load_metadata kb = kb\<lparr>global_ibmap := global_ibmap k, global_dbmap := global_dbmap k,
        global_inode_table := global_inode_table k, table_tail := table_tail k\<rparr>"
proof -
  have rb: "read_block kb c = read_block (sync_metadata w k) c" for c using disk by (simp add: read_block_def)
  have rbs: "load_blocks b n kb = load_blocks b n (sync_metadata w k)" for b n by (simp add: load_blocks_def rb)
  note S = sync_metadata_blocks [OF ok]
  have so: "super_ok (global_super k)" using ok(1) by (simp add: metadata_ok_def)
  have "take 512 (super_bytes (global_super k) @ super_tail w) = super_bytes (global_super k) @ take 460 (super_tail w)"
    using super_roundtrip(2) [OF so] by simp
  then show "bytes_super (take 512 (read_block kb 0)) = global_super k" using super_roundtrip(1) [OF so] by (simp add: rb S(1))
  have st: "i_bmap_start (global_super k) = 1" "d_bmap_start (global_super k) = 2" "inode_table_start (global_super k) = 3"
    and len: "length (global_ibmap k) = 1024" "length (global_dbmap k) = 1024" "length (global_inode_table k) = 426"
    and inos: "\<forall>ino \<in> set (global_inode_table k). inode_ok ino" and pad: "length (inode_pad w) = 3"
    using ok by (simp_all add: metadata_ok_def world_ok_def)
  note T = table_roundtrip [OF inos pad]
  show "load_metadata kb = kb\<lparr>global_ibmap := global_ibmap k, global_dbmap := global_dbmap k,
        global_inode_table := global_inode_table k, table_tail := table_tail k\<rparr>" if "global_super kb = global_super k"
    unfolding load_metadata_def Let_def that st INODE_BITMAP_SIZE_def DATA_BITMAP_SIZE_def INODE_TABLE_SIZE_def rbs S(4)
    using words_roundtrip [of "global_ibmap k" "[]"] words_roundtrip [of "global_dbmap k" "[]"] T(1) [of "table_tail k"] T(2) S(2,3) len
    by (simp add: rb)
qed

section \<open>Printing\<close>

definition print_cost :: "u8 list \<Rightarrow> nat" where
  "print_cost s = sum_list (map (\<lambda>c. if c = 10 then 80 else 1) s)"

lemma kprint_loop_ok:
  assumes c: "cstr_at fm 0 s" and "8 \<notin> set s" and "i \<le> length s" and "screen_ok v" and "cursor v + print_cost (drop i s) < 2000"
  shows "\<exists>v' t'. kprint_loop fm i (v, t) = Inr (v', t') \<and> screen_ok v' \<and> cursor v' \<le> cursor v + print_cost (drop i s)"
  using assms(3-5)
proof (induction "length s - i" arbitrary: i v t)
  case 0
  then show ?case using cstr_at_nth(1,3) [OF c] by (simp add: kprint_loop.simps)
next
  case (Suc n)
  then have i: "i < length s" by linarith
  have nth: "fm ! i = s ! i" "s ! i \<noteq> 0" "i < length fm"
    using cstr_at_nth(2,4) [OF c i] cstr_at_nth(1) [OF c] i by simp_all
  have cost: "print_cost (drop i s) = (if s ! i = 10 then 80 else 1) + print_cost (drop (Suc i) s)"
    using i by (simp add: print_cost_def Cons_nth_drop_Suc [symmetric])
  have c8: "s ! i \<noteq> 8" using assms(2) nth_mem [OF i] by metis
  obtain p buf where d: "draw_char (terminal_color v) (cursor v, terminal_buffer v) (s ! i) = (p, buf)" by fastforce
  have p: "p \<le> cursor v + (if s ! i = 10 then 80 else 1)" using d by (auto simp: draw_char_def split: if_splits)
  then have "p < 2000" using Suc.prems(3) cost by linarith
  then obtain v1 t1 where k1: "kputc (s ! i) (v, t) = Inr (v1, t1)" "screen_ok v1" "cursor v1 = p" using kputc_draws [OF Suc.prems(2) _ d] c8 by blast
  have "\<exists>v' t'. kprint_loop fm (Suc i) (v1, t1) = Inr (v', t') \<and> screen_ok v' \<and> cursor v' \<le> cursor v1 + print_cost (drop (Suc i) s)"
    using Suc.hyps(2) i k1 p cost Suc.prems(3) by (intro Suc.hyps(1)) linarith+
  then show ?case using k1 p cost nth by (fastforce simp: kprint_loop.simps [of fm i])
qed

lemma print_ok:
  assumes "0 \<notin> set (cstr_of msg)" and "8 \<notin> set (cstr_of msg)" and "37 \<notin> set (cstr_of msg)" and "screen_ok (fst (screen k))"
    and "cursor (fst (screen k)) + print_cost (cstr_of msg) < 2000"
  shows "\<exists>s. print w msg k = Inr (k\<lparr>screen := s\<rparr>) \<and> screen_ok (fst s) \<and> cursor (fst s) \<le> cursor (fst (screen k)) + print_cost (cstr_of msg)"
proof -
  have c: "cstr_at (cstr_of msg @ [0]) 0 (cstr_of msg)" by (rule cstr_at_literal [OF assms(1)])
  obtain v t where vt: "screen k = (v, t)" by fastforce
  obtain v' t' where "kprint_loop (cstr_of msg @ [0]) 0 (v, t) = Inr (v', t')" "screen_ok v'" "cursor v' \<le> cursor v + print_cost (cstr_of msg)"
    using kprint_loop_ok [OF c assms(2), of 0 v t] assms(4,5) vt by auto
  then show ?thesis using kprintf_plain [OF c assms(3)] vt by (auto simp: print_def kprint_def)
qed

lemmas print_eval = cstr_of_def print_cost_def

section \<open>Shutting down and mounting again\<close>

lemma close_ok:
  assumes "length (fd_bitmap k) = 1" and "f < 31"
  shows "\<exists>bm. close k (int f) = Inr (- 1, k\<lparr>fd_bitmap := bm\<rparr>) \<and> length bm = 1 \<and> bm_used bm = bm_used (fd_bitmap k) - {f}"
proof -
  have u: "u32_of_int (int f) = f" using assms(2) by (simp add: u32_of_int_def)
  obtain bm where "dealloc_bitrange (fd_bitmap k) \<lparr>br_start = f, br_length = 1\<rparr> = Inr bm" "length bm = 1" "bm_used bm = bm_used (fd_bitmap k) - {f}"
    using dealloc_bitrange_used [of "\<lparr>br_start = f, br_length = 1\<rparr>" "fd_bitmap k"] assms by (auto simp: br_set_def)
  then show ?thesis by (auto simp: close_def u)
qed

lemma shutdown_ok:
  assumes scr: "screen_ok (fst (screen k))" "cursor (fst (screen k)) < 1680" and fds: "sys_fds k = [int f0, int f1]" "f0 < 31" "f1 < 31"
    and bm: "length (fd_bitmap k) = 1"
  shows "\<exists>s bm. shutdown w k = Inr (sync_metadata w (k\<lparr>fd_bitmap := bm, screen := s\<rparr>)) \<and> bm_used bm = bm_used (fd_bitmap k) - {f0, f1}"
proof -
  have p1: "\<exists>s. print w ''Shutting Down...\<newline>'' k = Inr (k\<lparr>screen := s\<rparr>) \<and> screen_ok (fst s) \<and> cursor (fst s) \<le> cursor (fst (screen k)) + 96"
    using print_ok [of "''Shutting Down...\<newline>''" k w] scr by (simp add: print_eval)
  then obtain s1 where s1: "print w ''Shutting Down...\<newline>'' k = Inr (k\<lparr>screen := s1\<rparr>)" "screen_ok (fst s1)" "cursor (fst s1) < 1776" using scr by auto
  have p2: "\<exists>s. print w ''Clearing File Descriptors...\<newline>'' (k\<lparr>screen := s1\<rparr>) = Inr (k\<lparr>screen := s\<rparr>) \<and> screen_ok (fst s) \<and> cursor (fst s) \<le> cursor (fst s1) + 108"
    using print_ok [of "''Clearing File Descriptors...\<newline>''" "k\<lparr>screen := s1\<rparr>" w] s1(2,3) by (simp add: print_eval)
  then obtain s2 where s2: "print w ''Clearing File Descriptors...\<newline>'' (k\<lparr>screen := s1\<rparr>) = Inr (k\<lparr>screen := s2\<rparr>)" "screen_ok (fst s2)" "cursor (fst s2) < 1884"
    using s1(3) by auto
  let ?k2 = "k\<lparr>screen := s2\<rparr>"
  obtain b3 where b3: "close ?k2 (int f0) = Inr (- 1, ?k2\<lparr>fd_bitmap := b3\<rparr>)" "length b3 = 1" "bm_used b3 = bm_used (fd_bitmap k) - {f0}"
    using close_ok [of ?k2 f0] bm fds by auto
  obtain b4 where b4: "close (?k2\<lparr>fd_bitmap := b3\<rparr>) (int f1) = Inr (- 1, ?k2\<lparr>fd_bitmap := b4\<rparr>)" "bm_used b4 = bm_used b3 - {f1}"
    using close_ok [of "?k2\<lparr>fd_bitmap := b3\<rparr>" f1] b3(2) fds by auto
  obtain s5 where s5: "print w ''Syncing Disk Metadata...\<newline>'' (?k2\<lparr>fd_bitmap := b4\<rparr>) = Inr (k\<lparr>fd_bitmap := b4, screen := s5\<rparr>)"
    using print_ok [of "''Syncing Disk Metadata...\<newline>''" "?k2\<lparr>fd_bitmap := b4\<rparr>" w] s2(2,3) by (auto simp: print_eval)
  have "shutdown w k = Inr (sync_metadata w (k\<lparr>fd_bitmap := b4, screen := s5\<rparr>))"
    using s1(1) s2(1) b3(1) b4(1) s5 fds(1) by (simp add: shutdown_def)
  moreover have "bm_used b4 = bm_used (fd_bitmap k) - {f0, f1}" using b3(3) b4(2) by auto
  ultimately show ?thesis by blast
qed

lemma mount_recognizes:
  assumes "metadata_ok k" and "world_ok w" and "disk kb = disk (sync_metadata w k)"
  shows "initalize_file_system w kb False =
    obind (print w ''Disk Recognized\<newline>'' (kb\<lparr>global_super := global_super k\<rparr>)) (\<lambda>k1.
      obind (open_system_files (load_metadata k1)) (\<lambda>k2. Inr (True, k2)))"
proof -
  have "cstr_at (format_indicator (global_super k)) 0 (cstr_of ''Yorha'')" using assms(1) by (simp add: metadata_ok_def)
  moreover have "cstr_at (cstr_of ''Yorha'' @ [0]) 0 (cstr_of ''Yorha'')" by (simp add: cstring_eval)
  ultimately have "strcmp (format_indicator (global_super k)) 0 (cstr_of ''Yorha'' @ [0]) 0 = Inr 0" using strcmp_cstr by fastforce
  then show ?thesis using load_after_sync(1) [OF assms] by (simp add: initalize_file_system_def)
qed

section \<open>Formatting\<close>

lemma disk_lengths:
  "\<forall>c. length (disk k c) = 4096 \<Longrightarrow> length bytes = 4096 * n \<Longrightarrow> \<forall>c. length (disk (store_blocks b bytes n k) c) = 4096"
proof (induction n arbitrary: b bytes k)
  case (Suc n)
  have "\<forall>c. length (disk (write_block b (take 4096 bytes) k) c) = 4096" using Suc.prems by (simp add: write_block_def)
  then show ?case using Suc.IH [of "write_block b (take 4096 bytes) k" "drop 4096 bytes" "b + 1"] Suc.prems(2) by simp
qed simp

declare store_blocks.simps(2) [simp del]

text \<open>A kernel that has just booted: nothing in use, and a page mapped at address 0.\<close>

definition boot_ok :: "world \<Rightarrow> kernel \<Rightarrow> bool" where
  "boot_ok w k \<longleftrightarrow> world_ok w \<and> (\<exists>bytes. null_page w = Some bytes \<and> length bytes = 4096) \<and>
     global_ibmap k = replicate 1024 0 \<and> global_dbmap k = replicate 1024 0 \<and> length (global_inode_table k) = 426 \<and>
     (\<forall>ino \<in> set (global_inode_table k). inode_ok ino) \<and> length (table_tail k) = 32 \<and> (\<forall>c. length (disk k c) = 4096) \<and>
     fd_bitmap k = [0] \<and> length (fd_entries k) = 32 \<and> length (sys_fds k) = 2 \<and>
     heap_inv (heap k) \<and> heap_live (heap k) = (\<lambda>_. None) \<and> 64 \<le> length (hmem k) \<and> length (hmem k) \<le> 8192"

lemma alloc_metadata_blocks:
  "\<exists>r bm. alloc_bitrange (replicate 1024 0) MAP_CAPACITY (DATA_REGION_START + 1) False = Inr (r, bm) \<and> bm_used bm = {..< 9} \<and> length bm = 1024"
proof -
  have n: "DATA_REGION_START + 1 = 9" by (simp add: DATA_REGION_START_def SUPER_SIZE_def INODE_BITMAP_SIZE_def DATA_BITMAP_SIZE_def INODE_TABLE_SIZE_def)
  have lim: "32 * min (MAP_CAPACITY div 4) (length (replicate 1024 (0 :: u32))) = 32768" by (simp add: MAP_CAPACITY_def BLOCK_BYTES_def)
  have fit: "run_fits (replicate 1024 0) 32768 9 False 0"
    by (auto simp: run_fits_def free_run_def bm_bit_def div_less_iff_less_mult)
  obtain s bm where "alloc_bitrange (replicate 1024 0) MAP_CAPACITY 9 False = Inr (\<lparr>br_start = s, br_length = 9\<rparr>, bm)"
    "s \<le> 0" "length bm = 1024" "bm_used bm = {} \<union> {s ..< s + 9}"
    by (rule alloc_bitrange_found [of 9 "replicate 1024 0" MAP_CAPACITY False 0, unfolded lim]) (use fit in simp_all)
  then show ?thesis unfolding n by (auto simp: atLeast0LessThan)
qed

lemma format_disk_ok:
  assumes ok: "boot_ok w k" and fi: "length (format_indicator (global_super k)) = 16"
  shows "\<exists>k'. format_disk w k = Inr k' \<and> tree_ok k' (\<lambda>_. []) \<and> bm_used (global_ibmap k') = {0} \<and> bm_used (global_dbmap k') = {..< 9} \<and>
    heap k' = heap k \<and> hmem k' = hmem k \<and> fd_bitmap k' = fd_bitmap k \<and> fd_entries k' = fd_entries k \<and> sys_fds k' = sys_fds k"
proof -
  let ?s = "new_super w (global_super k)" and ?ibm = "(0x80000000 :: u32) # replicate 1023 0"
  let ?root = "\<lparr>i_name = replicate 32 0, file_type = 0, data_block_start = 8, i_size = 0, parent_inode_num = 0\<rparr> :: FileSystemInode"
  let ?tab = "(global_inode_table k)[0 := ?root]"
  obtain bytes where np: "null_page w = Some bytes" "length bytes = 4096" using ok by (auto simp: boot_ok_def)
  obtain r dbm where dbm: "alloc_bitrange (replicate 1024 0) MAP_CAPACITY (DATA_REGION_START + 1) False = Inr (r, dbm)" "bm_used dbm = {..< 9}" "length dbm = 1024"
    using alloc_metadata_blocks by blast
  have b: "global_ibmap k = replicate 1024 0" "global_dbmap k = replicate 1024 0" "length (global_inode_table k) = 426"
    "\<forall>ino \<in> set (global_inode_table k). inode_ok ino" "length (table_tail k) = 32" "\<forall>c. length (disk k c) = 4096" "world_ok w"
    using ok by (simp_all add: boot_ok_def)
  have s: "i_bmap_start ?s = 1" "d_bmap_start ?s = 2" "inode_table_start ?s = 3" "data_start ?s = 8"
    by (simp_all add: new_super_def Let_def SUPER_SIZE_def INODE_BITMAP_SIZE_def DATA_BITMAP_SIZE_def INODE_TABLE_SIZE_def)
  have ibm: "(replicate 1024 (0 :: u32))[0 := 0 OR push_bit 31 1] = ?ibm" by (simp add: numeral_eq_Suc replicate_Suc [symmetric] del: replicate_Suc) (simp add: replicate_Suc [of 1023])
  have "length (format_indicator ?s) = 16" using fi by (simp add: new_super_def Let_def cstr_of_def)
  then have l1: "length (super_bytes ?s @ super_tail w) = 4096" using b(7) by (simp add: super_bytes_def world_ok_def)
  have "\<forall>ino \<in> set ?tab. inode_ok ino" using b(4) set_update_subset_insert [of "global_inode_table k" 0 ?root] by (auto simp: inode_ok_def)
  then have lt: "length (table_bytes (inode_pad w) ?tab @ table_tail k) = 20480"
    using table_roundtrip(2) [of ?tab "inode_pad w"] b(3,5,7) by (simp add: world_ok_def)
  let ?k1 = "store_blocks 0 (super_bytes ?s @ super_tail w) 1 (k\<lparr>global_super := ?s\<rparr>)"
  let ?k2 = "?k1\<lparr>global_ibmap := ?ibm, global_dbmap := dbm\<rparr>"
  let ?k3 = "store_blocks 1 (words_bytes ?ibm) 1 ?k2"
  let ?k4 = "store_blocks 2 (words_bytes dbm) 1 ?k3"
  let ?k5 = "?k4\<lparr>global_inode_table := ?tab\<rparr>"
  let ?k6 = "store_blocks 3 (table_bytes (inode_pad w) ?tab @ table_tail k) 5 ?k5"
  let ?k' = "store_blocks 8 bytes 1 ?k6"
  have "format_disk w k = Inr ?k'"
    unfolding format_disk_def Let_def s using b dbm(1) np(1) ibm by simp
  moreover have U: "bm_used ?ibm = {0}" using root_kernel_maps(1) by (simp add: root_kernel_def)
  moreover have "tree_ok ?k' (\<lambda>_. [])"
  proof -
    have d1: "\<forall>c. length (disk ?k1 c) = 4096" by (rule disk_lengths) (use b(6) l1 in simp_all)
    have d3: "\<forall>c. length (disk ?k3 c) = 4096" by (rule disk_lengths) (use d1 in \<open>simp_all add: length_words_bytes\<close>)
    have d4: "\<forall>c. length (disk ?k4 c) = 4096" by (rule disk_lengths) (use d3 dbm(3) in \<open>simp_all add: length_words_bytes\<close>)
    have d6: "\<forall>c. length (disk ?k6 c) = 4096" by (rule disk_lengths) (use d4 lt in simp_all)
    have d: "\<forall>c. length (disk ?k' c) = 4096" by (rule disk_lengths) (use d6 np(2) in simp_all)
    have f: "global_ibmap ?k' = ?ibm" "global_dbmap ?k' = dbm" "global_inode_table ?k' = ?tab" by simp_all
    have D: "directories ?k' = {0}" "with_block ?k' = {0}"
      unfolding directories_def with_block_def f U type_of_def using b(3) by auto
    have "maps_ok ?k'" unfolding maps_ok_def f bm_inv_def U using d b(3) dbm(2,3) by simp
    moreover have "blocks_ok ?k'" unfolding blocks_ok_def D f dbm(2) block_of_def using b(3) by simp
    moreover have "dir_of ?k' 0 []" unfolding dir_of_def f using d b(3) by (simp add: dir_rep_def read_block_def)
    ultimately show ?thesis unfolding tree_ok_def D names_ok_def by simp
  qed
  moreover have "global_ibmap ?k' = ?ibm" "global_dbmap ?k' = dbm" by simp_all
  ultimately show ?thesis using dbm(2) by (intro exI [of _ ?k']) simp
qed

text \<open>A stage of formatting: the tree so far, with the first \<open>n\<close> inodes and the first \<open>m\<close> blocks in use.\<close>

definition idle_heap :: "kernel \<Rightarrow> bool" where
  "idle_heap k \<longleftrightarrow> heap_inv (heap k) \<and> heap_live (heap k) = (\<lambda>_. None) \<and> 64 \<le> length (hmem k) \<and> length (hmem k) \<le> 8192"

definition stage :: "kernel \<Rightarrow> (nat \<Rightarrow> dir_entries) \<Rightarrow> nat \<Rightarrow> nat \<Rightarrow> bool" where
  "stage k dirs n m \<longleftrightarrow> tree_ok k dirs \<and> bm_used (global_ibmap k) = {..< n} \<and> bm_used (global_dbmap k) = {..< m} \<and> idle_heap k"

definition same_descriptors :: "kernel \<Rightarrow> kernel \<Rightarrow> bool" where
  "same_descriptors k k' \<longleftrightarrow> fd_bitmap k' = fd_bitmap k \<and> fd_entries k' = fd_entries k \<and> sys_fds k' = sys_fds k"

lemma idle_heap_kept: "idle_heap k \<Longrightarrow> heap_kept k k' \<Longrightarrow> idle_heap k'"
  by (simp add: idle_heap_def heap_kept_def)

lemma idle_heap_arg:
  assumes "idle_heap k" and "cstr_at path off s" and "length s \<le> 28"
  shows "path_arg k path off s"
  using path_room_empty [of k "length s + 1"] assms by (simp add: idle_heap_def path_arg_def)

lemma stage_create:
  assumes st: "stage k dirs n m" "n < 426" "m < 30000" and d: "leads_to k dirs cs d" "d \<in> directories k" "length (dirs d) < 113"
    and names: "\<forall>x \<in> set cs. comp_ok x" "comp_ok nm" "map_of (dirs d) nm = None"
    and path: "cstr_at path off (47 # join_path cs @ nm)" "length (47 # join_path cs @ nm) \<le> 28"
  shows "\<exists>k'. create_filetype k path off ftype False = Inr (0, k') \<and> stage k' (add_node dirs d nm n) (n + 1) (if ftype = 2 then m else m + 1) \<and>
    leads_to k' (add_node dirs d nm n) (cs @ [nm]) n \<and> leads_to k' (add_node dirs d nm n) cs d \<and> type_of k' n = ftype \<and>
    (\<forall>j < n. type_of k' j = type_of k j) \<and> same_descriptors k k'"
proof -
  have tr: "tree_ok k dirs" and U: "bm_used (global_ibmap k) = {..< n}" "bm_used (global_dbmap k) = {..< m}" and h: "idle_heap k"
    using st(1) by (simp_all add: stage_def)
  have len: "length (global_ibmap k) = 1024" "length (global_dbmap k) = 1024" "length (global_inode_table k) = 426"
    using tr by (simp_all add: tree_ok_def maps_ok_def bm_inv_def)
  have "least_free (global_ibmap k) n" "least_free (global_dbmap k) m" using U len st(2,3) by (simp_all add: least_free_def)
  then have new: "creatable k dirs cs nm d n m" using d names st(2) by (simp add: creatable_def)
  obtain k' where k': "create_filetype k path off ftype False = Inr (0, k')" "created k (dirs d) nm ftype d n m k'" "heap_kept k k'"
      "fd_bitmap k' = fd_bitmap k" "fd_entries k' = fd_entries k"
    using create_nofd_in_tree [OF tr new idle_heap_arg [OF h path]] by blast
  note N = created_in_tree [OF tr new k'(2)]
  have dn: "d < 426" using d(2) tr by (auto simp: tree_ok_def maps_ok_def directories_def)
  have "\<forall>j < n. type_of k' j = type_of k j" using created_inodes(4) [OF k'(2)] len(3) st(2) dn by auto
  moreover have "stage k' (add_node dirs d nm n) (n + 1) (if ftype = 2 then m else m + 1)"
    using N(1) k'(2) U idle_heap_kept [OF h k'(3)] by (auto simp: stage_def created_def lessThan_Suc)
  moreover have "same_descriptors k k'" using k'(2,4,5) by (simp add: same_descriptors_def created_def)
  ultimately show ?thesis using k'(1) N(2,3) N(4) [OF d(1)] by blast
qed

lemma stage_directory: "stage k dirs n m \<Longrightarrow> i < n \<Longrightarrow> type_of k i = 0 \<Longrightarrow> i \<in> directories k"
  by (simp add: stage_def directories_def)

lemma whole_name_0: "\<exists>buf. whole_name 0 = Inr buf \<and> cstr_at buf 0 (47 # join_path [cstr_of ''dev''] @ cstr_of ''tty'')"
proof -
  have "cstr_at (system_names ! 0) 0 (cstr_of ''tty'')" by (simp add: system_names_def cstring_eval)
  from strcat_cstr [OF this, of 5 "cstr_of ''/dev/'' @ replicate 43 0"] show ?thesis
    by (simp add: whole_name_def cstring_eval join_path_def overlay_def)
qed

lemma whole_name_1: "\<exists>buf. whole_name 1 = Inr buf \<and> cstr_at buf 0 (47 # join_path [cstr_of ''dev''] @ cstr_of ''ttyS'')"
proof -
  have "cstr_at (system_names ! 1) 0 (cstr_of ''ttyS'')" by (simp add: system_names_def cstring_eval)
  from strcat_cstr [OF this, of 5 "cstr_of ''/dev/'' @ replicate 43 0"] show ?thesis
    by (simp add: whole_name_def cstring_eval join_path_def overlay_def)
qed

text \<open>The tree of a freshly formatted disk.\<close>

definition dev_tree :: "nat \<Rightarrow> dir_entries" where
  "dev_tree = add_node (add_node (add_node (\<lambda>_. []) 0 (cstr_of ''dev'') 1) 1 (cstr_of ''tty'') 2) 1 (cstr_of ''ttyS'') 3"

lemma dev_names: "comp_ok (cstr_of ''dev'')" "comp_ok (cstr_of ''tty'')" "comp_ok (cstr_of ''ttyS'')"
  "length (cstr_of ''dev'') = 3" "length (cstr_of ''tty'') = 3" "length (cstr_of ''ttyS'') = 4" "cstr_of ''tty'' \<noteq> cstr_of ''ttyS''"
  by (simp_all add: comp_ok_def name_ok_def cstr_of_def)

lemma create_system_files_ok:
  assumes st: "stage k (\<lambda>_. []) 1 9"
  shows "\<exists>k'. create_system_files k = Inr k' \<and> stage k' dev_tree 4 10 \<and> leads_to k' dev_tree [cstr_of ''dev''] 1 \<and> 1 \<in> directories k' \<and>
    type_of k' 2 = 2 \<and> type_of k' 3 = 2 \<and> same_descriptors k k'"
proof -
  let ?d1 = "add_node (\<lambda>_. []) 0 (cstr_of ''dev'') 1"
  let ?d2 = "add_node ?d1 1 (cstr_of ''tty'') 2"
  have root: "0 \<in> directories k" "leads_to k (\<lambda>_. []) [] 0" using st by (simp_all add: stage_def tree_ok_def leads_to_def)
  have p1: "cstr_at (cstr_of ''/dev'' @ [0]) 0 (47 # join_path [] @ cstr_of ''dev'')" by (simp add: cstring_eval join_path_def)
  obtain k1 where k1: "mkdir k (cstr_of ''/dev'' @ [0]) 0 = Inr (0, k1)" "stage k1 ?d1 2 10" "leads_to k1 ?d1 [cstr_of ''dev''] 1" "type_of k1 1 = 0"
      "same_descriptors k k1"
    using stage_create [OF st _ _ root(2,1) _ _ dev_names(1) _ p1, of FILE_TYPE_DIR] dev_names
    by (auto simp: mkdir_def FILE_TYPE_DIR_def join_path_def numeral_2_eq_2)
  have dev: "1 \<in> directories k1" using stage_directory [OF k1(2)] k1(4) by simp
  obtain b0 where b0: "whole_name 0 = Inr b0" "cstr_at b0 0 (47 # join_path [cstr_of ''dev''] @ cstr_of ''tty'')" using whole_name_0 by blast
  obtain k2 where k2: "create_filetype k1 b0 0 2 False = Inr (0, k2)" "stage k2 ?d2 3 10" "leads_to k2 ?d2 [cstr_of ''dev''] 1"
      "type_of k2 2 = 2" "\<forall>j < 2. type_of k2 j = type_of k1 j" "same_descriptors k1 k2"
    using stage_create [OF k1(2) _ _ k1(3) dev _ _ dev_names(2) _ b0(2), of 2] dev_names
    by (auto simp: join_path_def add_node_def)
  have "1 \<in> directories k2" using stage_directory [OF k2(2)] k1(4) k2(5) by simp
  moreover obtain b1 where b1: "whole_name 1 = Inr b1" "cstr_at b1 0 (47 # join_path [cstr_of ''dev''] @ cstr_of ''ttyS'')" using whole_name_1 by blast
  ultimately obtain k3 where k3: "create_filetype k2 b1 0 2 False = Inr (0, k3)" "stage k3 dev_tree 4 10" "leads_to k3 dev_tree [cstr_of ''dev''] 1"
      "type_of k3 3 = 2" "\<forall>j < 3. type_of k3 j = type_of k2 j" "same_descriptors k2 k3"
    using stage_create [OF k2(2) _ _ k2(3) _ _ _ dev_names(3) _ b1(2), of 2] dev_names
    by (auto simp: join_path_def add_node_def dev_tree_def)
  have "create_system_files k = Inr k3"
    using k1(1) k2(1) k3(1) b0(1) b1(1) by (simp add: create_system_files_def create_system_file_def FILE_TYPE_SPECIAL_def)
  moreover have "1 \<in> directories k3" using stage_directory [OF k3(2)] k1(4) k2(5) k3(5) by simp
  moreover have "type_of k3 2 = 2" using k2(4) k3(5) by simp
  ultimately show ?thesis using k3 k1(5) k2(6) by (auto simp: same_descriptors_def)
qed

text \<open>Opening a special file: the directory \<open>dev\<close> that \<open>/dev\<close> leads to has the entry \<open>nm\<close>.\<close>

lemma open_system_file_ok:
  assumes tr: "tree_ok k dirs" "leads_to k dirs [cstr_of ''dev''] dev" "dev \<in> directories k" and h: "idle_heap k"
    and fd: "next_descriptor k fd" and len: "length (sys_fds k) = 2" and nm: "comp_ok nm" "length nm \<le> 4" "map_of (dirs dev) nm = Some ino"
    and path: "whole_name i = Inr buf" "cstr_at buf 0 (47 # join_path [cstr_of ''dev''] @ nm)"
  shows "\<exists>k'. open_system_file i k = Inr k' \<and> tree_ok k' dirs \<and> leads_to k' dirs [cstr_of ''dev''] dev \<and> dev \<in> directories k' \<and>
    idle_heap k' \<and> opened k nm ino fd k' \<and> sys_fds k' = (sys_fds k)[i := int fd] \<and> type_of k' = type_of k \<and> global_ibmap k' = global_ibmap k \<and>
    length (hmem k') = length (hmem k)"
proof -
  have "path_arg k buf 0 (47 # join_path [cstr_of ''dev''] @ nm)"
    using idle_heap_arg [OF h path(2)] nm(2) by (simp add: join_path_def cstr_of_def)
  from open_in_tree [OF tr(1,2,3) _ nm(1) this fd] nm(3) dev_names(1)
  obtain k' where k': "open_file k buf 0 = Inr (int fd, k')" "tree_ok k' dirs" "heap_kept k k'" "sys_fds k' = sys_fds k"
    "global_inode_table k' = global_inode_table k" "opened k nm ino fd k'" "global_ibmap k' = global_ibmap k"
    by auto
  let ?k = "k'\<lparr>sys_fds := (sys_fds k)[i := int fd]\<rparr>"
  have ty: "type_of ?k = type_of k" using k'(5) by (simp add: type_of_def fun_eq_iff)
  have same: "directories ?k = directories k'" "with_block ?k = with_block k'" "block_of ?k = block_of k'" "maps_ok ?k = maps_ok k'" "directories ?k = directories k"
    using k'(5,7) by (simp_all add: directories_def with_block_def type_of_def block_of_def fun_eq_iff maps_ok_def)
  have t: "tree_ok ?k dirs"
    using k'(2) dir_of_cong [of ?k k'] same(1-4) by (simp add: tree_ok_def blocks_ok_def)
  have "open_system_file i k = Inr ?k" using k'(1,4) path(1) by (simp add: open_system_file_def)
  moreover have "dev \<in> directories ?k" "leads_to ?k dirs [cstr_of ''dev''] dev" using tr(2,3) by (simp_all only: leads_to_def same(5))
  moreover have "idle_heap ?k" using idle_heap_kept [OF h k'(3)] by (simp add: idle_heap_def)
  moreover have "opened k nm ino fd ?k" using k'(6) by (simp add: opened_def)
  ultimately show ?thesis using t ty k'(3,7) by (intro exI [of _ ?k]) (simp add: heap_kept_def)
qed

lemma next_descriptor_opened:
  "next_descriptor k fd \<Longrightarrow> opened k nm ino fd k' \<Longrightarrow> fd < 30 \<Longrightarrow> Suc fd \<notin> bm_used (fd_bitmap k) \<Longrightarrow> next_descriptor k' (Suc fd)"
  by (auto simp: next_descriptor_def opened_def least_free_def less_Suc_eq)

text \<open>Opening a file leaves the disk, the metadata and the console alone.\<close>

definition same_store :: "kernel \<Rightarrow> kernel \<Rightarrow> bool" where
  "same_store k k' \<longleftrightarrow> global_super k' = global_super k \<and> global_dbmap k' = global_dbmap k \<and> global_ibmap k' = global_ibmap k \<and>
     global_inode_table k' = global_inode_table k \<and> table_tail k' = table_tail k \<and> disk k' = disk k \<and> kbd k' = kbd k \<and> tty k' = tty k \<and> screen k' = screen k"

lemma same_store_trans: "same_store k k1 \<Longrightarrow> same_store k1 k2 \<Longrightarrow> same_store k k2"
  by (simp add: same_store_def)

lemma seek_directory_store: "seek_directory k mem off = Inr (r, k') \<Longrightarrow> same_store k k'"
  by (auto simp: seek_directory_def same_store_def PUSH_ERROR_def split: if_splits option.splits)

lemma search_dir_store: "search_dir k d nm off = Inr (r, k') \<Longrightarrow> same_store k k'"
  by (auto simp: search_dir_def same_store_def PUSH_ERROR_def Let_def split: if_splits option.splits)

lemma open_file_keeps: "open_file k path off = Inr (r, k') \<Longrightarrow> same_store k k'"
  by (auto simp: open_file_def Path_def free_path_def allocate_file_descriptor_def PUSH_ERROR_def same_store_def Let_def
      split: if_splits dest!: seek_directory_store search_dir_store)

lemma open_system_files_keep: "open_system_files k = Inr k' \<Longrightarrow> same_store k k'"
  by (auto simp: open_system_files_def open_system_file_def split: if_splits dest!: open_file_keeps) (simp add: same_store_def)

text \<open>A tree with the special files: the inodes of \<open>/dev\<close>, \<open>/dev/tty\<close> and \<open>/dev/ttyS\<close>.\<close>

definition special_files :: "kernel \<Rightarrow> (nat \<Rightarrow> dir_entries) \<Rightarrow> nat \<Rightarrow> nat \<Rightarrow> nat \<Rightarrow> bool" where
  "special_files k dirs dev t0 t1 \<longleftrightarrow> leads_to k dirs [cstr_of ''dev''] dev \<and> dev \<in> directories k \<and>
     map_of (dirs dev) (cstr_of ''tty'') = Some t0 \<and> map_of (dirs dev) (cstr_of ''ttyS'') = Some t1"

lemma open_system_files_ok:
  assumes tr: "tree_ok k dirs" "idle_heap k" "special_files k dirs dev t0 t1"
    and fds: "fd_bitmap k = [0]" "length (fd_entries k) = 32" "length (sys_fds k) = 2"
  shows "\<exists>k'. open_system_files k = Inr k' \<and> tree_ok k' dirs \<and> idle_heap k' \<and> sys_fds k' = [0, 1] \<and> type_of k' = type_of k \<and> global_ibmap k' = global_ibmap k \<and>
    fd_entries k' ! 0 = new_descriptor (cstr_of ''tty'') t0 0 \<and> fd_entries k' ! 1 = new_descriptor (cstr_of ''ttyS'') t1 1 \<and>
    bm_used (fd_bitmap k') = {0, 1} \<and> length (fd_bitmap k') = 1 \<and> length (fd_entries k') = 32 \<and> length (hmem k') = length (hmem k)"
proof -
  have none: "bm_used (fd_bitmap k) = {}" using fds(1) by (simp add: bm_used_def bm_bit_def)
  then have n0: "next_descriptor k 0" using fds by (simp add: next_descriptor_def least_free_def)
  have sp: "leads_to k dirs [cstr_of ''dev''] dev" "dev \<in> directories k" "map_of (dirs dev) (cstr_of ''tty'') = Some t0" "map_of (dirs dev) (cstr_of ''ttyS'') = Some t1"
    using tr(3) by (simp_all add: special_files_def)
  obtain b0 where b0: "whole_name 0 = Inr b0" "cstr_at b0 0 (47 # join_path [cstr_of ''dev''] @ cstr_of ''tty'')" using whole_name_0 by blast
  obtain b1 where b1: "whole_name 1 = Inr b1" "cstr_at b1 0 (47 # join_path [cstr_of ''dev''] @ cstr_of ''ttyS'')" using whole_name_1 by blast
  obtain k1 where k1: "open_system_file 0 k = Inr k1" "tree_ok k1 dirs" "leads_to k1 dirs [cstr_of ''dev''] dev" "dev \<in> directories k1" "idle_heap k1"
      "opened k (cstr_of ''tty'') t0 0 k1" "sys_fds k1 = (sys_fds k)[0 := 0]" "type_of k1 = type_of k" "global_ibmap k1 = global_ibmap k"
      "length (hmem k1) = length (hmem k)"
    using open_system_file_ok [OF tr(1) sp(1,2) tr(2) n0 fds(3) dev_names(2) _ sp(3) b0] dev_names(5) by auto
  have n1: "next_descriptor k1 1" using next_descriptor_opened [OF n0 k1(6)] none by simp
  have l2: "length (sys_fds k1) = 2" using k1(7) fds(3) by simp
  obtain k2 where k2: "open_system_file 1 k1 = Inr k2" "tree_ok k2 dirs" "opened k1 (cstr_of ''ttyS'') t1 1 k2" "sys_fds k2 = (sys_fds k1)[1 := 1]"
      "type_of k2 = type_of k1" "global_ibmap k2 = global_ibmap k1" "idle_heap k2" "length (hmem k2) = length (hmem k1)"
    using open_system_file_ok [OF k1(2,3,4,5) n1 l2 dev_names(3) _ sp(4) b1] dev_names(6) by auto
  have "sys_fds k2 = [0, 1]" using k1(7) k2(4) fds(3) by (cases "sys_fds k"; cases "tl (sys_fds k)") auto
  moreover have "bm_used (fd_bitmap k2) = {0, 1}" "length (fd_bitmap k2) = 1" "length (fd_entries k2) = 32" using k1(6) k2(3) none fds by (auto simp: opened_def)
  moreover have "fd_entries k2 ! 0 = new_descriptor (cstr_of ''tty'') t0 0" "fd_entries k2 ! 1 = new_descriptor (cstr_of ''ttyS'') t1 1"
    using k1(6) k2(3) fds(2) by (simp_all add: opened_def)
  ultimately show ?thesis using k1(1,8-10) k2 by (simp add: open_system_files_def)
qed

section \<open>Properties\<close>

text \<open>C11: Nothing is lost across a shutdown. \<open>shutdown\<close> closes the descriptors of the special files and writes the
  metadata; a kernel that boots with that disk recognises it and, before it opens the special files, has the same
  superblock, inode map, data map and inode table as the one that was shut down. No data block is touched.\<close>

theorem shutdown_mount_roundtrip:
  assumes meta: "metadata_ok k" "world_ok w" and scr: "screen_ok (fst (screen k))" "cursor (fst (screen k)) < 1680"
    and fds: "sys_fds k = [int f0, int f1]" "f0 < 31" "f1 < 31" "length (fd_bitmap k) = 1"
  shows "\<exists>k'. shutdown w k = Inr k' \<and> bm_used (fd_bitmap k') = bm_used (fd_bitmap k) - {f0, f1} \<and>
    (\<forall>c. 8 \<le> c \<and> c < 33554432 \<longrightarrow> read_block k' c = read_block k c) \<and>
    (\<forall>kb. disk kb = disk k' \<longrightarrow> initalize_file_system w kb False =
       obind (print w ''Disk Recognized\<newline>'' (kb\<lparr>global_super := global_super k\<rparr>)) (\<lambda>k1.
       obind (open_system_files (k1\<lparr>global_ibmap := global_ibmap k, global_dbmap := global_dbmap k,
                global_inode_table := global_inode_table k, table_tail := table_tail k\<rparr>)) (\<lambda>k2. Inr (True, k2))))"
proof -
  obtain s bm where sd: "shutdown w k = Inr (sync_metadata w (k\<lparr>fd_bitmap := bm, screen := s\<rparr>))" and bm: "bm_used bm = bm_used (fd_bitmap k) - {f0, f1}"
    using shutdown_ok [OF scr fds] by blast
  let ?k = "k\<lparr>fd_bitmap := bm, screen := s\<rparr>"
  have ok: "metadata_ok ?k" using meta(1) by (simp add: metadata_ok_def)
  have "initalize_file_system w kb False = obind (print w ''Disk Recognized\<newline>'' (kb\<lparr>global_super := global_super k\<rparr>)) (\<lambda>k1.
       obind (open_system_files (k1\<lparr>global_ibmap := global_ibmap k, global_dbmap := global_dbmap k,
                global_inode_table := global_inode_table k, table_tail := table_tail k\<rparr>)) (\<lambda>k2. Inr (True, k2)))"
    if disk: "disk kb = disk (sync_metadata w ?k)" for kb
  proof -
    have "load_metadata k1 = k1\<lparr>global_ibmap := global_ibmap k, global_dbmap := global_dbmap k,
                global_inode_table := global_inode_table k, table_tail := table_tail k\<rparr>"
      if pr: "print w ''Disk Recognized\<newline>'' (kb\<lparr>global_super := global_super k\<rparr>) = Inr k1" for k1
    proof -
      obtain s' where "k1 = kb\<lparr>global_super := global_super k, screen := s'\<rparr>" using pr by (auto simp: print_def)
      then show ?thesis using load_after_sync(2) [OF ok meta(2), of k1] disk by simp
    qed
    then show ?thesis using mount_recognizes [OF ok meta(2) disk] by (cases "print w ''Disk Recognized\<newline>'' (kb\<lparr>global_super := global_super k\<rparr>)") simp_all
  qed
  moreover have "fd_bitmap (sync_metadata w ?k) = bm" by (simp add: sync_metadata_def Let_def)
  moreover have "read_block (sync_metadata w ?k) c = read_block k c" if "8 \<le> c" "c < 33554432" for c
    using sync_metadata_blocks(5) [OF ok meta(2) that] by (simp add: read_block_def)
  ultimately show ?thesis using sd bm by (intro exI [of _ "sync_metadata w ?k"]) simp
qed

lemma root_kernel_metadata: "metadata_ok root_kernel" "world_ok exact_world"
  by (auto simp: metadata_ok_def root_kernel_def super_ok_def cstring_eval world_ok_def exact_world_def inode_ok_def
      root_inode_def zero_inode_def)

theorem shutdown_mount_roundtrip_witness:
  "\<exists>k'. shutdown exact_world (root_kernel\<lparr>sys_fds := [0, 1]\<rparr>) = Inr k' \<and>
     initalize_file_system exact_world k' False =
       obind (print exact_world ''Disk Recognized\<newline>'' (k'\<lparr>global_super := global_super root_kernel\<rparr>)) (\<lambda>k1.
       obind (open_system_files (k1\<lparr>global_ibmap := global_ibmap root_kernel, global_dbmap := global_dbmap root_kernel,
                global_inode_table := global_inode_table root_kernel, table_tail := table_tail root_kernel\<rparr>)) (\<lambda>k2. Inr (True, k2)))"
proof -
  let ?k = "root_kernel\<lparr>sys_fds := [0, 1]\<rparr>"
  have "metadata_ok ?k" using root_kernel_metadata(1) by (simp add: metadata_ok_def)
  moreover have "screen_ok (fst (screen ?k))" "cursor (fst (screen ?k)) < 1680" "length (fd_bitmap ?k) = 1"
    by (simp_all add: root_kernel_def screen_ok_def cursor_def)
  ultimately show ?thesis
    using shutdown_mount_roundtrip [of ?k exact_world 0 1] root_kernel_metadata(2) by fastforce
qed

text \<open>Formatting, where a page is mapped at address 0: \<open>initalize_file_system\<close> with
  \<open>force_format\<close> returns true, the disk holds a well-formed tree with the directory \<open>/dev\<close> and the special files
  \<open>/dev/tty\<close> and \<open>/dev/ttyS\<close> in it and nothing else, and these are open as descriptors 0 and 1. The empty root directory is
  written from the null pointer, and neither the boot code nor the allocator maps a page there: in the program formatting ends in a fault
  instead (\<open>first_boot_faults\<close> in \<open>Boot\<close>).\<close>

theorem format_builds_tree:
  assumes ok: "boot_ok w k" and scr: "screen_ok (fst (screen k))" "cursor (fst (screen k)) < 1500"
  shows "\<exists>k'. initalize_file_system w k True = Inr (True, k') \<and> tree_ok k' dev_tree \<and>
    dev_tree 0 = [(cstr_of ''dev'', 1)] \<and> dev_tree 1 = [(cstr_of ''tty'', 2), (cstr_of ''ttyS'', 3)] \<and>
    directories k' = {0, 1} \<and> type_of k' 2 = FILE_TYPE_SPECIAL \<and> type_of k' 3 = FILE_TYPE_SPECIAL \<and> sys_fds k' = [0, 1] \<and>
    fd_entries k' ! 0 = new_descriptor (cstr_of ''tty'') 2 0 \<and> fd_entries k' ! 1 = new_descriptor (cstr_of ''ttyS'') 3 1 \<and>
    bm_used (fd_bitmap k') = {0, 1}"
proof -
  let ?k0 = "k\<lparr>global_super := bytes_super (take 512 (read_block k 0))\<rparr>"
  obtain s where pr: "print w ''Formatting Disk...\<newline>'' ?k0 = Inr (?k0\<lparr>screen := s\<rparr>)"
    using print_ok [of "''Formatting Disk...\<newline>''" ?k0 w] scr by (auto simp: print_eval)
  let ?k1 = "?k0\<lparr>screen := s\<rparr>"
  have b: "boot_ok w ?k1" using ok by (simp add: boot_ok_def)
  have "length (format_indicator (global_super ?k1)) = 16" using ok by (simp add: bytes_super_def read_block_def boot_ok_def)
  then obtain k2 where k2: "format_disk w ?k1 = Inr k2" "tree_ok k2 (\<lambda>_. [])" "bm_used (global_ibmap k2) = {0}" "bm_used (global_dbmap k2) = {..< 9}"
      "heap k2 = heap k" "hmem k2 = hmem k" "fd_bitmap k2 = fd_bitmap k" "fd_entries k2 = fd_entries k" "sys_fds k2 = sys_fds k"
    using format_disk_ok [OF b] by auto
  have "stage k2 (\<lambda>_. []) 1 9" using k2 ok by (simp add: stage_def idle_heap_def boot_ok_def lessThan_Suc)
  then obtain k3 where k3: "create_system_files k2 = Inr k3" "stage k3 dev_tree 4 10" "leads_to k3 dev_tree [cstr_of ''dev''] 1" "1 \<in> directories k3"
      "type_of k3 2 = 2" "type_of k3 3 = 2" "same_descriptors k2 k3"
    using create_system_files_ok by blast
  have fds: "fd_bitmap k3 = [0]" "length (fd_entries k3) = 32" "length (sys_fds k3) = 2"
    using k3(7) k2 ok by (simp_all add: same_descriptors_def boot_ok_def)
  obtain k4 where k4: "open_system_files k3 = Inr k4" "tree_ok k4 dev_tree" "sys_fds k4 = [0, 1]" "type_of k4 = type_of k3" "global_ibmap k4 = global_ibmap k3"
      "fd_entries k4 ! 0 = new_descriptor (cstr_of ''tty'') 2 0" "fd_entries k4 ! 1 = new_descriptor (cstr_of ''ttyS'') 3 1" "bm_used (fd_bitmap k4) = {0, 1}"
    using open_system_files_ok [OF _ _ _ fds, of dev_tree 1 2 3] k3(2-4) dev_names(7) by (auto simp: stage_def special_files_def dev_tree_def add_node_def)
  have "initalize_file_system w k True = Inr (True, k4)"
    using pr k2(1) k3(1) k4(1) by (simp add: initalize_file_system_def)
  moreover have "directories k4 = {0, 1}"
  proof -
    have D: "i \<in> directories k4 \<longleftrightarrow> i < 4 \<and> type_of k3 i = 0" for i using k4(4,5) k3(2) by (simp add: directories_def stage_def)
    have z: "(2 :: u8) \<noteq> 0" by simp
    have "type_of k3 0 = 0" "type_of k3 1 = 0" using k3(2,4) by (simp_all add: directories_def stage_def tree_ok_def)
    moreover have "i < 4 \<longleftrightarrow> i = 0 \<or> i = 1 \<or> i = 2 \<or> i = 3" for i :: nat by linarith
    ultimately have "i \<in> directories k4 \<longleftrightarrow> i = 0 \<or> i = 1" for i using k3(5,6) z unfolding D by metis
    then show ?thesis by blast
  qed
  moreover have "dev_tree 0 = [(cstr_of ''dev'', 1)]" "dev_tree 1 = [(cstr_of ''tty'', 2), (cstr_of ''ttyS'', 3)]"
    by (simp_all add: dev_tree_def add_node_def)
  moreover have "type_of k4 2 = FILE_TYPE_SPECIAL" "type_of k4 3 = FILE_TYPE_SPECIAL" using k3(5,6) k4(4) by (simp_all add: FILE_TYPE_SPECIAL_def)
  ultimately show ?thesis using k4(2,3,6-8) by blast
qed

text \<open>A kernel at boot with a blank disk, and the page at address 0 mapped.\<close>

definition boot_kernel :: kernel where
  "boot_kernel = root_kernel\<lparr>global_ibmap := replicate 1024 0, global_dbmap := replicate 1024 0, global_inode_table := replicate 426 zero_inode\<rparr>"

definition boot_world :: world where
  "boot_world = exact_world\<lparr>null_page := Some (replicate 4096 0)\<rparr>"

theorem format_builds_tree_witness:
  "\<exists>k'. initalize_file_system boot_world boot_kernel True = Inr (True, k') \<and> tree_ok k' dev_tree \<and> sys_fds k' = [0, 1]"
proof -
  have "world_ok boot_world" using root_kernel_metadata(2) by (simp add: world_ok_def boot_world_def)
  then have "boot_ok boot_world boot_kernel"
    using root_kernel_heap by (simp add: boot_ok_def boot_world_def boot_kernel_def inode_ok_def zero_inode_def) (simp add: root_kernel_def)
  moreover have "screen_ok (fst (screen boot_kernel))" "cursor (fst (screen boot_kernel)) < 1500"
    by (simp_all add: boot_kernel_def root_kernel_def screen_ok_def cursor_def)
  ultimately show ?thesis using format_builds_tree [of boot_world boot_kernel] by blast
qed

end
