(* ===== verification/Interrupts.thy ===== *)
theory Interrupts
  imports Input Format
begin

text \<open>
  Descriptor tables and interrupts (\<open>src/src/interrupts.c\<close>, \<open>src/include/interrupts.h\<close>, and the installers of
  \<open>src/src/io.c\<close>): the segment descriptors, the gates of the 256 vectors, the interrupt controllers and the
  dispatch of an interrupt to the routine installed for it.

  The addresses of the assembly stubs and of the two tables come from the linker and are the parameter \<open>ln\<close>, a record
  \<open>linker\<close>. A function pointer of \<open>irq_routines\<close> is a value of the type \<open>irq_routine\<close>, one constructor for each
  routine the program installs. \<open>lgdt\<close> and \<open>lidt\<close> copy the pointer structure into a register of the processor.
  An exception ends in an endless loop, the fault \<open>Diverges\<close>.
\<close>

section \<open>Definitions\<close>

record Registers =
  r_gs :: u32
  r_fs :: u32
  r_es :: u32
  r_ds :: u32
  r_edi :: u32
  r_esi :: u32
  r_ebp :: u32
  r_esp :: u32
  r_ebx :: u32
  r_edx :: u32
  r_ecx :: u32
  r_eax :: u32
  int_no :: u32
  err_code :: u32
  r_eip :: u32
  r_cs :: u32
  r_eflags :: u32
  r_useresp :: u32
  r_ss :: u32

record GDTEntry =
  limit_low :: u16
  g_base_low :: u16
  base_middle :: u8
  access :: u8
  granularity :: u8
  g_base_high :: u8

record GDTPtr =
  gp_limit :: u16
  gp_base :: u32

record IDTEntry =
  base_low :: u16
  sel :: u16
  idt_zero :: u8
  idt_flags :: u8
  base_high :: u16

record IDTPointer =
  idtp_limit :: u16
  idtp_base :: u32

datatype stub = Isr nat | Irq nat

record linker =
  stub_addr :: "stub \<Rightarrow> u32"
  gdt_addr :: u32
  idt_addr :: u32

datatype irq_routine = Timer_handler | Keyboard_handler | Serial_interrupt_handler

record machine =
  gdt :: "GDTEntry list"
  gp :: GDTPtr
  gdtr :: "GDTPtr option"
  idt :: "IDTEntry list"
  idtp :: IDTPointer
  idtr :: "IDTPointer option"
  irq_routines :: "irq_routine option list"
  timer_counter :: u64
  shift_pressed :: bool
  keyboard_input_buffer :: RingBuffer
  serial_port_buffer :: RingBuffer
  ports :: trace

subsection \<open>Segments\<close>

definition gdt_entry :: "u32 \<Rightarrow> u32 \<Rightarrow> u8 \<Rightarrow> u8 \<Rightarrow> GDTEntry" where
  "gdt_entry base limit acc gran =
     \<lparr>limit_low = ucast (limit AND 0xFFFF), g_base_low = ucast (base AND 0xFFFF),
      base_middle = ucast (drop_bit 16 base AND 0xFF), access = acc,
      granularity = ucast (drop_bit 16 limit AND 0x0F) OR (gran AND 0xF0), g_base_high = ucast (drop_bit 24 base AND 0xFF)\<rparr>"

definition gdt_set_gate :: "nat \<Rightarrow> u32 \<Rightarrow> u32 \<Rightarrow> u8 \<Rightarrow> u8 \<Rightarrow> machine \<Rightarrow> machine res" where
  "gdt_set_gate num base limit acc gran m =
     obind (wr (gdt m) num (gdt_entry base limit acc gran)) (\<lambda>g. Inr (m\<lparr>gdt := g\<rparr>))"

definition gdt_install :: "linker \<Rightarrow> machine \<Rightarrow> machine res" where
  "gdt_install ln m0 =
     (let m = m0\<lparr>gp := \<lparr>gp_limit = 8 * 5 - 1, gp_base = gdt_addr ln\<rparr>\<rparr> in
      obind (gdt_set_gate 0 0 0 0 0 m) (\<lambda>m1.
      obind (gdt_set_gate 1 0 0xFFFFFFFF 0x9A 0xCF m1) (\<lambda>m2.
      obind (gdt_set_gate 2 0 0xFFFFFFFF 0x92 0xCF m2) (\<lambda>m3.
      obind (gdt_set_gate 3 0 0xFFFFFFFF 0xFA 0xCF m3) (\<lambda>m4.
      obind (gdt_set_gate 4 0 0xFFFFFFFF 0xF2 0xCF m4) (\<lambda>m5. Inr (m5\<lparr>gdtr := Some (gp m5)\<rparr>)))))))"

subsection \<open>Gates\<close>

definition idt_gate :: "u32 \<Rightarrow> u16 \<Rightarrow> u8 \<Rightarrow> IDTEntry" where
  "idt_gate base sl fl =
     \<lparr>base_low = ucast (base AND 0xFFFF), sel = sl, idt_zero = 0, idt_flags = fl OR 0x60,
      base_high = ucast (drop_bit 16 base AND 0xFFFF)\<rparr>"

definition idt_set_gate :: "nat \<Rightarrow> u32 \<Rightarrow> u16 \<Rightarrow> u8 \<Rightarrow> machine \<Rightarrow> machine res" where
  "idt_set_gate num base sl fl m = obind (wr (idt m) num (idt_gate base sl fl)) (\<lambda>i. Inr (m\<lparr>idt := i\<rparr>))"

definition zero_gate :: IDTEntry where
  "zero_gate = \<lparr>base_low = 0, sel = 0, idt_zero = 0, idt_flags = 0, base_high = 0\<rparr>"

definition idt_install :: "linker \<Rightarrow> machine \<Rightarrow> machine" where
  "idt_install ln m =
     (let p = \<lparr>idtp_limit = 8 * 256 - 1, idtp_base = idt_addr ln\<rparr>
      in m\<lparr>idtp := p, idt := replicate (length (idt m)) zero_gate, idtr := Some p\<rparr>)"

text \<open>The runs of calls of \<open>idt_set_gate\<close> in \<open>isrs_install\<close> and \<open>irq_install\<close>, one per vector.\<close>

fun set_gates :: "(nat \<times> u32) list \<Rightarrow> machine \<Rightarrow> machine res" where
  "set_gates [] m = Inr m"
| "set_gates ((num, base) # rest) m = obind (idt_set_gate num base 0x08 0x8E m) (set_gates rest)"

definition isrs_install :: "linker \<Rightarrow> machine \<Rightarrow> machine res" where
  "isrs_install ln m = set_gates (map (\<lambda>n. (n, stub_addr ln (Isr n))) [0 ..< 32]) m"

definition irq_remap :: "u8 \<Rightarrow> u8 \<Rightarrow> trace \<Rightarrow> trace" where
  "irq_remap offset1 offset2 t0 =
     (let t1 = outb 0x20 (0x10 OR 0x01) t0; t2 = outb 0xA0 (0x10 OR 0x01) t1;
          t3 = outb 0x21 offset1 t2; t4 = outb 0xA1 offset2 t3;
          t5 = outb 0x21 4 t4; t6 = outb 0xA1 2 t5;
          t7 = outb 0x21 0x01 t6; t8 = outb 0xA1 0x01 t7;
          t9 = outb 0x21 0 t8
      in outb 0xA1 0 t9)"

definition irq_install :: "linker \<Rightarrow> machine \<Rightarrow> machine res" where
  "irq_install ln m0 =
     (let m = m0\<lparr>ports := irq_remap 0x20 0x28 (ports m0)\<rparr> in
      set_gates (map (\<lambda>n. (32 + n, stub_addr ln (Irq n))) [0 ..< 16] @ [(80, stub_addr ln (Isr 80))]) m)"

subsection \<open>Handlers\<close>

definition exception_messages :: "string list" where
  "exception_messages =
     [''Division By Zero'', ''Debug'', ''Non Maskable Interrupt'', ''Breakpoint'', ''Into Detected Overflow'', ''Out of Bounds'',
      ''Invalid Opcode'', ''No Coprocessor'', ''Double Fault'', ''Coprocessor Segment Overrun'', ''Bad TSS'', ''Segment Not Present'',
      ''Stack Fault'', ''General Protection Fault'', ''Page Fault'', ''Unknown Interrupt'', ''Coprocessor Fault'', ''Alignment Check'',
      ''Machine Check''] @ replicate 13 ''Reserved''"

definition isr_handler :: "environ \<Rightarrow> Registers \<Rightarrow> vga \<times> trace \<Rightarrow> (vga \<times> trace) res" where
  "isr_handler env r s =
     (if int_no r < 32 then
        obind (rd exception_messages (unat (int_no r))) (\<lambda>msg.
        obind (kprintf env (cstr_of msg @ [0]) [] s) (\<lambda>s1.
        obind (kprintf env (cstr_of '' Exception. System Halted!\<newline>'' @ [0]) [] s1) (\<lambda>_. Inl Diverges)))
      else if int_no r = 80 then kprintf env (cstr_of ''System call: %d\<newline>'' @ [0]) [Va_word (err_code r)] s
      else Inr s)"

definition irq_install_handler :: "nat \<Rightarrow> irq_routine \<Rightarrow> machine \<Rightarrow> machine res" where
  "irq_install_handler irq handler m = obind (wr (irq_routines m) irq (Some handler)) (\<lambda>rs. Inr (m\<lparr>irq_routines := rs\<rparr>))"

definition irq_uninstall_handler :: "nat \<Rightarrow> machine \<Rightarrow> machine res" where
  "irq_uninstall_handler irq m = obind (wr (irq_routines m) irq None) (\<lambda>rs. Inr (m\<lparr>irq_routines := rs\<rparr>))"

definition PIC_sendEOI :: "u8 \<Rightarrow> trace \<Rightarrow> trace" where
  "PIC_sendEOI irq t = (let t1 = if 8 \<le> irq then outb 0xA0 0x20 t else t in outb 0x20 0x20 t1)"

definition pic_disable :: "trace \<Rightarrow> trace" where
  "pic_disable t = outb 0xA1 0xff (outb 0x21 0xff t)"

definition timer_install :: "machine \<Rightarrow> machine res" where
  "timer_install m = obind (timer_phase 100 (ports m)) (\<lambda>t. irq_install_handler 0 Timer_handler (m\<lparr>ports := t\<rparr>))"

definition keyboard_install :: "machine \<Rightarrow> machine res" where
  "keyboard_install m = irq_install_handler 1 Keyboard_handler m"

definition serial_interrupt_install :: "machine \<Rightarrow> machine res" where
  "serial_interrupt_install m = irq_install_handler 4 Serial_interrupt_handler m"

text \<open>Calling an installed routine.\<close>

definition run_routine :: "hardware \<Rightarrow> irq_routine \<Rightarrow> machine \<Rightarrow> machine res" where
  "run_routine hw h m =
     (case h of
        Timer_handler \<Rightarrow> Inr (m\<lparr>timer_counter := timer_handler (timer_counter m)\<rparr>)
      | Keyboard_handler \<Rightarrow>
          obind (keyboard_handler hw (shift_pressed m) (keyboard_input_buffer m) (ports m)) (\<lambda>(s, rb, t).
            Inr (m\<lparr>shift_pressed := s, keyboard_input_buffer := rb, ports := t\<rparr>))
      | Serial_interrupt_handler \<Rightarrow>
          (case serial_interrupt_handler hw (serial_port_buffer m) (ports m) of
             None \<Rightarrow> Inl Diverges
           | Some r \<Rightarrow> obind r (\<lambda>(rb, t). Inr (m\<lparr>serial_port_buffer := rb, ports := t\<rparr>))))"

definition irq_handler :: "hardware \<Rightarrow> Registers \<Rightarrow> machine \<Rightarrow> machine res" where
  "irq_handler hw r m =
     obind (rd (irq_routines m) (unat (int_no r - 32))) (\<lambda>handler.
     obind (case handler of None \<Rightarrow> Inr m | Some h \<Rightarrow> run_routine hw h m) (\<lambda>m1.
       let t = (if 40 \<le> int_no r then outb 0xA0 0x20 (ports m1) else ports m1)
       in Inr (m1\<lparr>ports := outb 0x20 0x20 t\<rparr>)))"

text \<open>The interrupt set-up of \<open>main\<close> in \<open>src/src/kernel.c\<close>.\<close>

definition install_interrupts :: "linker \<Rightarrow> machine \<Rightarrow> machine res" where
  "install_interrupts ln m =
     obind (gdt_install ln m) (\<lambda>m1.
     obind (isrs_install ln (idt_install ln m1)) (\<lambda>m2.
     obind (irq_install ln m2) (\<lambda>m3.
     obind (timer_install m3) (\<lambda>m4.
     obind (keyboard_install m4) serial_interrupt_install))))"

section \<open>Descriptors\<close>

text \<open>How the processor reads a descriptor and a gate.\<close>

definition segment_base :: "GDTEntry \<Rightarrow> u32" where
  "segment_base e = ucast (g_base_low e) OR push_bit 16 (ucast (base_middle e)) OR push_bit 24 (ucast (g_base_high e))"

definition segment_limit :: "GDTEntry \<Rightarrow> u32" where
  "segment_limit e = ucast (limit_low e) OR push_bit 16 (ucast (granularity e AND 0x0F))"

definition gate_offset :: "IDTEntry \<Rightarrow> u32" where
  "gate_offset e = ucast (base_low e) OR push_bit 16 (ucast (base_high e))"

lemma mask_numerals:
  "(0xFFFF :: u32) = mask 16" "(0xFF :: u32) = mask 8" "(0x0F :: u32) = mask 4" "(0x0F :: u8) = mask 4" "(0xF0 :: u8) = push_bit 4 (mask 4)"
  "(0xFFFFF :: u32) = mask 20"
  by (simp_all add: mask_eq_exp_minus_1)

lemma gate_offset_gate: "gate_offset (idt_gate a sl fl) = a"
proof (rule bit_word_eqI)
  fix n assume "n < LENGTH(32)"
  then have n: "n < 32" by simp
  show "bit (gate_offset (idt_gate a sl fl)) n = bit a n"
    unfolding gate_offset_def idt_gate_def mask_numerals
    using n by (cases "n < 16") (auto simp: bit_simps)
qed

lemma segment_roundtrip:
  "segment_base (gdt_entry b l acc gran) = b"
  "segment_limit (gdt_entry b l acc gran) = l AND 0xFFFFF"
proof -
  show "segment_base (gdt_entry b l acc gran) = b"
  proof (rule bit_word_eqI)
    fix n assume "n < LENGTH(32)"
    then have n: "n < 32" by simp
    show "bit (segment_base (gdt_entry b l acc gran)) n = bit b n"
      unfolding segment_base_def gdt_entry_def mask_numerals
      using n by (cases "n < 16"; cases "n < 24") (auto simp: bit_simps)
  qed
  show "segment_limit (gdt_entry b l acc gran) = l AND 0xFFFFF"
  proof (rule bit_word_eqI)
    fix n assume "n < LENGTH(32)"
    then have n: "n < 32" by simp
    show "bit (segment_limit (gdt_entry b l acc gran)) n = bit (l AND 0xFFFFF) n"
      unfolding segment_limit_def gdt_entry_def mask_numerals
      using n by (cases "n < 16"; cases "n < 20") (auto simp: bit_simps)
  qed
qed

section \<open>Installing\<close>

lemma set_gates_result:
  assumes "\<forall>g \<in> set gates. fst g < length (idt m)" and "distinct (map fst gates)"
  shows "\<exists>i. set_gates gates m = Inr (m\<lparr>idt := i\<rparr>) \<and> length i = length (idt m) \<and>
    (\<forall>v < length (idt m). i ! v = (case map_of gates v of None \<Rightarrow> idt m ! v | Some b \<Rightarrow> idt_gate b 0x08 0x8E))"
  using assms
proof (induction gates arbitrary: m)
  case (Cons g gates)
  obtain n b where g: "g = (n, b)" by fastforce
  let ?m = "m\<lparr>idt := (idt m)[n := idt_gate b 0x08 0x8E]\<rparr>"
  have n: "n < length (idt m)" "n \<notin> fst ` set gates" using Cons.prems g by auto
  obtain i where i: "set_gates gates ?m = Inr (?m\<lparr>idt := i\<rparr>)" "length i = length (idt m)"
    "\<forall>v < length (idt m). i ! v = (case map_of gates v of None \<Rightarrow> idt ?m ! v | Some c \<Rightarrow> idt_gate c 0x08 0x8E)"
    using Cons.IH [of ?m] Cons.prems g by auto
  have "i ! v = (case map_of ((n, b) # gates) v of None \<Rightarrow> idt m ! v | Some c \<Rightarrow> idt_gate c 0x08 0x8E)" if "v < length (idt m)" for v
  proof (cases "v = n")
    case True
    then have "map_of gates v = None" using n(2) by (simp add: map_of_eq_None_iff)
    then show ?thesis using i(3) that True by simp
  qed (use i(3) that in \<open>auto split: option.splits\<close>)
  then show ?case using g n i by (intro exI [of _ i]) (simp add: idt_set_gate_def)
next
  case Nil
  show ?case by (intro exI [of _ "idt m"]) simp
qed

definition boot_machine :: "machine \<Rightarrow> bool" where
  "boot_machine m \<longleftrightarrow> length (gdt m) = 6 \<and> length (idt m) = 256 \<and> irq_routines m = replicate 16 None"

definition vectors :: "linker \<Rightarrow> nat \<Rightarrow> IDTEntry" where
  "vectors ln v = (if v < 32 then idt_gate (stub_addr ln (Isr v)) 0x08 0x8E
     else if v < 48 then idt_gate (stub_addr ln (Irq (v - 32))) 0x08 0x8E
     else if v = 80 then idt_gate (stub_addr ln (Isr 80)) 0x08 0x8E else zero_gate)"

definition installed_routines :: "irq_routine option list" where
  "installed_routines = (replicate 16 None)[0 := Some Timer_handler, 1 := Some Keyboard_handler, 4 := Some Serial_interrupt_handler]"

lemma gdt_install_result:
  assumes "length (gdt m) = 6"
  shows "\<exists>g. gdt_install ln m = Inr (m\<lparr>gp := \<lparr>gp_limit = 39, gp_base = gdt_addr ln\<rparr>, gdt := g, gdtr := Some \<lparr>gp_limit = 39, gp_base = gdt_addr ln\<rparr>\<rparr>) \<and>
    g = [gdt_entry 0 0 0 0, gdt_entry 0 0xFFFFFFFF 0x9A 0xCF, gdt_entry 0 0xFFFFFFFF 0x92 0xCF, gdt_entry 0 0xFFFFFFFF 0xFA 0xCF,
         gdt_entry 0 0xFFFFFFFF 0xF2 0xCF, gdt m ! 5]"
proof -
  obtain a b c d e f where "gdt m = [a, b, c, d, e, f]" using assms by (auto simp: length_Suc_conv numeral_eq_Suc)
  then show ?thesis by (simp add: gdt_install_def gdt_set_gate_def wr_def)
qed

lemma irq_gates: "map (\<lambda>n. (32 + n, stub_addr ln (Irq n))) [0 ..< 16] = map (\<lambda>v. (v, stub_addr ln (Irq (v - 32)))) [32 ..< 48]"
proof (rule nth_equalityI)
  fix j assume "j < length (map (\<lambda>n. (32 + n, stub_addr ln (Irq n))) [0 ..< 16])"
  then have "j < 16" by (metis diff_zero length_map length_upt)
  then show "map (\<lambda>n. (32 + n, stub_addr ln (Irq n))) [0 ..< 16] ! j = map (\<lambda>v. (v, stub_addr ln (Irq (v - 32)))) [32 ..< 48] ! j"
    by (subst (1 2) nth_map) (auto simp del: upt_rec_numeral simp: nth_upt)
qed (simp del: upt_rec_numeral)

lemma install_gates:
  assumes "length (idt m) = 256"
  shows "\<exists>i. obind (isrs_install ln (idt_install ln m)) (irq_install ln) =
      Inr (m\<lparr>idtp := \<lparr>idtp_limit = 2047, idtp_base = idt_addr ln\<rparr>, idtr := Some \<lparr>idtp_limit = 2047, idtp_base = idt_addr ln\<rparr>,
             idt := i, ports := irq_remap 0x20 0x28 (ports m)\<rparr>) \<and> length i = 256 \<and> (\<forall>v < 256. i ! v = vectors ln v)"
proof -
  let ?m1 = "idt_install ln m" and ?g1 = "map (\<lambda>n. (n, stub_addr ln (Isr n))) [0 ..< 32]"
  let ?g2 = "map (\<lambda>v. (v, stub_addr ln (Irq (v - 32)))) [32 ..< 48] @ [(80, stub_addr ln (Isr 80))]"
  have l1: "length (idt ?m1) = 256" using assms by (simp add: idt_install_def Let_def)
  obtain i1 where i1: "isrs_install ln ?m1 = Inr (?m1\<lparr>idt := i1\<rparr>)" "length i1 = 256"
    "\<forall>v < 256. i1 ! v = (case map_of ?g1 v of None \<Rightarrow> idt ?m1 ! v | Some b \<Rightarrow> idt_gate b 0x08 0x8E)"
    using set_gates_result [of ?g1 ?m1] l1 unfolding isrs_install_def by (auto simp: comp_def)
  let ?m2 = "?m1\<lparr>idt := i1, ports := irq_remap 0x20 0x28 (ports ?m1)\<rparr>"
  obtain i2 where i2: "set_gates ?g2 ?m2 = Inr (?m2\<lparr>idt := i2\<rparr>)" "length i2 = 256"
    "\<forall>v < 256. i2 ! v = (case map_of ?g2 v of None \<Rightarrow> i1 ! v | Some b \<Rightarrow> idt_gate b 0x08 0x8E)"
    using set_gates_result [of ?g2 ?m2] i1(2) by (auto simp: comp_def)
  have g1: "map_of ?g1 v = (if v < 32 then Some (stub_addr ln (Isr v)) else None)" for v
    by (simp add: map_of_map_restrict restrict_map_def)
  have g2: "map_of ?g2 v = (if 32 \<le> v \<and> v < 48 then Some (stub_addr ln (Irq (v - 32))) else if v = 80 then Some (stub_addr ln (Isr 80)) else None)" for v
    unfolding map_of_append map_of_map_restrict map_add_def restrict_map_def by (auto simp del: upt_rec_numeral)
  have "i2 ! v = vectors ln v" if "v < 256" for v
    using i2(3) i1(3) that assms unfolding g1 g2 by (auto simp: vectors_def idt_install_def Let_def)
  then show ?thesis
    using i1(1) i2(1,2) by (intro exI [of _ i2]) (simp add: irq_install_def irq_gates idt_install_def Let_def)
qed

lemma install_interrupts_result:
  assumes "boot_machine m"
  shows "\<exists>m'. install_interrupts ln m = Inr m' \<and> length (idt m') = 256 \<and> (\<forall>v < 256. idt m' ! v = vectors ln v) \<and>
    idtr m' = Some \<lparr>idtp_limit = 2047, idtp_base = idt_addr ln\<rparr> \<and> gdtr m' = Some \<lparr>gp_limit = 39, gp_base = gdt_addr ln\<rparr> \<and>
    irq_routines m' = installed_routines \<and> timer_counter m' = timer_counter m \<and> keyboard_input_buffer m' = keyboard_input_buffer m \<and>
    serial_port_buffer m' = serial_port_buffer m \<and> shift_pressed m' = shift_pressed m"
proof -
  have b: "length (gdt m) = 6" "length (idt m) = 256" "irq_routines m = replicate 16 None" using assms by (simp_all add: boot_machine_def)
  obtain m1 where m1: "gdt_install ln m = Inr m1" "idt m1 = idt m" "gdtr m1 = Some \<lparr>gp_limit = 39, gp_base = gdt_addr ln\<rparr>" "irq_routines m1 = irq_routines m"
      "timer_counter m1 = timer_counter m" "keyboard_input_buffer m1 = keyboard_input_buffer m" "serial_port_buffer m1 = serial_port_buffer m" "shift_pressed m1 = shift_pressed m"
    using gdt_install_result [OF b(1), of ln] by auto
  obtain i where i: "obind (isrs_install ln (idt_install ln m1)) (irq_install ln) =
      Inr (m1\<lparr>idtp := \<lparr>idtp_limit = 2047, idtp_base = idt_addr ln\<rparr>, idtr := Some \<lparr>idtp_limit = 2047, idtp_base = idt_addr ln\<rparr>,
             idt := i, ports := irq_remap 0x20 0x28 (ports m1)\<rparr>)" "length i = 256" "\<forall>v < 256. i ! v = vectors ln v"
    using install_gates [of m1 ln] m1(2) b(2) by auto
  obtain m2 where m2: "isrs_install ln (idt_install ln m1) = Inr m2" "irq_install ln m2 =
      Inr (m1\<lparr>idtp := \<lparr>idtp_limit = 2047, idtp_base = idt_addr ln\<rparr>, idtr := Some \<lparr>idtp_limit = 2047, idtp_base = idt_addr ln\<rparr>,
             idt := i, ports := irq_remap 0x20 0x28 (ports m1)\<rparr>)"
    using i(1) by (cases "isrs_install ln (idt_install ln m1)") auto
  show ?thesis
    using m1 m2 i(2,3) b(3)
    by (simp add: install_interrupts_def timer_install_def timer_phase_def Let_def keyboard_install_def serial_interrupt_install_def
        irq_install_handler_def wr_def installed_routines_def)
qed

section \<open>Serving interrupts\<close>

text \<open>A sequence of hardware interrupts, one after the other: the handlers run with interrupts disabled.\<close>

fun irq_sequence :: "hardware \<Rightarrow> Registers list \<Rightarrow> machine \<Rightarrow> machine res" where
  "irq_sequence hw [] m = Inr m"
| "irq_sequence hw (r # rs) m = obind (irq_handler hw r m) (irq_sequence hw rs)"

definition irq_vector :: "Registers \<Rightarrow> bool" where
  "irq_vector r \<longleftrightarrow> 32 \<le> int_no r \<and> int_no r < 48"

definition serving :: "machine \<Rightarrow> bool" where
  "serving m \<longleftrightarrow> irq_routines m = installed_routines \<and> ring_inv (keyboard_input_buffer m) \<and> ring_inv (serial_port_buffer m)"

definition writes :: "u16 \<Rightarrow> u8 \<Rightarrow> trace \<Rightarrow> nat" where
  "writes p v t = length (filter (\<lambda>e. e = Outb p v) t)"

lemma writes_simps [simp]:
  "writes p v [] = 0"
  "writes p v (Outb q u # t) = (if q = p \<and> u = v then 1 else 0) + writes p v t"
  "writes p v (Inb q u # t) = writes p v t"
  "writes p v (map (Inb q) us @ t) = writes p v t"
  by (induction us) (auto simp: writes_def)

lemma installed_routine:
  "n < 16 \<Longrightarrow> installed_routines ! n =
     (if n = 0 then Some Timer_handler else if n = 1 then Some Keyboard_handler else if n = 4 then Some Serial_interrupt_handler else None)"
  "length installed_routines = 16"
  by (simp_all add: installed_routines_def nth_list_update)

text \<open>A routine changes neither the tables nor the interrupt controllers.\<close>

definition quiet :: "machine \<Rightarrow> machine \<Rightarrow> bool" where
  "quiet m m' \<longleftrightarrow> gdt m' = gdt m \<and> idt m' = idt m \<and> irq_routines m' = irq_routines m \<and>
     (\<forall>p v. writes p v (ports m') = writes p v (ports m))"

lemma keyboard_handler_serves:
  assumes "ring_inv rb"
  shows "\<exists>s' rb' t'. keyboard_handler hw s rb t = Inr (s', rb', t') \<and> ring_inv rb' \<and> (\<forall>p v. writes p v t' = writes p v t)"
proof -
  have "\<exists>s' rb'. keyboard_key s rb c = Inr (s', rb') \<and> ring_inv rb'" for c
  proof (cases "snd (decode s c)")
    case None
    then show ?thesis using assms by (cases "decode s c") (auto simp: keyboard_key_decode)
  next
    case (Some a)
    then show ?thesis using ring.put_law [OF assms, of a] by (cases "decode s c") (auto simp: keyboard_key_decode)
  qed
  then obtain s' rb' where "keyboard_key s rb (hw_inb hw t 0x60) = Inr (s', rb')" "ring_inv rb'" by blast
  then show ?thesis by (simp add: keyboard_handler_def inb_def Let_def)
qed

lemma serial_interrupt_serves:
  assumes "ring_inv rb" and "read_serial hw t = Some (c, t1)"
  shows "\<exists>rb' t'. serial_interrupt_handler hw rb t = Some (Inr (rb', t')) \<and> ring_inv rb' \<and> (\<forall>p v. writes p v t' = writes p v t)"
proof -
  have "\<forall>p v. writes p v t1 = writes p v t" using read_serial_byte [OF assms(2)] by auto
  then show ?thesis using ring.put_law [OF assms(1), of c] assms by (auto simp: serial_interrupt_handler_def)
qed

lemma run_routine_serves:
  assumes "serving m" and "h = Serial_interrupt_handler \<longrightarrow> read_serial hw (ports m) \<noteq> None"
  shows "\<exists>m'. run_routine hw h m = Inr m' \<and> serving m' \<and> quiet m m' \<and>
    timer_counter m' = timer_counter m + (if h = Timer_handler then 1 else 0)"
proof (cases h)
  case Keyboard_handler
  obtain s' rb' t' where "keyboard_handler hw (shift_pressed m) (keyboard_input_buffer m) (ports m) = Inr (s', rb', t')" "ring_inv rb'"
      "\<forall>p v. writes p v t' = writes p v (ports m)"
    using keyboard_handler_serves assms(1) unfolding serving_def by metis
  then show ?thesis using assms(1) Keyboard_handler by (simp add: run_routine_def serving_def quiet_def)
next
  case Serial_interrupt_handler
  obtain c t1 where "read_serial hw (ports m) = Some (c, t1)" using assms(2) Serial_interrupt_handler by fastforce
  then obtain rb' t' where "serial_interrupt_handler hw (serial_port_buffer m) (ports m) = Some (Inr (rb', t'))" "ring_inv rb'"
      "\<forall>p v. writes p v t' = writes p v (ports m)"
    using serial_interrupt_serves assms(1) unfolding serving_def by metis
  then show ?thesis using assms(1) Serial_interrupt_handler by (simp add: run_routine_def serving_def quiet_def)
qed (use assms(1) in \<open>simp add: run_routine_def serving_def quiet_def timer_handler_def\<close>)

text \<open>A serial interrupt that finds the line silent for good: its handler waits for a byte.\<close>

definition hangs :: "hardware \<Rightarrow> Registers \<Rightarrow> machine \<Rightarrow> bool" where
  "hangs hw r m \<longleftrightarrow> int_no r = 36 \<and> read_serial hw (ports m) = None"

lemma irq_handler_serves:
  assumes "serving m" and "\<not> hangs hw r m" and "irq_vector r"
  shows "\<exists>m'. irq_handler hw r m = Inr m' \<and> serving m' \<and> gdt m' = gdt m \<and> idt m' = idt m \<and>
    timer_counter m' = timer_counter m + (if int_no r = 32 then 1 else 0) \<and>
    writes 0x20 0x20 (ports m') = Suc (writes 0x20 0x20 (ports m)) \<and>
    writes 0xA0 0x20 (ports m') = (if 40 \<le> int_no r then 1 else 0) + writes 0xA0 0x20 (ports m)"
proof -
  define n where "n = unat (int_no r - 32)"
  have u: "unat (int_no r - 32) = unat (int_no r) - 32" using assms(3) by (simp add: irq_vector_def unat_sub word_le_nat_alt)
  have n: "n < 16" "n = 0 \<longleftrightarrow> int_no r = 32" "n = 4 \<longleftrightarrow> int_no r = 36"
    using assms(3) unfolding n_def by (auto simp: irq_vector_def u word_less_nat_alt word_le_nat_alt word_unat_eq_iff)
  have rt: "rd (irq_routines m) n = Inr (installed_routines ! n)"
    using assms(1) n(1) by (simp add: serving_def rd_def installed_routine(2))
  obtain m1 where m1: "(case installed_routines ! n of None \<Rightarrow> Inr m | Some h \<Rightarrow> run_routine hw h m) = Inr m1" "serving m1" "quiet m m1"
      "timer_counter m1 = timer_counter m + (if n = 0 then 1 else 0)"
  proof (cases "installed_routines ! n")
    case None
    then have "n \<noteq> 0" using installed_routine(1) [OF n(1)] by (auto split: if_splits)
    with None show ?thesis using assms(1) that [of m] by (simp add: quiet_def)
  next
    case (Some h)
    then have "h = Timer_handler \<longleftrightarrow> n = 0" using installed_routine(1) [OF n(1)] by (auto split: if_splits)
    moreover have "h = Serial_interrupt_handler \<longrightarrow> read_serial hw (ports m) \<noteq> None"
      using Some installed_routine(1) [OF n(1)] n(3) assms(2) by (auto simp: hangs_def split: if_splits)
    ultimately show ?thesis using Some run_routine_serves [OF assms(1), of h hw] that by auto
  qed
  show ?thesis
    using m1 n(2) unfolding irq_handler_def n_def [symmetric] rt
    by (auto simp: Let_def outb_def serving_def quiet_def)
qed

lemma irq_handler_hangs:
  assumes "serving m" and "hangs hw r m"
  shows "irq_handler hw r m = Inl Diverges"
proof -
  have "rd (irq_routines m) 4 = Inr (Some Serial_interrupt_handler)" using assms(1) by (simp add: serving_def rd_def installed_routine)
  then show ?thesis using assms(2) by (simp add: irq_handler_def hangs_def run_routine_def serial_interrupt_handler_def)
qed

text \<open>What a sequence \<open>rs\<close> leaves of \<open>m\<close> when all of it is served.\<close>

definition all_served :: "Registers list \<Rightarrow> machine \<Rightarrow> machine \<Rightarrow> bool" where
  "all_served rs m m' \<longleftrightarrow> serving m' \<and> gdt m' = gdt m \<and> idt m' = idt m \<and>
     timer_counter m' = timer_counter m + of_nat (length (filter (\<lambda>r. int_no r = 32) rs)) \<and>
     writes 0x20 0x20 (ports m') = writes 0x20 0x20 (ports m) + length rs \<and>
     writes 0xA0 0x20 (ports m') = writes 0xA0 0x20 (ports m) + length (filter (\<lambda>r. 40 \<le> int_no r) rs)"

lemma irq_sequence_outcome:
  assumes "serving m" and "\<forall>r \<in> set rs. irq_vector r"
  shows "(\<exists>m'. irq_sequence hw rs m = Inr m' \<and> all_served rs m m') \<or>
    (\<exists>rs1 r rs2 m1. rs = rs1 @ r # rs2 \<and> irq_sequence hw rs1 m = Inr m1 \<and> all_served rs1 m m1 \<and> hangs hw r m1 \<and> irq_sequence hw rs m = Inl Diverges)"
  using assms
proof (induction rs arbitrary: m)
  case (Cons r rs)
  show ?case
  proof (cases "hangs hw r m")
    case True
    then have "irq_sequence hw (r # rs) m = Inl Diverges" using irq_handler_hangs [OF Cons.prems(1)] by simp
    moreover have "all_served [] m m" using Cons.prems(1) by (simp add: all_served_def)
    ultimately show ?thesis using True by (intro disjI2 exI [of _ "[]"] exI [of _ r] exI [of _ rs] exI [of _ m]) simp
  next
    case False
    then obtain m1 where m1: "irq_handler hw r m = Inr m1" "all_served [r] m m1"
      using irq_handler_serves [OF Cons.prems(1) False] Cons.prems(2) by (auto simp: all_served_def)
    have step: "all_served (r # rs') m m'" if "all_served rs' m1 m'" for rs' m' using that m1(2) by (auto simp: all_served_def)
    have "serving m1" using m1(2) by (simp add: all_served_def)
    then consider m' where "irq_sequence hw rs m1 = Inr m'" "all_served rs m1 m'"
      | rs1 q rs2 m2 where "rs = rs1 @ q # rs2" "irq_sequence hw rs1 m1 = Inr m2" "all_served rs1 m1 m2" "hangs hw q m2" "irq_sequence hw rs m1 = Inl Diverges"
      using Cons.IH [of m1] Cons.prems(2) by auto
    then show ?thesis
    proof cases
      case 1
      then show ?thesis using m1(1) step by auto
    next
      case 2
      then show ?thesis using m1(1) step by (intro disjI2 exI [of _ "r # rs1"] exI [of _ q] exI [of _ rs2] exI [of _ m2]) simp
    qed
  qed
qed (simp add: all_served_def)

section \<open>Properties\<close>

definition sample_linker :: linker where
  "sample_linker = \<lparr>stub_addr = (\<lambda>s. case s of Isr n \<Rightarrow> 0xC0101000 + 16 * of_nat n | Irq n \<Rightarrow> 0xC0102000 + 16 * of_nat n),
     gdt_addr = 0xC0103000, idt_addr = 0xC0104000\<rparr>"

definition sample_machine :: machine where
  "sample_machine =
     \<lparr>gdt = replicate 6 (gdt_entry 0 0 0 0), gp = \<lparr>gp_limit = 0, gp_base = 0\<rparr>, gdtr = None, idt = replicate 256 zero_gate,
      idtp = \<lparr>idtp_limit = 0, idtp_base = 0\<rparr>, idtr = None, irq_routines = replicate 16 None, timer_counter = 0, shift_pressed = False,
      keyboard_input_buffer = zero_ring, serial_port_buffer = zero_ring, ports = []\<rparr>"

definition sample_registers :: "u32 \<Rightarrow> Registers" where
  "sample_registers n =
     \<lparr>r_gs = 0x10, r_fs = 0x10, r_es = 0x10, r_ds = 0x10, r_edi = 0, r_esi = 0, r_ebp = 0, r_esp = 0, r_ebx = 0, r_edx = 0, r_ecx = 0,
      r_eax = 0, int_no = n, err_code = 0, r_eip = 0, r_cs = 0x08, r_eflags = 0x202, r_useresp = 0, r_ss = 0x10\<rparr>"

text \<open>Descriptor encoding: the processor reads back from a segment descriptor exactly the base and the low 20 bits of the
  limit that \<open>gdt_set_gate\<close> was given, and from a gate exactly the handler's address that \<open>idt_set_gate\<close> was given, whatever
  the access, granularity, selector and flag bytes are; only the upper half of the granularity byte is the caller's, and bits 5
  and 6 of the flags are always set.\<close>

theorem descriptor_roundtrip:
  "segment_base (gdt_entry b l acc gran) = b \<and> segment_limit (gdt_entry b l acc gran) = l AND 0xFFFFF \<and>
   gate_offset (idt_gate a sl fl) = a \<and> idt_flags (idt_gate a sl fl) AND 0x60 = 0x60"
proof -
  have "(fl OR 0x60) AND 0x60 = (0x60 :: u8)" by (metis or.commute and.commute word_ao_absorbs(3))
  then show ?thesis using segment_roundtrip gate_offset_gate by (simp add: idt_gate_def)
qed

text \<open>C31: Installing the interrupts: from the tables as the program starts with them, the set-up of \<open>main\<close> runs to its end; every
  one of the 256 vectors then leads where it should (the 32 exceptions, the 16 hardware interrupts and the system call to
  their stubs, every other vector to an empty gate), the descriptor registers of the processor point at the whole interrupt table and
  the five descriptors, and the timer, the keyboard and the serial port have their routines.\<close>

theorem interrupts_installed:
  assumes "boot_machine m"
  shows "\<exists>m'. install_interrupts ln m = Inr m' \<and>
    (\<forall>v < 32. gate_offset (idt m' ! v) = stub_addr ln (Isr v) \<and> sel (idt m' ! v) = 0x08) \<and>
    (\<forall>n < 16. gate_offset (idt m' ! (32 + n)) = stub_addr ln (Irq n) \<and> sel (idt m' ! (32 + n)) = 0x08) \<and>
    gate_offset (idt m' ! 80) = stub_addr ln (Isr 80) \<and>
    (\<forall>v. 48 \<le> v \<and> v < 256 \<and> v \<noteq> 80 \<longrightarrow> idt m' ! v = zero_gate) \<and>
    idtr m' = Some \<lparr>idtp_limit = 2047, idtp_base = idt_addr ln\<rparr> \<and> gdtr m' = Some \<lparr>gp_limit = 39, gp_base = gdt_addr ln\<rparr> \<and>
    irq_routines m' = installed_routines"
proof -
  obtain m' where "install_interrupts ln m = Inr m'" "\<forall>v < 256. idt m' ! v = vectors ln v"
      "idtr m' = Some \<lparr>idtp_limit = 2047, idtp_base = idt_addr ln\<rparr>" "gdtr m' = Some \<lparr>gp_limit = 39, gp_base = gdt_addr ln\<rparr>"
      "irq_routines m' = installed_routines"
    using install_interrupts_result [OF assms, of ln] by blast
  moreover have "sel (idt_gate a 8 142) = 8" for a by (simp add: idt_gate_def)
  ultimately show ?thesis by (simp add: vectors_def gate_offset_gate)
qed

theorem interrupts_installed_witness:
  "\<exists>m'. install_interrupts sample_linker sample_machine = Inr m' \<and> gate_offset (idt m' ! 33) = 0xC0102010"
proof -
  have "boot_machine sample_machine" by (simp add: boot_machine_def sample_machine_def)
  from interrupts_installed [OF this, of sample_linker] obtain m' where m': "install_interrupts sample_linker sample_machine = Inr m'"
      "\<forall>n < 16. gate_offset (idt m' ! (32 + n)) = stub_addr sample_linker (Irq n) \<and> sel (idt m' ! (32 + n)) = 0x08"
    by blast
  then have "gate_offset (idt m' ! (32 + 1)) = stub_addr sample_linker (Irq 1)" by (metis one_less_numeral_iff semiring_norm(76))
  with m'(1) show ?thesis by (simp add: sample_linker_def)
qed

text \<open>C21: Serving interrupts. For any number of the sixteen hardware interrupts in any order, on any hardware: either all of them are served and acknowledged (both ring
  buffers stay well formed and the tables as they were, the timer has counted exactly its own interrupts modulo its 64 bits, the master controller got one end of interrupt for
  each and the slave one for each interrupt that came through it), or one of them is a serial interrupt that finds a line that stays silent for good; then every interrupt
  before it has been served, and its handler waits forever. There is no other way to fail; in particular a sequence without serial interrupts is always served.\<close>

theorem every_irq_acknowledged:
  assumes "serving m" and "\<forall>r \<in> set rs. irq_vector r"
  shows "(\<exists>m'. irq_sequence hw rs m = Inr m' \<and> all_served rs m m') \<or>
    (\<exists>rs1 r rs2 m1. rs = rs1 @ r # rs2 \<and> irq_sequence hw rs1 m = Inr m1 \<and> all_served rs1 m m1 \<and> hangs hw r m1 \<and> irq_sequence hw rs m = Inl Diverges)"
  using irq_sequence_outcome [OF assms] .

theorem every_irq_acknowledged_witness:
  "\<exists>m'. irq_sequence \<lparr>hw_inb = \<lambda>_ _. 0, hw_inw = \<lambda>_ _. 0\<rparr> (map sample_registers [32, 47, 33, 32])
      (sample_machine\<lparr>irq_routines := installed_routines\<rparr>) = Inr m' \<and>
    timer_counter m' = 2 \<and> writes 0x20 0x20 (ports m') = 4 \<and> writes 0xA0 0x20 (ports m') = 1"
proof -
  let ?hw = "\<lparr>hw_inb = \<lambda>_ _. 0, hw_inw = \<lambda>_ _. 0\<rparr>" and ?m = "sample_machine\<lparr>irq_routines := installed_routines\<rparr>" and ?rs = "map sample_registers [32, 47, 33, 32]"
  have "serving ?m" by (simp add: serving_def sample_machine_def)
  moreover have "\<forall>r \<in> set ?rs. irq_vector r \<and> int_no r \<noteq> 36" by (simp add: irq_vector_def sample_registers_def)
  then have "\<forall>r \<in> set ?rs. irq_vector r" "\<forall>r \<in> set ?rs. \<not> hangs ?hw r m" for m by (simp_all only: hangs_def) blast+
  ultimately obtain m' where "irq_sequence ?hw ?rs ?m = Inr m'" "all_served ?rs ?m m'"
    using every_irq_acknowledged [of ?m ?rs ?hw] by (metis in_set_conv_decomp)
  then show ?thesis by (auto simp: all_served_def sample_machine_def sample_registers_def)
qed

end
