(* ===== verification/Ata.thy ===== *)
theory Ata
  imports Ports
begin

text \<open>
  The disk driver (\<open>src/src/ata.c\<close>, \<open>src/include/flags.h\<close>): sectors read and written word by word through the ports of
  the drive.

  The drive is not part of the program: it is the parameter \<open>hw\<close> of \<open>Ports\<close>. What the driver relies on is stated as the
  predicate \<open>compliant\<close>, the documented protocol of programmed transfers: the task file registers select sectors by
  their 28-bit number, a command starts a transfer, a word goes through the data port only after the status
  register has shown \<open>DRQ\<close> for its sector, and \<open>BSY\<close> and a missing \<open>DRQ\<close> do not last for ever. The state of the
  drive after a trace of port accesses is the function \<open>drive\<close>.
\<close>

section \<open>Definitions\<close>

definition SECTOR_BYTES :: nat where "SECTOR_BYTES = 512"
definition SECTOR_WORDS :: nat where "SECTOR_WORDS = 256"
definition SECTORS_PER_BLOCK :: u32 where "SECTORS_PER_BLOCK = 8"

definition ATA_REG_DATA :: u16 where "ATA_REG_DATA = 0x1F0"
definition ATA_REG_ERROR :: u16 where "ATA_REG_ERROR = 0x1F1"
definition ATA_REG_SECCOUNT :: u16 where "ATA_REG_SECCOUNT = 0x1F2"
definition ATA_REG_LBA0 :: u16 where "ATA_REG_LBA0 = 0x1F3"
definition ATA_REG_LBA1 :: u16 where "ATA_REG_LBA1 = 0x1F4"
definition ATA_REG_LBA2 :: u16 where "ATA_REG_LBA2 = 0x1F5"
definition ATA_REG_DRIVE_SELECT :: u16 where "ATA_REG_DRIVE_SELECT = 0x1F6"
definition ATA_REG_COMMAND :: u16 where "ATA_REG_COMMAND = 0x1F7"
definition ATA_REG_STATUS :: u16 where "ATA_REG_STATUS = 0x1F7"

definition ATA_CMD_READ_SECTORS :: u8 where "ATA_CMD_READ_SECTORS = 0x20"
definition ATA_CMD_WRITE_SECTORS :: u8 where "ATA_CMD_WRITE_SECTORS = 0x30"
definition ATA_CMD_CACHE_FLUSH :: u8 where "ATA_CMD_CACHE_FLUSH = 0xE7"
definition ATA_CMD_IDENTIFY :: u8 where "ATA_CMD_IDENTIFY = 0xEC"
definition ATA_SR_BSY :: u8 where "ATA_SR_BSY = 0x80"
definition ATA_SR_DRQ :: u8 where "ATA_SR_DRQ = 0x08"

lemmas ata_consts =
  SECTOR_BYTES_def SECTOR_WORDS_def ATA_REG_DATA_def ATA_REG_ERROR_def ATA_REG_SECCOUNT_def ATA_REG_LBA0_def ATA_REG_LBA1_def
  ATA_REG_LBA2_def ATA_REG_DRIVE_SELECT_def ATA_REG_COMMAND_def ATA_REG_STATUS_def ATA_CMD_READ_SECTORS_def
  ATA_CMD_WRITE_SECTORS_def ATA_CMD_CACHE_FLUSH_def ATA_SR_BSY_def ATA_SR_DRQ_def

definition ata_wait_ready :: "hardware \<Rightarrow> trace \<Rightarrow> trace option" where
  "ata_wait_ready hw t = map_option snd (poll hw (\<lambda>s. s AND ATA_SR_BSY = 0) ATA_REG_STATUS t)"

definition ata_wait_data :: "hardware \<Rightarrow> trace \<Rightarrow> trace option" where
  "ata_wait_data hw t = map_option snd (poll hw (\<lambda>s. s AND ATA_SR_DRQ \<noteq> 0) ATA_REG_STATUS t)"

definition ata_cache_flush :: "hardware \<Rightarrow> trace \<Rightarrow> trace option" where
  "ata_cache_flush hw t =
     Option.bind (ata_wait_ready hw t) (\<lambda>t1. ata_wait_ready hw (outb ATA_REG_COMMAND ATA_CMD_CACHE_FLUSH t1))"

text \<open>The register writes that start a transfer, the same for reading and writing but for the command.\<close>

definition task_file :: "u32 \<Rightarrow> u32 \<Rightarrow> u8 \<Rightarrow> trace \<Rightarrow> trace" where
  "task_file lba sector_count cmd t =
     (let t1 = outb ATA_REG_DRIVE_SELECT (0xE0 OR ucast (drop_bit 24 lba AND 0x0F)) t;
          t2 = outb ATA_REG_ERROR 0 t1;
          t3 = outb ATA_REG_SECCOUNT (ucast sector_count) t2;
          t4 = outb ATA_REG_LBA0 (ucast (lba AND 0xFF)) t3;
          t5 = outb ATA_REG_LBA1 (ucast (drop_bit 8 lba AND 0xFF)) t4;
          t6 = outb ATA_REG_LBA2 (ucast (drop_bit 16 lba AND 0xFF)) t5
      in outb ATA_REG_COMMAND cmd t6)"

text \<open>The counter \<open>sector\<close> has 8 bits and wraps.\<close>

partial_function (option) read_sector_loop ::
    "hardware \<Rightarrow> u32 \<Rightarrow> u8 \<Rightarrow> u8 list \<Rightarrow> trace \<Rightarrow> (u8 list \<times> trace) res option" where
  "read_sector_loop hw sector_count sector buffer t =
     (if ucast sector < sector_count then
        Option.bind (ata_wait_data hw t) (\<lambda>t1.
          if unat sector * SECTOR_BYTES + SECTOR_BYTES \<le> length buffer then
            read_sector_loop hw sector_count (sector + 1)
              (overlay (unat sector * SECTOR_BYTES) (fst (rep_insw hw ATA_REG_DATA SECTOR_WORDS t1)) buffer)
              (snd (rep_insw hw ATA_REG_DATA SECTOR_WORDS t1))
          else Some (Inl Out_of_bounds))
      else Some (Inr (buffer, t)))"

definition ata_read_sectors :: "hardware \<Rightarrow> u32 \<Rightarrow> u32 \<Rightarrow> u8 list \<Rightarrow> trace \<Rightarrow> (u8 list \<times> trace) res option" where
  "ata_read_sectors hw lba sector_count buffer t =
     Option.bind (ata_wait_ready hw t) (\<lambda>t1.
     Option.bind (ata_wait_ready hw (task_file lba sector_count ATA_CMD_READ_SECTORS t1)) (\<lambda>t2.
       read_sector_loop hw sector_count 0 buffer t2))"

function sector_out :: "u8 list \<Rightarrow> nat \<Rightarrow> nat \<Rightarrow> trace \<Rightarrow> trace res" where
  "sector_out buffer sector sw t =
     (if sw < SECTOR_WORDS then
        obind (rd buffer (sector * SECTOR_BYTES + sw * 2 + 1)) (\<lambda>hi.
        obind (rd buffer (sector * SECTOR_BYTES + sw * 2)) (\<lambda>lo.
          sector_out buffer sector (sw + 1) (outsw ATA_REG_DATA (push_bit 8 (ucast hi) OR ucast lo) t)))
      else Inr t)"
  by pat_completeness auto
termination
  by (relation "measure (\<lambda>(b, s, sw, t). SECTOR_WORDS - sw)") auto

declare sector_out.simps [simp del]

partial_function (option) write_sector_loop :: "hardware \<Rightarrow> u32 \<Rightarrow> u8 \<Rightarrow> u8 list \<Rightarrow> trace \<Rightarrow> trace res option" where
  "write_sector_loop hw sector_count sector buffer t =
     (if ucast sector < sector_count then
        Option.bind (ata_wait_data hw t) (\<lambda>t1.
          case sector_out buffer (unat sector) 0 t1 of
            Inl e \<Rightarrow> Some (Inl e)
          | Inr t2 \<Rightarrow> write_sector_loop hw sector_count (sector + 1) buffer t2)
      else Some (Inr t))"

definition ata_write_sectors :: "hardware \<Rightarrow> u32 \<Rightarrow> u32 \<Rightarrow> u8 list \<Rightarrow> trace \<Rightarrow> trace res option" where
  "ata_write_sectors hw lba sector_count buffer t =
     Option.bind (ata_wait_ready hw t) (\<lambda>t1.
     Option.bind (write_sector_loop hw sector_count 0 buffer (task_file lba sector_count ATA_CMD_WRITE_SECTORS t1)) (\<lambda>r.
       case r of Inl e \<Rightarrow> Some (Inl e) | Inr t2 \<Rightarrow> map_option Inr (ata_cache_flush hw t2)))"

definition ata_select_drive :: "bool \<Rightarrow> trace \<Rightarrow> trace" where
  "ata_select_drive is_master t = outb ATA_REG_DRIVE_SELECT (if is_master then 0xA0 else 0xB0) t"

definition ata_identify :: "trace \<Rightarrow> trace" where
  "ata_identify t =
     (let t1 = outb ATA_REG_SECCOUNT 0 (ata_select_drive True t); t2 = outb ATA_REG_LBA0 0 t1;
          t3 = outb ATA_REG_LBA1 0 t2; t4 = outb ATA_REG_LBA2 0 t3
      in outb ATA_REG_COMMAND ATA_CMD_IDENTIFY t4)"

definition ata_wait :: "hardware \<Rightarrow> trace \<Rightarrow> trace option" where
  "ata_wait hw t = map_option snd (poll hw (\<lambda>status. status AND 0x80 = 0) ATA_REG_STATUS t)"

fun ata_read_buffer :: "hardware \<Rightarrow> nat \<Rightarrow> trace \<Rightarrow> u16 list \<times> trace" where
  "ata_read_buffer hw 0 t = ([], t)"
| "ata_read_buffer hw (Suc n) t =
     (let (w, t1) = inw hw ATA_REG_DATA t; (ws, t2) = ata_read_buffer hw n t1 in (w # ws, t2))"

definition ata_get_disk_size :: "hardware \<Rightarrow> trace \<Rightarrow> (u64 \<times> trace) option" where
  "ata_get_disk_size hw t =
     map_option (\<lambda>t1.
       let (ata_buffer, t2) = ata_read_buffer hw 256 t1;
           total_sectors = (push_bit 16 (ucast (ata_buffer ! 61)) OR ucast (ata_buffer ! 60) :: u32)
       in (ucast total_sectors * 512, t2))
     (ata_wait hw (ata_identify t))"

definition ata_read_blocks :: "hardware \<Rightarrow> u32 \<Rightarrow> u8 list \<Rightarrow> u32 \<Rightarrow> trace \<Rightarrow> (u8 list \<times> trace) res option" where
  "ata_read_blocks hw block_num buffer count t =
     ata_read_sectors hw (block_num * SECTORS_PER_BLOCK) (SECTORS_PER_BLOCK * count) buffer t"

definition ata_write_blocks :: "hardware \<Rightarrow> u32 \<Rightarrow> u8 list \<Rightarrow> u32 \<Rightarrow> trace \<Rightarrow> trace res option" where
  "ata_write_blocks hw block_num buffer count t =
     ata_write_sectors hw (block_num * SECTORS_PER_BLOCK) (SECTORS_PER_BLOCK * count) buffer t"

section \<open>The protocol of the drive\<close>

text \<open>A transfer under way holds the next word of the disk and the number of words left; \<open>ready\<close> says that the status register
  has offered the current sector.\<close>

datatype transfer = Idle | Reading nat nat | Writing nat nat

record drive_state =
  d_select :: u8
  d_count :: u8
  d_lba0 :: u8
  d_lba1 :: u8
  d_lba2 :: u8
  transfer :: transfer
  ready :: bool
  disk_words :: "nat \<Rightarrow> u16"

definition selected :: "drive_state \<Rightarrow> u32" where
  "selected d = ucast (d_lba0 d) OR push_bit 8 (ucast (d_lba1 d)) OR push_bit 16 (ucast (d_lba2 d)) OR push_bit 24 (ucast (d_select d AND 0x0F))"

definition requested :: "drive_state \<Rightarrow> nat" where
  "requested d = (if d_count d = 0 then 256 else unat (d_count d))"

definition moving :: "(nat \<Rightarrow> nat \<Rightarrow> transfer) \<Rightarrow> nat \<Rightarrow> nat \<Rightarrow> drive_state \<Rightarrow> drive_state" where
  "moving dir a n d = d\<lparr>transfer := (if n = 0 then Idle else dir (Suc a) n), ready := n mod 256 \<noteq> 0\<rparr>"

fun drive_step :: "io_event \<Rightarrow> drive_state \<Rightarrow> drive_state" where
  "drive_step (Outb p v) d =
     (if p = 0x1F6 then d\<lparr>d_select := v\<rparr> else if p = 0x1F2 then d\<lparr>d_count := v\<rparr> else if p = 0x1F3 then d\<lparr>d_lba0 := v\<rparr>
      else if p = 0x1F4 then d\<lparr>d_lba1 := v\<rparr> else if p = 0x1F5 then d\<lparr>d_lba2 := v\<rparr>
      else if p = 0x1F7 \<and> v = 0x20 then d\<lparr>transfer := Reading (256 * unat (selected d)) (256 * requested d), ready := False\<rparr>
      else if p = 0x1F7 \<and> v = 0x30 then d\<lparr>transfer := Writing (256 * unat (selected d)) (256 * requested d), ready := False\<rparr>
      else d)"
| "drive_step (Inb p v) d = (if p = 0x1F7 \<and> v AND 0x08 \<noteq> 0 then d\<lparr>ready := True\<rparr> else d)"
| "drive_step (Inw p v) d =
     (case transfer d of Reading a (Suc n) \<Rightarrow> if p = 0x1F0 \<and> ready d then moving Reading a n d else d | _ \<Rightarrow> d)"
| "drive_step (Outw p v) d =
     (case transfer d of Writing a (Suc n) \<Rightarrow>
        if p = 0x1F0 \<and> ready d then (moving Writing a n d)\<lparr>disk_words := (disk_words d)(a := v)\<rparr> else d | _ \<Rightarrow> d)"

fun drive :: "drive_state \<Rightarrow> trace \<Rightarrow> drive_state" where
  "drive d0 [] = d0"
| "drive d0 (e # t) = drive_step e (drive d0 t)"

definition waiting :: "drive_state \<Rightarrow> u8 \<Rightarrow> bool" where
  "waiting d s \<longleftrightarrow> s AND 0x80 \<noteq> 0 \<or> transfer d \<noteq> Idle \<and> s AND 0x08 = 0"

definition compliant :: "hardware \<Rightarrow> drive_state \<Rightarrow> bool" where
  "compliant hw d0 \<longleftrightarrow>
     (\<exists>f :: trace \<Rightarrow> nat. \<forall>t. waiting (drive d0 t) (hw_inb hw t 0x1F7) \<longrightarrow> f (Inb 0x1F7 (hw_inb hw t 0x1F7) # t) < f t) \<and>
     (\<forall>t a n. transfer (drive d0 t) = Reading a (Suc n) \<and> ready (drive d0 t) \<longrightarrow> hw_inw hw t 0x1F0 = disk_words (drive d0 t) a)"

section \<open>Waiting\<close>

text \<open>Reading the status register changes nothing but \<open>ready\<close>.\<close>

lemma drive_status_reads: "\<exists>r. drive d0 (map (Inb 0x1F7) us @ t) = (drive d0 t)\<lparr>ready := r\<rparr>"
proof (induction us)
  case Nil
  show ?case by (intro exI [of _ "ready (drive d0 t)"]) simp
next
  case (Cons u us)
  then obtain r where "drive d0 (map (Inb 0x1F7) us @ t) = (drive d0 t)\<lparr>ready := r\<rparr>" by blast
  then show ?case by (cases "u AND 0x08 = 0") auto
qed

lemma poll_compliant:
  assumes c: "compliant hw d0" and r: "\<And>t' s. transfer (drive d0 t') = transfer (drive d0 t) \<Longrightarrow> \<not> rdy s \<Longrightarrow> waiting (drive d0 t') s"
  shows "\<exists>v t'. poll hw rdy 0x1F7 t = Some (v, t')"
proof -
  obtain f :: "trace \<Rightarrow> nat" where
    f: "\<And>t. waiting (drive d0 t) (hw_inb hw t 0x1F7) \<Longrightarrow> f (Inb 0x1F7 (hw_inb hw t 0x1F7) # t) < f t"
    using c unfolding compliant_def by blast
  show ?thesis
    by (rule poll_returns [where I = "\<lambda>t'. transfer (drive d0 t') = transfer (drive d0 t)" and f = f]) (auto intro: f r)
qed

lemma ata_wait_ready_ok:
  assumes "compliant hw d0"
  shows "\<exists>t' r. ata_wait_ready hw t = Some t' \<and> drive d0 t' = (drive d0 t)\<lparr>ready := r\<rparr>"
proof -
  obtain v t' where p: "poll hw (\<lambda>s. s AND 0x80 = 0) 0x1F7 t = Some (v, t')"
    using poll_compliant [OF assms, of t "\<lambda>s. s AND 0x80 = 0"] by (auto simp: waiting_def)
  then obtain us where "t' = map (Inb 0x1F7) (v # us) @ t" using poll_trace by fastforce
  with p show ?thesis using drive_status_reads [of d0 "v # us" t] by (simp add: ata_wait_ready_def ata_consts)
qed

lemma ata_wait_data_ok:
  assumes "compliant hw d0" and "transfer (drive d0 t) \<noteq> Idle"
  shows "\<exists>t'. ata_wait_data hw t = Some t' \<and> drive d0 t' = (drive d0 t)\<lparr>ready := True\<rparr>"
proof -
  obtain v t' where p: "poll hw (\<lambda>s. s AND 0x08 \<noteq> 0) 0x1F7 t = Some (v, t')"
    using poll_compliant [OF assms(1), of t "\<lambda>s. s AND 0x08 \<noteq> 0"] assms(2) by (auto simp: waiting_def)
  then obtain us where "t' = Inb 0x1F7 v # map (Inb 0x1F7) us @ t" "v AND 0x08 \<noteq> 0" using poll_trace by fastforce
  with p show ?thesis using drive_status_reads [of d0 us t] by (auto simp: ata_wait_data_def ata_consts)
qed

section \<open>Starting a transfer\<close>

lemma lba_bytes:
  "selected (d\<lparr>d_select := 0xE0 OR ucast (drop_bit 24 lba AND 0x0F), d_count := n, d_lba0 := ucast (lba AND 0xFF),
      d_lba1 := ucast (drop_bit 8 lba AND 0xFF), d_lba2 := ucast (drop_bit 16 lba AND 0xFF)\<rparr>) = take_bit 28 lba"
proof -
  have m: "(0x0F :: u32) = mask 4" "(0xFF :: u32) = mask 8" "(0x0F :: u8) = mask 4" "(0xE0 :: u8) = push_bit 5 (mask 3)"
    by (simp_all add: mask_eq_exp_minus_1)
  show ?thesis
  proof (rule bit_word_eqI)
    fix i assume "i < LENGTH(32)"
    then have i: "i < 32" by simp
    show "bit (selected (d\<lparr>d_select := 0xE0 OR ucast (drop_bit 24 lba AND 0x0F), d_count := n, d_lba0 := ucast (lba AND 0xFF),
        d_lba1 := ucast (drop_bit 8 lba AND 0xFF), d_lba2 := ucast (drop_bit 16 lba AND 0xFF)\<rparr>)) i = bit (take_bit 28 lba) i"
      unfolding selected_def m using i by (cases "i < 8"; cases "i < 16"; cases "i < 24"; cases "i < 28") (auto simp: bit_simps)
  qed
qed

lemma task_file_starts:
  assumes "0 < n" and "n < 256"
  shows "\<exists>d. drive d0 (task_file lba (of_nat n) 0x20 t) = d\<lparr>transfer := Reading (256 * unat (take_bit 28 lba)) (256 * n), ready := False\<rparr> \<and>
      disk_words d = disk_words (drive d0 t)" (is ?R)
    and "\<exists>d. drive d0 (task_file lba (of_nat n) 0x30 t) = d\<lparr>transfer := Writing (256 * unat (take_bit 28 lba)) (256 * n), ready := False\<rparr> \<and>
      disk_words d = disk_words (drive d0 t)" (is ?W)
proof -
  let ?d = "(drive d0 t)\<lparr>d_select := 0xE0 OR ucast (drop_bit 24 lba AND 0x0F), d_count := of_nat n, d_lba0 := ucast (lba AND 0xFF),
      d_lba1 := ucast (drop_bit 8 lba AND 0xFF), d_lba2 := ucast (drop_bit 16 lba AND 0xFF)\<rparr>"
  have u: "unat (of_nat n :: u8) = n" using assms(2) by (simp add: unat_of_nat)
  then have "(of_nat n :: u8) \<noteq> 0" using assms(1) by (metis less_irrefl unat_0)
  with u have rq: "requested ?d = n" by (simp add: requested_def)
  have sl: "selected ?d = take_bit 28 lba" by (rule lba_bytes)
  have "ucast (of_nat n :: u32) = (of_nat n :: u8)" by (simp add: unsigned_of_nat word_of_nat_eq_iff)
  then have rw: "drive d0 (task_file lba (of_nat n) c t) = drive_step (Outb 0x1F7 c) ?d" for c
    by (simp add: task_file_def outb_def ata_consts Let_def)
  show ?R unfolding rw by (rule exI [of _ ?d]) (simp add: rq sl)
  show ?W unfolding rw by (rule exI [of _ ?d]) (simp add: rq sl)
qed

section \<open>Sectors\<close>

text \<open>The bytes of consecutive words of the disk, low byte first.\<close>

definition word_bytes :: "u16 \<Rightarrow> u8 list" where
  "word_bytes w = [ucast w, ucast (drop_bit 8 w)]"

definition disk_bytes :: "(nat \<Rightarrow> u16) \<Rightarrow> nat \<Rightarrow> nat \<Rightarrow> u8 list" where
  "disk_bytes ws a n = concat (map (\<lambda>i. word_bytes (ws (a + i))) [0 ..< n])"

lemma disk_bytes_add: "disk_bytes ws a (m + n) = disk_bytes ws a m @ disk_bytes ws (a + m) n"
proof -
  have "[0 ..< m + n] = [0 ..< m] @ map (\<lambda>i. i + m) [0 ..< n]" 
    using upt_add_eq_append [of 0 m n] map_add_upt [of m n] by (simp only: add.commute [of m n] zero_le add_0)
  then show ?thesis unfolding disk_bytes_def by (simp only: map_append concat_append map_map comp_def add.commute add.left_commute)
qed

lemma disk_bytes_Suc: "disk_bytes ws a (Suc n) = word_bytes (ws a) @ disk_bytes ws (Suc a) n"
proof -
  have "disk_bytes ws a 1 = word_bytes (ws a)" by (simp add: disk_bytes_def)
  then show ?thesis using disk_bytes_add [of ws a 1 n] by simp
qed

lemma disk_bytes_0 [simp]: "disk_bytes ws a 0 = []"
  by (simp add: disk_bytes_def)

lemma length_disk_bytes [simp]: "length (disk_bytes ws a n) = 2 * n"
  by (induction n arbitrary: a) (auto simp: disk_bytes_Suc word_bytes_def)

text \<open>The state a transfer leaves when a run of words of one sector is through.\<close>

definition passed :: "(nat \<Rightarrow> nat \<Rightarrow> transfer) \<Rightarrow> nat \<Rightarrow> nat \<Rightarrow> drive_state \<Rightarrow> drive_state" where
  "passed dir a m d = d\<lparr>transfer := (if m = 0 then Idle else dir a m), ready := False\<rparr>"

lemma inside_sector: "m mod 256 = 0 \<Longrightarrow> k < 255 \<Longrightarrow> (m + Suc k) mod 256 \<noteq> (0 :: nat)"
proof -
  assume "m mod 256 = 0" and "k < 255"
  then have "(m + Suc k) mod 256 = Suc k mod 256" by (metis add_0 mod_add_left_eq)
  with \<open>k < 255\<close> show ?thesis by simp
qed

lemma rep_insw_words:
  assumes "compliant hw d0" and "transfer (drive d0 t) = Reading a (m + Suc k)" and "ready (drive d0 t)" and "m mod 256 = 0" and "k < 256"
  shows "\<exists>t'. rep_insw hw 0x1F0 (Suc k) t = (disk_bytes (disk_words (drive d0 t)) a (Suc k), t') \<and>
    drive d0 t' = passed Reading (a + Suc k) m (drive d0 t)"
  using assms(2-5)
proof (induction k arbitrary: t a)
  case 0
  have "hw_inw hw t 0x1F0 = disk_words (drive d0 t) a" using assms(1) 0 by (simp add: compliant_def)
  then show ?case using 0 by (simp add: inw_def Let_def disk_bytes_Suc word_bytes_def passed_def moving_def)
next
  case (Suc k)
  let ?w = "hw_inw hw t 0x1F0" and ?d = "drive d0 t"
  have w: "?w = disk_words ?d a" using assms(1) Suc.prems by (simp add: compliant_def)
  have "(m + Suc k) mod 256 \<noteq> 0" using Suc.prems(3,4) by (intro inside_sector) simp_all
  then have d: "drive d0 (Inw 0x1F0 ?w # t) = ?d\<lparr>transfer := Reading (Suc a) (m + Suc k), ready := True\<rparr>"
    using Suc.prems by (simp add: moving_def)
  obtain t' where t': "rep_insw hw 0x1F0 (Suc k) (Inw 0x1F0 ?w # t) = (disk_bytes (disk_words ?d) (Suc a) (Suc k), t')"
      "drive d0 t' = passed Reading (Suc a + Suc k) m (drive d0 (Inw 0x1F0 ?w # t))"
    using Suc.IH [of "Inw 0x1F0 ?w # t" "Suc a"] Suc.prems unfolding d by auto
  have "rep_insw hw 0x1F0 (Suc (Suc k)) t = (disk_bytes (disk_words ?d) a (Suc (Suc k)), t')"
    using t'(1) w by (simp add: rep_insw.simps(2) [of hw _ "Suc k"] inw_def Let_def disk_bytes_Suc [of _ a] word_bytes_def del: rep_insw.simps(2))
  moreover have "drive d0 t' = passed Reading (a + Suc (Suc k)) m ?d" using t'(2) unfolding d by (simp add: passed_def)
  ultimately show ?case by blast
qed

lemma read_sector:
  assumes "compliant hw d0" and "transfer (drive d0 t) = Reading a (256 * Suc j)"
  shows "\<exists>t1 t2. ata_wait_data hw t = Some t1 \<and> rep_insw hw 0x1F0 256 t1 = (disk_bytes (disk_words (drive d0 t)) a 256, t2) \<and>
    drive d0 t2 = passed Reading (a + 256) (256 * j) (drive d0 t)"
proof -
  obtain t1 where t1: "ata_wait_data hw t = Some t1" "drive d0 t1 = (drive d0 t)\<lparr>ready := True\<rparr>"
    using ata_wait_data_ok [OF assms(1), of t] assms(2) by auto
  show ?thesis
    using rep_insw_words [OF assms(1), of t1 a "256 * j" 255] assms(2) t1 by (auto simp: passed_def)
qed

lemma succ_u8: "unat (s :: u8) < 255 \<Longrightarrow> unat (s + 1) = Suc (unat s)"
  by (simp add: unat_word_ariths)

lemma unat_sector: "unat (s :: u8) < 256" "unat (ucast s :: u32) = unat s"
proof -
  show s: "unat s < 256" using unsigned_less [of s] by simp
  then have "take_bit 32 (unat s) = unat s" by (simp add: take_bit_nat_eq_self)
  then show "unat (ucast s :: u32) = unat s" by (simp add: unsigned_ucast_eq)
qed

lemma sector_less: "n < 256 \<Longrightarrow> ucast (s :: u8) < (of_nat n :: u32) \<longleftrightarrow> unat s < n"
  by (simp add: word_less_nat_alt unat_of_nat unat_sector)

lemma read_sector_loop_ok:
  assumes "compliant hw d0" and "n < 256" and "n * 512 \<le> length buffer" and "n = unat s + j"
    and "transfer (drive d0 t) = (if j = 0 then Idle else Reading a (256 * j))"
  shows "\<exists>t' r. read_sector_loop hw (of_nat n) s buffer t =
      Some (Inr (overlay (unat s * 512) (disk_bytes (disk_words (drive d0 t)) a (256 * j)) buffer, t')) \<and>
    drive d0 t' = (drive d0 t)\<lparr>transfer := Idle, ready := r\<rparr>"
  using assms(3-5)
proof (induction j arbitrary: s a t buffer)
  case 0
  have "read_sector_loop hw (of_nat n) s buffer t = Some (Inr (buffer, t))"
    using 0 sector_less [OF assms(2), of s] by (subst read_sector_loop.simps) simp
  then show ?case using 0 by (intro exI [of _ t] exI [of _ "ready (drive d0 t)"]) simp
next
  case (Suc j)
  let ?ws = "disk_words (drive d0 t)" and ?b = "overlay (unat s * 512) (disk_bytes (disk_words (drive d0 t)) a 256) buffer"
  have tr: "transfer (drive d0 t) = Reading a (256 * Suc j)" using Suc.prems(3) by simp
  obtain t1 t2 where t: "ata_wait_data hw t = Some t1" "rep_insw hw 0x1F0 256 t1 = (disk_bytes ?ws a 256, t2)"
      "drive d0 t2 = passed Reading (a + 256) (256 * j) (drive d0 t)"
    using read_sector [OF assms(1) tr] by blast
  have s: "unat (s + 1) = Suc (unat s)" using Suc.prems(2) assms(2) by (intro succ_u8) simp
  have room: "unat s * 512 + 512 \<le> length buffer" using Suc.prems(1,2) by simp
  have step: "read_sector_loop hw (of_nat n) s buffer t = read_sector_loop hw (of_nat n) (s + 1) ?b t2"
    using Suc.prems(2) sector_less [OF assms(2), of s] t(1,2) room by (subst read_sector_loop.simps) (simp add: ata_consts)
  have b: "overlay (unat (s + 1) * 512) (disk_bytes ?ws (a + 256) (256 * j)) ?b = overlay (unat s * 512) (disk_bytes ?ws a (256 * Suc j)) buffer"
    using room disk_bytes_add [of ?ws a 256 "256 * j"] unfolding s by (simp add: overlay_def ac_simps)
  have "n * 512 \<le> length ?b" using Suc.prems(1) room by simp
  from Suc.IH [OF this, of "s + 1" t2 "a + 256"] Suc.prems(2)
  obtain t' r where "read_sector_loop hw (of_nat n) (s + 1) ?b t2 = Some (Inr (overlay (unat (s + 1) * 512) (disk_bytes ?ws (a + 256) (256 * j)) ?b, t'))"
      "drive d0 t' = (drive d0 t2)\<lparr>transfer := Idle, ready := r\<rparr>"
    unfolding s t(3) by (auto simp: passed_def)
  then show ?case unfolding step b t(3) by (auto simp: passed_def)
qed

lemma ata_read_sectors_ok:
  assumes "compliant hw d0" and "0 < n" and "n < 256" and "n * 512 \<le> length buffer"
  shows "\<exists>t'. ata_read_sectors hw lba (of_nat n) buffer t =
      Some (Inr (overlay 0 (disk_bytes (disk_words (drive d0 t)) (256 * unat (take_bit 28 lba)) (256 * n)) buffer, t')) \<and>
    transfer (drive d0 t') = Idle \<and> disk_words (drive d0 t') = disk_words (drive d0 t)"
proof -
  obtain t1 r1 where t1: "ata_wait_ready hw t = Some t1" "drive d0 t1 = (drive d0 t)\<lparr>ready := r1\<rparr>" using ata_wait_ready_ok [OF assms(1)] by blast
  let ?t2 = "task_file lba (of_nat n) 0x20 t1"
  obtain d where d: "drive d0 ?t2 = d\<lparr>transfer := Reading (256 * unat (take_bit 28 lba)) (256 * n), ready := False\<rparr>" "disk_words d = disk_words (drive d0 t)"
    using task_file_starts(1) [OF assms(2,3), of d0 lba t1] t1(2) by auto
  obtain t3 r3 where t3: "ata_wait_ready hw ?t2 = Some t3" "drive d0 t3 = (drive d0 ?t2)\<lparr>ready := r3\<rparr>" using ata_wait_ready_ok [OF assms(1)] by blast
  obtain t' r where "read_sector_loop hw (of_nat n) 0 buffer t3 =
      Some (Inr (overlay 0 (disk_bytes (disk_words (drive d0 t)) (256 * unat (take_bit 28 lba)) (256 * n)) buffer, t'))"
      "drive d0 t' = (drive d0 t3)\<lparr>transfer := Idle, ready := r\<rparr>"
    using read_sector_loop_ok [OF assms(1,3,4), of 0 n t3 "256 * unat (take_bit 28 lba)"] assms(2) t3(2) d by auto
  then show ?thesis using t1(1) t3 d by (simp add: ata_read_sectors_def ata_consts)
qed

subsection \<open>Writing\<close>

definition pack :: "u8 \<Rightarrow> u8 \<Rightarrow> u16" where
  "pack lo hi = push_bit 8 (ucast hi) OR ucast lo"

lemma word_bytes_pack [simp]: "word_bytes (pack lo hi) = [lo, hi]"
proof -
  have "ucast (pack lo hi) = lo" unfolding pack_def by (rule bit_word_eqI) (auto simp: bit_simps)
  moreover have "ucast (drop_bit 8 (pack lo hi)) = hi" unfolding pack_def by (rule bit_word_eqI) (auto simp: bit_simps dest: bit_imp_le_length)
  ultimately show ?thesis by (simp add: word_bytes_def)
qed

text \<open>Words of the disk replaced by the bytes of a buffer.\<close>

definition store_words :: "(nat \<Rightarrow> u16) \<Rightarrow> nat \<Rightarrow> u8 list \<Rightarrow> nat \<Rightarrow> nat \<Rightarrow> u16" where
  "store_words ws a bs n = (\<lambda>x. if a \<le> x \<and> x < a + n then pack (bs ! (2 * (x - a))) (bs ! (2 * (x - a) + 1)) else ws x)"

lemma store_words_add:
  "m * 2 \<le> length bs \<Longrightarrow> store_words (store_words ws a bs m) (a + m) (drop (2 * m) bs) n = store_words ws a bs (m + n)"
  by (rule ext) (auto simp: store_words_def algebra_simps)

lemma store_words_0 [simp]: "store_words ws a bs 0 = ws"
  by (rule ext) (auto simp: store_words_def)

lemma store_words_1: "store_words ws a bs (Suc 0) = ws(a := pack (bs ! 0) (bs ! 1))"
  by (rule ext) (auto simp: store_words_def)

lemma disk_bytes_cong: "(\<And>i. i < n \<Longrightarrow> ws (a + i) = ws' (a + i)) \<Longrightarrow> disk_bytes ws a n = disk_bytes ws' a n"
  unfolding disk_bytes_def by (rule arg_cong [where f = concat]) (simp add: list_eq_iff_nth_eq)

lemma disk_bytes_stored: "2 * n \<le> length bs \<Longrightarrow> disk_bytes (store_words ws a bs n) a n = take (2 * n) bs"
proof (induction n arbitrary: a bs ws)
  case (Suc n)
  obtain x y cs where bs: "bs = x # y # cs" using Suc.prems by (metis Suc_le_length_iff mult_Suc_right add_2_eq_Suc)
  have "store_words ws a bs (Suc n) a = pack x y" by (simp add: store_words_def bs)
  moreover have "disk_bytes (store_words ws a bs (Suc n)) (Suc a) n = disk_bytes (store_words ws (Suc a) cs n) (Suc a) n"
    by (rule disk_bytes_cong) (simp add: store_words_def bs)
  ultimately show ?case using Suc.IH [of cs ws "Suc a"] Suc.prems by (simp add: disk_bytes_Suc bs)
qed simp

lemma disk_bytes_elsewhere: "b + m \<le> a \<or> a + n \<le> b \<Longrightarrow> disk_bytes (store_words ws a bs n) b m = disk_bytes ws b m"
  by (rule disk_bytes_cong) (auto simp: store_words_def)

lemma sector_out_words:
  assumes "sector * 512 + 512 \<le> length buffer" and "m mod 256 = 0"
    and "transfer (drive d0 t) = Writing a (m + Suc k)" and "ready (drive d0 t)" and "k + sw = 255"
  shows "\<exists>t'. sector_out buffer sector sw t = Inr t' \<and>
    drive d0 t' = passed Writing (a + Suc k) m
      ((drive d0 t)\<lparr>disk_words := store_words (disk_words (drive d0 t)) a (drop (sector * 512 + 2 * sw) buffer) (Suc k)\<rparr>)"
  using assms(3-5)
proof (induction k arbitrary: t a sw)
  case 0
  have "sector_out buffer sector sw t = Inr (Outw 0x1F0 (pack (buffer ! (sector * 512 + 2 * sw)) (buffer ! Suc (sector * 512 + 2 * sw))) # t)"
    using 0 assms(1) by (subst sector_out.simps, subst sector_out.simps) (simp add: ata_consts outsw_def pack_def mult.commute)
  then show ?case using 0 assms(1,2) by (simp add: passed_def moving_def store_words_1 fun_upd_def)
next
  case (Suc k)
  let ?bs = "drop (sector * 512 + 2 * sw) buffer" and ?d = "drive d0 t"
  let ?t = "Outw 0x1F0 (pack (?bs ! 0) (?bs ! 1)) # t"
  have "(m + Suc k) mod 256 \<noteq> 0" using assms(2) Suc.prems(3) by (intro inside_sector) simp_all
  then have d: "drive d0 ?t = ?d\<lparr>transfer := Writing (Suc a) (m + Suc k), ready := True, disk_words := store_words (disk_words ?d) a ?bs (Suc 0)\<rparr>"
    using Suc.prems by (simp add: moving_def store_words_1)
  have step: "sector_out buffer sector sw t = sector_out buffer sector (sw + 1) ?t"
    using Suc.prems(3) assms(1) by (subst sector_out.simps) (simp add: ata_consts outsw_def pack_def mult.commute)
  obtain t' where t': "sector_out buffer sector (sw + 1) ?t = Inr t'" "drive d0 t' = passed Writing (Suc a + Suc k) m
      ((drive d0 ?t)\<lparr>disk_words := store_words (disk_words (drive d0 ?t)) (Suc a) (drop (sector * 512 + 2 * (sw + 1)) buffer) (Suc k)\<rparr>)"
    using Suc.IH [of ?t "Suc a" "sw + 1"] Suc.prems unfolding d by auto
  have w: "store_words (store_words (disk_words ?d) a ?bs (Suc 0)) (Suc a) (drop (sector * 512 + 2 * (sw + 1)) buffer) (Suc k) =
      store_words (disk_words ?d) a ?bs (Suc (Suc k))"
    using store_words_add [of "Suc 0" ?bs "disk_words ?d" a "Suc k"] assms(1) Suc.prems(3) by (simp add: algebra_simps)
  have "drive d0 t' = passed Writing (a + Suc (Suc k)) m (?d\<lparr>disk_words := store_words (disk_words ?d) a ?bs (Suc (Suc k))\<rparr>)"
    using t'(2) unfolding d passed_def by (simp add: w [simplified])
  with step t'(1) show ?case by (intro exI [of _ t'] conjI) (simp only:)
qed

lemma write_sector_loop_ok:
  assumes "compliant hw d0" and "n < 256" and "n * 512 \<le> length buffer" and "n = unat s + j"
    and "transfer (drive d0 t) = (if j = 0 then Idle else Writing a (256 * j))"
  shows "\<exists>t'. write_sector_loop hw (of_nat n) s buffer t = Some (Inr t') \<and> transfer (drive d0 t') = Idle \<and>
    disk_words (drive d0 t') = store_words (disk_words (drive d0 t)) a (drop (unat s * 512) buffer) (256 * j)"
  using assms(4,5)
proof (induction j arbitrary: s a t)
  case 0
  then show ?case using sector_less [OF assms(2), of s] by (subst write_sector_loop.simps) simp
next
  case (Suc j)
  let ?ws = "disk_words (drive d0 t)" and ?bs = "drop (unat s * 512) buffer"
  obtain t1 where t1: "ata_wait_data hw t = Some t1" "drive d0 t1 = (drive d0 t)\<lparr>ready := True\<rparr>"
    using ata_wait_data_ok [OF assms(1), of t] Suc.prems(2) by auto
  have s: "unat (s + 1) = Suc (unat s)" using Suc.prems(1) assms(2) by (intro succ_u8) simp
  have room: "unat s * 512 + 512 \<le> length buffer" using Suc.prems(1) assms(3) by simp
  obtain t2 where t2: "sector_out buffer (unat s) 0 t1 = Inr t2"
      "drive d0 t2 = passed Writing (a + 256) (256 * j) ((drive d0 t1)\<lparr>disk_words := store_words ?ws a ?bs 256\<rparr>)"
    using sector_out_words [OF room, of "256 * j" d0 t1 a 255 0] Suc.prems(2) t1(2) by auto
  have step: "write_sector_loop hw (of_nat n) s buffer t = write_sector_loop hw (of_nat n) (s + 1) buffer t2"
    using Suc.prems(1) sector_less [OF assms(2), of s] t1(1) t2(1) by (subst write_sector_loop.simps) simp
  have bs: "drop (unat (s + 1) * 512) buffer = drop (2 * 256) ?bs" unfolding s by (simp add: add.commute)
  obtain t' where "write_sector_loop hw (of_nat n) (s + 1) buffer t2 = Some (Inr t')" "transfer (drive d0 t') = Idle"
      "disk_words (drive d0 t') = store_words (disk_words (drive d0 t2)) (a + 256) (drop (unat (s + 1) * 512) buffer) (256 * j)"
    using Suc.IH [of "s + 1" t2 "a + 256"] Suc.prems(1) unfolding s t2(2) by (auto simp: passed_def)
  then show ?case
    using step t2(2) store_words_add [of 256 ?bs ?ws a "256 * j"] room unfolding bs by (simp add: passed_def)
qed

lemma ata_write_sectors_ok:
  assumes "compliant hw d0" and "0 < n" and "n < 256" and "n * 512 \<le> length buffer"
  shows "\<exists>t'. ata_write_sectors hw lba (of_nat n) buffer t = Some (Inr t') \<and> transfer (drive d0 t') = Idle \<and>
    disk_words (drive d0 t') = store_words (disk_words (drive d0 t)) (256 * unat (take_bit 28 lba)) buffer (256 * n)"
proof -
  obtain t1 r1 where t1: "ata_wait_ready hw t = Some t1" "drive d0 t1 = (drive d0 t)\<lparr>ready := r1\<rparr>" using ata_wait_ready_ok [OF assms(1)] by blast
  let ?t2 = "task_file lba (of_nat n) 0x30 t1"
  obtain d where d: "drive d0 ?t2 = d\<lparr>transfer := Writing (256 * unat (take_bit 28 lba)) (256 * n), ready := False\<rparr>" "disk_words d = disk_words (drive d0 t)"
    using task_file_starts(2) [OF assms(2,3), of d0 lba t1] t1(2) by auto
  obtain t3 where t3: "write_sector_loop hw (of_nat n) 0 buffer ?t2 = Some (Inr t3)" "transfer (drive d0 t3) = Idle"
      "disk_words (drive d0 t3) = store_words (disk_words (drive d0 t)) (256 * unat (take_bit 28 lba)) buffer (256 * n)"
    using write_sector_loop_ok [OF assms(1,3,4), of 0 n ?t2 "256 * unat (take_bit 28 lba)"] assms(2) d by auto
  obtain t4 r4 where t4: "ata_wait_ready hw t3 = Some t4" "drive d0 t4 = (drive d0 t3)\<lparr>ready := r4\<rparr>" using ata_wait_ready_ok [OF assms(1)] by blast
  obtain t5 r5 where t5: "ata_wait_ready hw (Outb 0x1F7 0xE7 # t4) = Some t5" "drive d0 t5 = (drive d0 (Outb 0x1F7 0xE7 # t4))\<lparr>ready := r5\<rparr>"
    using ata_wait_ready_ok [OF assms(1)] by blast
  show ?thesis
    using t1(1) t3 t4 t5 by (simp add: ata_write_sectors_def ata_cache_flush_def outb_def ata_consts)
qed

section \<open>Sector counts beyond the counter\<close>

lemma read_sector_loop_never:
  assumes "read_sector_loop hw n s buffer t = Some r" and "256 \<le> n"
  shows "\<exists>e. r = Inl e"
proof -
  have "256 \<le> n \<longrightarrow> (\<exists>e. r = Inl e)"
  proof (rule read_sector_loop.raw_induct [OF _ assms(1), of "\<lambda>hw n s b t r. 256 \<le> n \<longrightarrow> (\<exists>e. r = Inl e)"])
    fix f hw b t r and n :: u32 and s :: u8
    assume ih: "\<And>hw n s b t r. f hw n s b t = Some r \<Longrightarrow> 256 \<le> n \<longrightarrow> (\<exists>e. r = Inl e)"
      and r: "(if ucast (s :: u8) < n then Option.bind (ata_wait_data hw t) (\<lambda>t1.
          if unat s * SECTOR_BYTES + SECTOR_BYTES \<le> length b then f hw n (s + 1)
              (overlay (unat s * SECTOR_BYTES) (fst (rep_insw hw ATA_REG_DATA SECTOR_WORDS t1)) b) (snd (rep_insw hw ATA_REG_DATA SECTOR_WORDS t1))
          else Some (Inl Out_of_bounds)) else Some (Inr (b, t))) = Some r"
    show "256 \<le> n \<longrightarrow> (\<exists>e. r = Inl e)"
    proof
      assume n: "256 \<le> n"
      then have "ucast s < n" using unat_sector(1) [of s] by (simp add: word_less_nat_alt word_le_nat_alt unat_sector(2))
      then show "\<exists>e. r = Inl e" using r ih n by (auto simp: bind_eq_Some_conv split: if_splits)
    qed
  qed
  then show ?thesis using assms(2) by blast
qed

section \<open>Properties\<close>

text \<open>A drive that always offers its data at once.\<close>

definition prompt_drive :: "drive_state \<Rightarrow> hardware" where
  "prompt_drive d0 = \<lparr>hw_inb = \<lambda>t p. 0x08, hw_inw = \<lambda>t p. case transfer (drive d0 t) of Reading a n \<Rightarrow> disk_words (drive d0 t) a | _ \<Rightarrow> 0\<rparr>"

definition blank_disk :: drive_state where
  "blank_disk = \<lparr>d_select = 0, d_count = 0, d_lba0 = 0, d_lba1 = 0, d_lba2 = 0, transfer = Idle, ready = False, disk_words = \<lambda>_. 0\<rparr>"

lemma prompt_drive_compliant: "compliant (prompt_drive d0) d0"
  by (simp add: compliant_def prompt_drive_def waiting_def)

text \<open>C22: Sectors written are sectors read. On a drive that keeps the documented protocol, whatever it was doing before, writing 1 to 255
  sectors from any 32-bit sector number returns, reading them back returns, and the bytes read are exactly the bytes written; outside those
  sectors the disk is unchanged, and the rest of the reader's buffer too.\<close>

theorem sectors_roundtrip:
  assumes "compliant hw d0" and "0 < n" and "n < 256" and "n * 512 \<le> length src" and "n * 512 \<le> length dst"
  shows "\<exists>t1 t2. ata_write_sectors hw lba (of_nat n) src t = Some (Inr t1) \<and>
    ata_read_sectors hw lba (of_nat n) dst t1 = Some (Inr (take (n * 512) src @ drop (n * 512) dst, t2)) \<and>
    (\<forall>a k. a + k \<le> 256 * unat (take_bit 28 lba) \<or> 256 * (unat (take_bit 28 lba) + n) \<le> a \<longrightarrow>
       disk_bytes (disk_words (drive d0 t2)) a k = disk_bytes (disk_words (drive d0 t)) a k)"
proof -
  let ?a = "256 * unat (take_bit 28 lba)" and ?ws = "disk_words (drive d0 t)"
  obtain t1 where t1: "ata_write_sectors hw lba (of_nat n) src t = Some (Inr t1)" "disk_words (drive d0 t1) = store_words ?ws ?a src (256 * n)"
    using ata_write_sectors_ok [OF assms(1-4), of lba t] by blast
  obtain t2 where t2: "ata_read_sectors hw lba (of_nat n) dst t1 = Some (Inr (overlay 0 (disk_bytes (disk_words (drive d0 t1)) ?a (256 * n)) dst, t2))"
      "disk_words (drive d0 t2) = disk_words (drive d0 t1)"
    using ata_read_sectors_ok [OF assms(1-3,5), of lba t1] by blast
  have "overlay 0 (disk_bytes (disk_words (drive d0 t1)) ?a (256 * n)) dst = take (n * 512) src @ drop (n * 512) dst"
    using assms(4) disk_bytes_stored [of "256 * n" src ?ws ?a] unfolding t1(2) by (simp add: overlay_def mult.commute)
  moreover have "disk_bytes (disk_words (drive d0 t2)) a k = disk_bytes ?ws a k" if "a + k \<le> ?a \<or> 256 * (unat (take_bit 28 lba) + n) \<le> a" for a k
    unfolding t2(2) t1(2) by (rule disk_bytes_elsewhere) (use that in \<open>simp add: algebra_simps\<close>)
  ultimately show ?thesis using t1(1) t2(1) by auto
qed

theorem sectors_roundtrip_witness:
  "\<exists>t1 t2. ata_write_sectors (prompt_drive blank_disk) 7 (of_nat 2) (replicate 1024 42) [] = Some (Inr t1) \<and>
    ata_read_sectors (prompt_drive blank_disk) 7 (of_nat 2) (replicate 1025 0) t1 = Some (Inr (replicate 1024 42 @ [0], t2))"
proof -
  have "(0 :: nat) < 2" "2 < (256 :: nat)" "2 * 512 \<le> length (replicate 1024 (42 :: u8))" "2 * 512 \<le> length (replicate 1025 (0 :: u8))" by simp_all
  from sectors_roundtrip [OF prompt_drive_compliant [of blank_disk] this, of 7 "[]"] show ?thesis by auto
qed

text \<open>C40: A transfer of 256 sectors or more never returns: the 8-bit sector counter stays below the count for ever. Whatever the
  drive does, \<open>ata_read_sectors\<close> either does not terminate or writes outside the buffer.\<close>

theorem long_transfer_never_returns:
  assumes "256 \<le> sector_count"
  shows "\<not> (\<exists>bytes t'. ata_read_sectors hw lba sector_count buffer t = Some (Inr (bytes, t')))"
  using read_sector_loop_never [OF _ assms] by (fastforce simp: ata_read_sectors_def bind_eq_Some_conv)

theorem long_transfer_never_returns_witness:
  "\<not> (\<exists>bytes t'. ata_read_sectors (prompt_drive blank_disk) 0 256 (replicate 131072 0) [] = Some (Inr (bytes, t')))"
  by (rule long_transfer_never_returns) simp

end
