(* ===== verification/Paging.thy ===== *)
theory Paging
  imports Heap
begin

text \<open>
  Paging (\<open>src/src/paging.c\<close>, \<open>src/include/paging.h\<close>) and the rest of \<open>initialize_allocator\<close> (\<open>src/src/alloc.c\<close>).

  Physical memory is a function of the frame number and of the index of a word in its frame; every access of the code is a
  whole word at an aligned address. The code reaches the directory and the tables through virtual addresses, so a load or store here is
  what the processor does with such an address: it walks the directory that \<open>cr3\<close> names (the function \<open>walk\<close>), and an access to
  a page that is not present, or a write to one that is not writable while \<open>cr0\<close> has write protection on, is the fault \<open>Page_fault\<close>.
  The translation buffer is not modelled: each access walks the tables.
\<close>

section \<open>Definitions\<close>

definition PAGE_SIZE :: nat where "PAGE_SIZE = 4096"
definition PAGE_ENTRIES :: nat where "PAGE_ENTRIES = 1024"
definition PAGE_PRESENT :: u32 where "PAGE_PRESENT = 1"
definition PAGE_WRITE :: u32 where "PAGE_WRITE = 2"
definition PAGE_USER :: u32 where "PAGE_USER = 4"

record mmu =
  cr0 :: u32
  cr3 :: u32
  frames :: "nat \<Rightarrow> nat \<Rightarrow> u32"
  page_allocator :: AllocArray

subsection \<open>The processor\<close>

definition frame_of :: "u32 \<Rightarrow> nat" where
  "frame_of a = unat a div 4096"

definition dir_index :: "u32 \<Rightarrow> nat" where
  "dir_index a = unat a div 4194304"

definition tab_index :: "u32 \<Rightarrow> nat" where
  "tab_index a = unat a div 4096 mod 1024"

definition word_index :: "u32 \<Rightarrow> nat" where
  "word_index a = unat a mod 4096 div 4"

definition grants :: "mmu \<Rightarrow> bool \<Rightarrow> u32 \<Rightarrow> bool" where
  "grants m wrt e \<longleftrightarrow> bit e 0 \<and> (wrt \<and> bit (cr0 m) 16 \<longrightarrow> bit e 1)"

definition dir_entry :: "mmu \<Rightarrow> nat \<Rightarrow> u32" where
  "dir_entry m i = frames m (frame_of (cr3 m)) i"

definition tab_entry :: "mmu \<Rightarrow> nat \<Rightarrow> nat \<Rightarrow> u32" where
  "tab_entry m i j = frames m (frame_of (dir_entry m i)) j"

definition walk :: "mmu \<Rightarrow> bool \<Rightarrow> u32 \<Rightarrow> nat option" where
  "walk m wrt a =
     (if \<not> bit (cr0 m) 31 then Some (frame_of a)
      else if grants m wrt (dir_entry m (dir_index a)) \<and> grants m wrt (tab_entry m (dir_index a) (tab_index a))
      then Some (frame_of (tab_entry m (dir_index a) (tab_index a))) else None)"

definition vread :: "mmu \<Rightarrow> u32 \<Rightarrow> u32 res" where
  "vread m a = (case walk m False a of None \<Rightarrow> Inl Page_fault | Some f \<Rightarrow> Inr (frames m f (word_index a)))"

definition vwrite :: "mmu \<Rightarrow> u32 \<Rightarrow> u32 \<Rightarrow> mmu res" where
  "vwrite m a x =
     (case walk m True a of None \<Rightarrow> Inl Page_fault
      | Some f \<Rightarrow> Inr (m\<lparr>frames := (frames m)(f := (frames m f)(word_index a := x))\<rparr>))"

subsection \<open>Pages\<close>

definition create_page_table :: "mmu \<Rightarrow> (u32 \<times> mmu) res" where
  "create_page_table m = obind (allocate_page (page_allocator m)) (\<lambda>(p, a). Inr (of_nat p, m\<lparr>page_allocator := a\<rparr>))"

text \<open>\<open>memset\<close> of whole words to zero.\<close>

fun clear_words :: "nat \<Rightarrow> u32 \<Rightarrow> mmu \<Rightarrow> mmu res" where
  "clear_words 0 a m = Inr m"
| "clear_words (Suc n) a m = obind (vwrite m a 0) (clear_words n (a + 4))"

definition flush_tlb :: "mmu \<Rightarrow> mmu res" where
  "flush_tlb m = obind (vread m (0xFFFFF000 + 4 * 0x3FF)) (\<lambda>e. Inr (m\<lparr>cr3 := e\<rparr>))"

definition page_table :: "u32 \<Rightarrow> u32" where
  "page_table pdindex = 0xFFC00000 + 4 * (0x400 * pdindex)"

definition enter_page :: "mmu \<Rightarrow> u32 \<Rightarrow> u32 \<Rightarrow> u32 \<Rightarrow> (int \<times> mmu) res" where
  "enter_page m physaddr virtualaddr flags =
     (let pdindex = drop_bit 22 virtualaddr; ptindex = drop_bit 12 virtualaddr AND 0x3FF; slot = page_table pdindex + 4 * ptindex in
      obind (vread m slot) (\<lambda>e.
        if e AND PAGE_PRESENT \<noteq> 0 then Inl (Panic ''Page already exists'')
        else obind (vwrite m slot (physaddr OR (flags AND 0xFFF) OR PAGE_PRESENT)) (\<lambda>m1.
             obind (flush_tlb m1) (\<lambda>m2. Inr (0, m2)))))"

definition map_page :: "mmu \<Rightarrow> u32 \<Rightarrow> u32 \<Rightarrow> u32 \<Rightarrow> (int \<times> mmu) res" where
  "map_page m physaddr virtualaddr flags =
     (let pdindex = drop_bit 22 virtualaddr; dslot = 0xFFFFF000 + 4 * pdindex in
      obind (vread m dslot) (\<lambda>e.
        if e AND PAGE_PRESENT = 0 then
          obind (create_page_table m) (\<lambda>(new_table, m1).
            if new_table = 0 then Inr (- 1, m1)
            else
              obind (vwrite m1 dslot ((new_table AND 0xFFFFF000) OR flags OR PAGE_PRESENT)) (\<lambda>m2.
              obind (flush_tlb m2) (\<lambda>m3.
              obind (clear_words PAGE_ENTRIES (page_table pdindex) m3) (\<lambda>m4.
                enter_page m4 physaddr virtualaddr flags))))
        else enter_page m physaddr virtualaddr flags))"

definition get_physaddr :: "mmu \<Rightarrow> u32 \<Rightarrow> u32 res" where
  "get_physaddr m virtualaddr =
     (let pdindex = drop_bit 22 virtualaddr; ptindex = drop_bit 12 virtualaddr AND 0x03FF in
      obind (vread m (0xFFFFF000 + 4 * pdindex)) (\<lambda>e.
        if e AND PAGE_PRESENT = 0 then Inl (Panic ''Page table not present'')
        else obind (vread m (page_table pdindex + 4 * ptindex)) (\<lambda>p.
          if p AND PAGE_PRESENT = 0 then Inl (Panic ''Page not present'')
          else Inr ((p AND NOT 0xFFF) + (virtualaddr AND 0xFFF)))))"

text \<open>\<open>memcpy\<close> of whole words.\<close>

fun copy_words :: "nat \<Rightarrow> u32 \<Rightarrow> u32 \<Rightarrow> mmu \<Rightarrow> mmu res" where
  "copy_words 0 dst src m = Inr m"
| "copy_words (Suc n) dst src m = obind (vread m src) (\<lambda>x. obind (vwrite m dst x) (copy_words n (dst + 4) (src + 4)))"

text \<open>One round of \<open>load_process\<close>; the truth value says whether there is a next one.\<close>

definition load_page :: "u32 \<Rightarrow> u32 \<Rightarrow> nat \<Rightarrow> mmu \<Rightarrow> (bool \<times> mmu) res" where
  "load_page process_memory base_virtual_address i m =
     obind (allocate_page (page_allocator m)) (\<lambda>(p, a).
       let physical_page = of_nat p; m1 = m\<lparr>page_allocator := a\<rparr> in
       if physical_page = 0 then Inr (False, m1)
       else
         obind (map_page m1 (base_virtual_address + of_nat i * of_nat PAGE_SIZE) physical_page (PAGE_WRITE OR PAGE_USER)) (\<lambda>(_, m2).
         obind (copy_words PAGE_ENTRIES physical_page (process_memory + 4 * of_nat i) m2) (\<lambda>m3. Inr (True, m3))))"

partial_function (option) load_process_loop :: "u32 \<Rightarrow> nat \<Rightarrow> u32 \<Rightarrow> nat \<Rightarrow> mmu \<Rightarrow> mmu res option" where
  "load_process_loop process_memory process_size base_virtual_address i m =
     (if i < w32 (process_size + PAGE_SIZE) then
        case load_page process_memory base_virtual_address i m of
          Inl e \<Rightarrow> Some (Inl e)
        | Inr (again, m1) \<Rightarrow>
            if again then load_process_loop process_memory process_size base_virtual_address (w32 (i + PAGE_SIZE)) m1 else Some (Inr m1)
      else Some (Inr m))"

definition load_process :: "mmu \<Rightarrow> u32 \<Rightarrow> nat \<Rightarrow> u32 \<Rightarrow> mmu res option" where
  "load_process m process_memory process_size base_virtual_address = load_process_loop process_memory process_size base_virtual_address 0 m"

definition enable_paging :: "u32 \<Rightarrow> mmu \<Rightarrow> mmu" where
  "enable_paging page_directory m = m\<lparr>cr3 := page_directory, cr0 := cr0 m OR 0x80000001\<rparr>"

definition disable_paging :: "mmu \<Rightarrow> mmu" where
  "disable_paging m = m\<lparr>cr0 := cr0 m AND 0xEFFFFFFF\<rparr>"

text \<open>\<open>initialize_allocator\<close>: the kernel's pages are taken, and the heap gets the next page, mapped at its own address.\<close>

definition initialize_allocator :: "mmu \<Rightarrow> AllocArray \<Rightarrow> (mmu \<times> AllocArray) res" where
  "initialize_allocator m kernel_allocator =
     obind (reserve_kernel_pages (page_allocator m)) (\<lambda>a.
     obind (allocate_page a) (\<lambda>(p, a1).
       let ka = kernel_allocator\<lparr>bottom := p, active := True\<rparr> in
       obind (map_page (m\<lparr>page_allocator := a1\<rparr>) (of_nat p) (of_nat p) (PAGE_WRITE OR PAGE_USER)) (\<lambda>(r, m1).
         if r = - 1 then Inl (Panic ''Couldn't allocate heap'') else Inr (m1, ka))))"

section \<open>Addresses of the tables\<close>

lemma unat_dir_index: "unat (drop_bit 22 a) = dir_index a" "dir_index a < 1024"
proof -
  show "unat (drop_bit 22 a) = dir_index a" by (simp add: dir_index_def drop_bit_eq_div unat_div_distrib)
  have "unat a < 4294967296" using unsigned_less [of a] by simp
  then show "dir_index a < 1024" by (simp add: dir_index_def div_less_iff_less_mult)
qed

lemma unat_tab_index: "unat (drop_bit 12 a AND 0x3FF) = tab_index a" "tab_index a < 1024"
proof -
  have "drop_bit 12 a AND 0x3FF = take_bit 10 (drop_bit 12 a)" by (simp add: take_bit_eq_mask mask_eq_exp_minus_1)
  also have "unat (take_bit 10 (drop_bit 12 a)) = take_bit 10 (unat a div 4096)" by (simp add: unsigned_take_bit_eq drop_bit_eq_div unat_div_distrib)
  finally show "unat (drop_bit 12 a AND 0x3FF) = tab_index a" by (simp add: tab_index_def take_bit_eq_mod)
qed (simp add: tab_index_def)

lemma unat_word_eq: "a = of_nat n \<Longrightarrow> n < 4294967296 \<Longrightarrow> unat (a :: u32) = n"
  by (simp add: unat_of_nat)

lemma page_split: "n = 4096 * q + 4 * i \<Longrightarrow> i < 1024 \<Longrightarrow> n div 4096 = q \<and> n mod 4096 div 4 = (i :: nat)"
  by simp

lemma dir_slot:
  assumes "i < 1024" and "a = 0xFFFFF000 + 4 * of_nat i"
  shows "dir_index a = 1023" "tab_index a = 1023" "word_index a = i"
proof -
  have "a = of_nat (4294963200 + 4 * i)" using assms(2) by simp
  then have "unat a = 4294963200 + 4 * i" using assms(1) by (intro unat_word_eq) simp_all
  with page_split [of "unat a" 1048575 i] show "dir_index a = 1023" "tab_index a = 1023" "word_index a = i"
    using assms(1) by (simp_all add: dir_index_def tab_index_def word_index_def)
qed

lemma tab_slot:
  assumes "i < 1024" and "j < 1024" and "a = page_table (of_nat i) + 4 * of_nat j"
  shows "dir_index a = 1023" "tab_index a = i" "word_index a = j"
proof -
  have "a = of_nat (4290772992 + 4096 * i + 4 * j)" using assms(3) by (simp add: page_table_def)
  then have "unat a = 4290772992 + 4096 * i + 4 * j" using assms(1,2) by (intro unat_word_eq) simp_all
  with page_split [of "unat a" "1047552 + i" j] show "dir_index a = 1023" "tab_index a = i" "word_index a = j"
    using assms(1,2) mod_add_self1 [of 1047552 i] by (simp_all add: dir_index_def tab_index_def word_index_def mod_add_left_eq [of 1047552 1024, symmetric] del: mod_add_left_eq)
qed

section \<open>The recursive entry\<close>

text \<open>The last entry of the directory is the directory itself, so it and the tables can be read and written at fixed addresses.\<close>

definition recursive :: "mmu \<Rightarrow> bool" where
  "recursive m \<longleftrightarrow> bit (cr0 m) 31 \<and> bit (dir_entry m 1023) 0 \<and> bit (dir_entry m 1023) 1 \<and> frame_of (dir_entry m 1023) = frame_of (cr3 m)"

definition set_word :: "nat \<Rightarrow> nat \<Rightarrow> u32 \<Rightarrow> mmu \<Rightarrow> mmu" where
  "set_word f i x m = m\<lparr>frames := (frames m)(f := (frames m f)(i := x))\<rparr>"

lemma recursive_entry: "recursive m \<Longrightarrow> tab_entry m 1023 i = dir_entry m i" "recursive m \<Longrightarrow> grants m w (dir_entry m 1023)"
  by (simp_all add: recursive_def tab_entry_def dir_entry_def grants_def)

lemma dir_access:
  assumes "recursive m" and "i < 1024" and "a = 0xFFFFF000 + 4 * of_nat i"
  shows "vread m a = Inr (dir_entry m i)" and "vwrite m a x = Inr (set_word (frame_of (cr3 m)) i x m)"
proof -
  have "walk m w a = Some (frame_of (cr3 m))" for w
    using assms(1) dir_slot [OF assms(2,3)] recursive_entry [OF assms(1)] by (simp add: walk_def recursive_def)
  then show "vread m a = Inr (dir_entry m i)" "vwrite m a x = Inr (set_word (frame_of (cr3 m)) i x m)"
    using dir_slot(3) [OF assms(2,3)] by (simp_all add: vread_def vwrite_def dir_entry_def set_word_def)
qed

lemma tab_access:
  assumes "recursive m" and "i < 1024" and "j < 1024" and "a = page_table (of_nat i) + 4 * of_nat j" and "bit (dir_entry m i) 0"
  shows "vread m a = Inr (tab_entry m i j)" and "bit (dir_entry m i) 1 \<Longrightarrow> vwrite m a x = Inr (set_word (frame_of (dir_entry m i)) j x m)"
proof -
  have w: "walk m w a = (if grants m w (dir_entry m i) then Some (frame_of (dir_entry m i)) else None)" for w
    using assms(1) tab_slot [OF assms(2,3,4)] recursive_entry [OF assms(1)] by (simp add: walk_def recursive_def)
  show "vread m a = Inr (tab_entry m i j)"
    using assms(5) tab_slot(3) [OF assms(2,3,4)] by (simp add: vread_def w grants_def tab_entry_def)
  show "vwrite m a x = Inr (set_word (frame_of (dir_entry m i)) j x m)" if "bit (dir_entry m i) 1"
    using assms(5) that tab_slot(3) [OF assms(2,3,4)] by (simp add: vwrite_def w grants_def set_word_def)
qed

lemma flush_tlb_recursive: "recursive m \<Longrightarrow> flush_tlb m = Inr (m\<lparr>cr3 := dir_entry m 1023\<rparr>)"
  using dir_access(1) [of m 1023 "0xFFFFF000 + 4 * 0x3FF"] by (simp add: flush_tlb_def)

lemma set_word_simps [simp]:
  "cr0 (set_word f i x m) = cr0 m" "cr3 (set_word f i x m) = cr3 m" "page_allocator (set_word f i x m) = page_allocator m"
  "f \<noteq> frame_of (cr3 m) \<Longrightarrow> dir_entry (set_word f i x m) k = dir_entry m k"
  by (simp_all add: set_word_def dir_entry_def)

text \<open>Clearing a table touches only its frame.\<close>

lemma clear_words_table:
  assumes "i < 1024" and "bit (dir_entry m i) 0" "bit (dir_entry m i) 1" and "recursive m" and "frame_of (dir_entry m i) \<noteq> frame_of (cr3 m)"
    and "j + n = 1024"
  shows "clear_words n (page_table (of_nat i) + 4 * of_nat j) m =
    Inr (m\<lparr>frames := (frames m)(frame_of (dir_entry m i) := (\<lambda>k. if j \<le> k \<and> k < 1024 then 0 else frames m (frame_of (dir_entry m i)) k))\<rparr>)"
  using assms(2-6)
proof (induction n arbitrary: j m)
  case 0
  have "(\<lambda>k. if j \<le> k \<and> k < 1024 then 0 else frames m (frame_of (dir_entry m i)) k) = frames m (frame_of (dir_entry m i))"
    using 0 by (intro ext) auto
  then show ?case by (simp only: fun_upd_triv) simp
next
  case (Suc n)
  let ?F = "frame_of (dir_entry m i)" and ?m = "set_word (frame_of (dir_entry m i)) j 0 m"
  have d: "dir_entry ?m k = dir_entry m k" for k using Suc.prems(4) by simp
  have w: "vwrite m (page_table (of_nat i) + 4 * of_nat j) 0 = Inr ?m"
    using tab_access(2) [OF Suc.prems(3) assms(1) _ refl Suc.prems(1,2), of j 0] Suc.prems(5) by simp
  have a: "page_table (of_nat i) + 4 * of_nat j + 4 = page_table (of_nat i) + 4 * of_nat (Suc j)" by simp
  have "clear_words (Suc n) (page_table (of_nat i) + 4 * of_nat j) m = clear_words n (page_table (of_nat i) + 4 * of_nat (Suc j)) ?m"
    by (simp only: clear_words.simps(2) w obind_simps a)
  also have "\<dots> = Inr (?m\<lparr>frames := (frames ?m)(frame_of (dir_entry ?m i) :=
      (\<lambda>k. if Suc j \<le> k \<and> k < 1024 then 0 else frames ?m (frame_of (dir_entry ?m i)) k))\<rparr>)"
    by (rule Suc.IH) (use Suc.prems d in \<open>simp_all add: recursive_def\<close>)
  also have "\<dots> = Inr (m\<lparr>frames := (frames m)(?F := (\<lambda>k. if j \<le> k \<and> k < 1024 then 0 else frames m ?F k))\<rparr>)"
    unfolding d using Suc.prems(5) by (auto simp: set_word_def fun_eq_iff)
  finally show ?case .
qed

section \<open>Well-formed tables\<close>

text \<open>\<open>U\<close> is the set of frames that are in use. Every table that is present is writable, in a frame of its own, and not the directory.\<close>

definition tables_ok :: "mmu \<Rightarrow> nat set \<Rightarrow> bool" where
  "tables_ok m U \<longleftrightarrow> recursive m \<and> frame_of (cr3 m) \<in> U \<and>
     (\<forall>i < 1023. bit (dir_entry m i) 0 \<longrightarrow> bit (dir_entry m i) 1 \<and> frame_of (dir_entry m i) \<in> U \<and> frame_of (dir_entry m i) \<noteq> frame_of (cr3 m)) \<and>
     (\<forall>i < 1023. \<forall>j < 1023. bit (dir_entry m i) 0 \<longrightarrow> bit (dir_entry m j) 0 \<longrightarrow> frame_of (dir_entry m i) = frame_of (dir_entry m j) \<longrightarrow> i = j)"

definition present :: "mmu \<Rightarrow> nat \<Rightarrow> nat \<Rightarrow> bool" where
  "present m i j \<longleftrightarrow> bit (dir_entry m i) 0 \<and> bit (tab_entry m i j) 0"

lemma walk_present: "tables_ok m U \<Longrightarrow> walk m False a = (if present m (dir_index a) (tab_index a) then Some (frame_of (tab_entry m (dir_index a) (tab_index a))) else None)"
  by (simp add: walk_def grants_def present_def tables_ok_def recursive_def)

lemma and_present: "e AND PAGE_PRESENT = 0 \<longleftrightarrow> \<not> bit (e :: u32) 0"
  by (simp add: PAGE_PRESENT_def and_one_eq bit_0 even_iff_mod_2_eq_zero)

lemma index_words: "drop_bit 22 a = of_nat (dir_index a)" "drop_bit 12 a AND 0x3FF = (of_nat (tab_index a) :: u32)"
  using unat_dir_index(1) [of a] unat_tab_index(1) [of a] by (metis of_nat_unat ucast_id)+

lemma enter_page_ok:
  assumes ok: "tables_ok m U" and i: "dir_index v < 1023" and d: "bit (dir_entry m (dir_index v)) 0" and t: "\<not> bit (tab_entry m (dir_index v) (tab_index v)) 0"
  shows "enter_page m physaddr v flags =
    Inr (0, (set_word (frame_of (dir_entry m (dir_index v))) (tab_index v) (physaddr OR (flags AND 0xFFF) OR PAGE_PRESENT) m)\<lparr>cr3 := dir_entry m 1023\<rparr>)"
proof -
  let ?F = "frame_of (dir_entry m (dir_index v))"
  have r: "recursive m" "bit (dir_entry m (dir_index v)) 1" "?F \<noteq> frame_of (cr3 m)" using ok i d by (auto simp: tables_ok_def)
  have ix: "dir_index v < 1024" "tab_index v < 1024" using i unat_tab_index(2) by simp_all
  note acc = tab_access [OF r(1) ix refl d]
  have "recursive (set_word ?F (tab_index v) x m)" for x using r(1,3) by (simp add: recursive_def)
  from flush_tlb_recursive [OF this] show ?thesis
    using t r(3) by (simp add: enter_page_def Let_def index_words acc(1) acc(2) [OF r(2)] and_present)
qed

text \<open>Which frames a step leaves alone.\<close>

definition table_frames :: "mmu \<Rightarrow> nat set" where
  "table_frames m = insert (frame_of (cr3 m)) {frame_of (dir_entry m i) |i. i < 1023 \<and> bit (dir_entry m i) 0}"

lemma frame_drop: "frame_of a = unat (drop_bit 12 a)"
  by (simp add: frame_of_def drop_bit_eq_div unat_div_distrib)

lemma frame_or: "f < 4096 \<Longrightarrow> frame_of (a OR f) = frame_of a"
proof -
  assume "f < 4096"
  then have "drop_bit 12 f = 0" by (simp add: drop_bit_eq_div div_word_less)
  then show ?thesis by (simp add: frame_drop)
qed

lemma frame_page: "p < 1048576 \<Longrightarrow> frame_of (of_nat (p * 4096)) = p"
  using unat_word_eq [of "of_nat (p * 4096)" "p * 4096"] by (simp add: frame_of_def)

lemma page_word: "p < 1048576 \<Longrightarrow> frame_of (of_nat (p * 4096) AND 0xFFFFF000) = p"
proof -
  assume p: "p < 1048576"
  have "drop_bit 12 ((of_nat (p * 4096) :: u32) AND 0xFFFFF000) = drop_bit 12 (of_nat (p * 4096)) AND drop_bit 12 0xFFFFF000" by simp
  also have "\<dots> = drop_bit 12 (of_nat (p * 4096))"
  proof (rule bit_word_eqI)
    fix n assume "n < LENGTH(32)"
    have m: "drop_bit 12 (0xFFFFF000 :: u32) = mask 20" by (simp add: mask_eq_exp_minus_1)
    have "bit (drop_bit 12 x) n \<Longrightarrow> n < 20" for x :: u32 using bit_imp_le_length [of x "12 + n"] by (simp add: bit_drop_bit_eq)
    then show "bit (drop_bit 12 (of_nat (p * 4096) :: u32) AND drop_bit 12 0xFFFFF000) n = bit (drop_bit 12 (of_nat (p * 4096) :: u32)) n"
      using \<open>n < LENGTH(32)\<close> unfolding m by (auto simp: bit_and_iff bit_mask_iff)
  qed
  finally show ?thesis using frame_page [OF p] by (simp only: frame_drop)
qed

lemma small_or: "(a :: u32) < 4096 \<Longrightarrow> b < 4096 \<Longrightarrow> a OR b < 4096"
  using OR_upper [of "uint a" 12 "uint b"] by (simp add: word_less_def uint_or)

text \<open>The table of an address is made present when it is not.\<close>

lemma new_table_ok:
  assumes ok: "tables_ok m U" and i: "i < 1023" "\<not> bit (dir_entry m i) 0" and p: "p < 1048576" "p \<notin> U"
    and e: "frame_of e = p" "bit e 0" "bit e 1"
    and m': "m' = m\<lparr>page_allocator := a, cr3 := dir_entry m 1023,
        frames := (frames m)(frame_of (cr3 m) := (frames m (frame_of (cr3 m)))(i := e), p := (\<lambda>k. if k < 1024 then 0 else frames m p k))\<rparr>"
  shows "tables_ok m' (insert p U)" and "\<And>k. dir_entry m' k = (if k = i then e else dir_entry m k)"
    and "\<And>k j. k < 1023 \<Longrightarrow> j < 1024 \<Longrightarrow> bit (dir_entry m' k) 0 \<Longrightarrow> tab_entry m' k j = (if k = i then 0 else tab_entry m k j)"
    and "table_frames m' = insert p (table_frames m)" and "frame_of (cr3 m') = frame_of (cr3 m)"
proof -
  have r: "recursive m" "frame_of (dir_entry m 1023) = frame_of (cr3 m)" "frame_of (cr3 m) \<in> U" using ok by (simp_all add: tables_ok_def recursive_def)
  have pd: "p \<noteq> frame_of (cr3 m)" using p(2) r(3) by auto
  show c: "frame_of (cr3 m') = frame_of (cr3 m)" using m' r(2) by simp
  show d: "dir_entry m' k = (if k = i then e else dir_entry m k)" for k using pd by (simp add: dir_entry_def m' r(2) [unfolded dir_entry_def])
  have own: "bit (dir_entry m k) 1" "frame_of (dir_entry m k) \<in> U" "frame_of (dir_entry m k) \<noteq> frame_of (cr3 m)" if "k < 1023" "bit (dir_entry m k) 0" for k
    using ok that by (simp_all add: tables_ok_def)
  have fresh: "frame_of (dir_entry m k) \<noteq> frame_of e" if "k < 1023" "bit (dir_entry m k) 0" for k using own(2) [OF that] p(2) e(1) by auto
  have inj: "k = l" if "k < 1023" "l < 1023" "bit (dir_entry m k) 0" "bit (dir_entry m l) 0" "frame_of (dir_entry m k) = frame_of (dir_entry m l)" for k l
    using ok that by (simp add: tables_ok_def)
  show "tab_entry m' k j = (if k = i then 0 else tab_entry m k j)" if "k < 1023" "j < 1024" "bit (dir_entry m' k) 0" for k j
  proof (cases "k = i")
    case True
    then show ?thesis using that(2) by (simp add: tab_entry_def d e(1)) (simp add: m')
  next
    case False
    then have "frame_of (dir_entry m k) \<noteq> p" "frame_of (dir_entry m k) \<noteq> frame_of (cr3 m)" using own [OF that(1)] that(3) p(2) d by auto
    then show ?thesis using False by (simp add: tab_entry_def d) (simp add: m')
  qed
  have "recursive m'" using r(1,2) c i(1) by (simp add: recursive_def d) (simp add: m')
  then show "tables_ok m' (insert p U)"
    unfolding tables_ok_def c d using r(3) own inj e fresh p(2) pd by (auto split: if_splits)
  have "{frame_of (dir_entry m' k) |k. k < 1023 \<and> bit (dir_entry m' k) 0} = insert p {frame_of (dir_entry m k) |k. k < 1023 \<and> bit (dir_entry m k) 0}"
    unfolding d using i e by (auto split: if_splits)
  then show "table_frames m' = insert p (table_frames m)" by (auto simp: table_frames_def c)
qed

lemma entered_ok:
  assumes ok: "tables_ok m U" and i: "i < 1023" "bit (dir_entry m i) 0"
    and m': "m' = (set_word (frame_of (dir_entry m i)) j x m)\<lparr>cr3 := dir_entry m 1023\<rparr>"
  shows "tables_ok m' U" and "\<And>k. dir_entry m' k = dir_entry m k"
    and "\<And>k l. k < 1023 \<Longrightarrow> bit (dir_entry m k) 0 \<Longrightarrow> tab_entry m' k l = (if k = i \<and> l = j then x else tab_entry m k l)"
    and "table_frames m' = table_frames m" and "frame_of (cr3 m') = frame_of (cr3 m)"
proof -
  have r: "recursive m" "frame_of (dir_entry m 1023) = frame_of (cr3 m)" using ok by (simp_all add: tables_ok_def recursive_def)
  have F: "frame_of (dir_entry m i) \<noteq> frame_of (cr3 m)" using ok i by (simp add: tables_ok_def)
  show c: "frame_of (cr3 m') = frame_of (cr3 m)" using m' r(2) by simp
  show d: "dir_entry m' k = dir_entry m k" for k
  proof -
    have "dir_entry m' k = frames (set_word (frame_of (dir_entry m i)) j x m) (frame_of (cr3 m)) k" unfolding m' dir_entry_def using r(2) by (simp add: dir_entry_def)
    then show ?thesis using F by (simp add: set_word_def dir_entry_def)
  qed
  have "recursive m'" using r(1) c by (simp add: recursive_def d) (simp add: m')
  then show "tables_ok m' U" using ok unfolding tables_ok_def c d by simp
  have inj: "k = i" if "k < 1023" "bit (dir_entry m k) 0" "frame_of (dir_entry m k) = frame_of (dir_entry m i)" for k
    using ok i that by (simp add: tables_ok_def)
  show "tab_entry m' k l = (if k = i \<and> l = j then x else tab_entry m k l)" if "k < 1023" "bit (dir_entry m k) 0" for k l
    unfolding tab_entry_def d using inj [OF that] by (auto simp: m' set_word_def)
  show "table_frames m' = table_frames m" by (simp add: table_frames_def c d)
qed

text \<open>What mapping a page changes: one entry, and no frame that is not a table.\<close>

definition mapped :: "mmu \<Rightarrow> nat \<Rightarrow> nat \<Rightarrow> u32 \<Rightarrow> mmu \<Rightarrow> bool" where
  "mapped m i j e m' \<longleftrightarrow> cr0 m' = cr0 m \<and> present m' i j \<and> bit (dir_entry m' i) 1 \<and> tab_entry m' i j = e \<and>
     (\<forall>k < 1023. \<forall>l < 1024. (k, l) \<noteq> (i, j) \<longrightarrow> present m' k l = present m k l \<and>
        (present m k l \<longrightarrow> tab_entry m' k l = tab_entry m k l \<and> dir_entry m' k = dir_entry m k)) \<and>
     (\<forall>f. f \<notin> table_frames m' \<longrightarrow> frames m' f = frames m f)"

definition paging_ok :: "mmu \<Rightarrow> bool" where
  "paging_ok m \<longleftrightarrow> page_inv (page_allocator m) \<and> tables_ok m (bm_used (bitmap (page_allocator m)))"

lemma map_present_table:
  assumes ok: "tables_ok m U" and i: "dir_index v < 1023" "bit (dir_entry m (dir_index v)) 0" "\<not> bit (tab_entry m (dir_index v) (tab_index v)) 0"
  shows "\<exists>m'. enter_page m physaddr v flags = Inr (0, m') \<and> tables_ok m' U \<and> page_allocator m' = page_allocator m \<and> table_frames m' = table_frames m \<and>
    mapped m (dir_index v) (tab_index v) (physaddr OR (flags AND 0xFFF) OR PAGE_PRESENT) m'"
proof -
  let ?i = "dir_index v" and ?j = "tab_index v" and ?e = "physaddr OR (flags AND 0xFFF) OR PAGE_PRESENT"
  let ?m = "(set_word (frame_of (dir_entry m ?i)) ?j ?e m)\<lparr>cr3 := dir_entry m 1023\<rparr>"
  note en = entered_ok [where j = ?j and x = ?e, OF ok i(1,2) refl]
  have b: "bit ?e 0" by (simp add: PAGE_PRESENT_def bit_or_iff)
  have one: "bit (dir_entry m ?i) 1" using ok i by (simp add: tables_ok_def)
  have fr: "frames ?m f = frames m f" if "f \<notin> table_frames m" for f
    using that i(1,2) by (auto simp: table_frames_def set_word_def)
  have "mapped m ?i ?j ?e ?m"
    unfolding mapped_def present_def en(2,4) using en(3) [of ?i ?j] en(3) i b one fr by (auto simp: set_word_def)
  then show ?thesis using enter_page_ok [OF ok i] en(1,4) by simp
qed

lemma page_zero_used: "page_inv a \<Longrightarrow> 0 \<in> bm_used (bitmap a)"
proof -
  assume inv: "page_inv a"
  then have "0 < length (entries a)" by (simp add: page_inv_def table_ok_def table_inv_def MAX_ALLOCATIONS_def)
  then have "ae_range (entries a ! 0) \<in> set (live_ranges (entries a))" 
    using inv nth_mem [of 0 "entries a"] unfolding live_ranges_def page_inv_def by (simp del: nth_mem) (metis (mono_tags, lifting) image_eqI mem_Collect_eq)
  then have "br_set (ae_range (entries a ! 0)) \<subseteq> bm_used (bitmap a)" using inv by (auto simp: page_inv_def)
  moreover have "0 \<in> br_set (ae_range (entries a ! 0))" using inv by (simp add: page_inv_def br_set_def)
  ultimately show ?thesis by (rule subsetD)
qed

text \<open>The steps of \<open>map_page\<close> that give an address its table.\<close>

lemma map_page_new_table:
  assumes ok: "tables_ok m U" and i: "dir_index v < 1023" "\<not> bit (dir_entry m (dir_index v)) 0"
    and al: "allocate_page (page_allocator m) = Inr (s * 4096, a)" "s < 1048576" "s \<noteq> 0" "s \<notin> U" and fl: "flags < 4096" "bit flags 1"
  defines "e \<equiv> (of_nat (s * 4096) AND 0xFFFFF000) OR flags OR PAGE_PRESENT"
  defines "m' \<equiv> m\<lparr>page_allocator := a, cr3 := dir_entry m 1023,
        frames := (frames m)(frame_of (cr3 m) := (frames m (frame_of (cr3 m)))(dir_index v := e), s := (\<lambda>k. if k < 1024 then 0 else frames m s k))\<rparr>"
  shows "map_page m physaddr v flags = enter_page m' physaddr v flags" and "frame_of e = s \<and> bit e 0 \<and> bit e 1"
proof -
  let ?i = "dir_index v" and ?D = "frame_of (cr3 m)"
  let ?m1 = "m\<lparr>page_allocator := a\<rparr>" and ?slot = "0xFFFFF000 + 4 * of_nat (dir_index v) :: u32"
  let ?m2 = "set_word ?D ?i e ?m1" and ?m3 = "(set_word ?D ?i e ?m1)\<lparr>cr3 := dir_entry m 1023\<rparr>"
  have r: "recursive m" "frame_of (dir_entry m 1023) = ?D" "?D \<in> U" using ok by (simp_all add: tables_ok_def recursive_def)
  have sD: "s \<noteq> ?D" using al(4) r(3) by auto
  have "flags OR PAGE_PRESENT < 4096" using fl(1) by (intro small_or) (simp_all add: PAGE_PRESENT_def)
  then have fe: "frame_of e = s" using page_word [OF al(2)] by (simp only: e_def frame_or)
  have be: "bit e 0" "bit e 1" using fl(2) by (simp_all add: e_def bit_or_iff PAGE_PRESENT_def)
  show "frame_of e = s \<and> bit e 0 \<and> bit e 1" using fe be by simp
  have nz: "(of_nat (s * 4096) :: u32) \<noteq> 0" using frame_page [OF al(2)] al(3) by (metis frame_of_def unat_0 div_0)
  have d1: "dir_entry ?m1 k = dir_entry m k" for k by (simp add: dir_entry_def)
  have d2: "dir_entry ?m2 k = (if k = ?i then e else dir_entry m k)" for k by (simp add: dir_entry_def set_word_def)
  have r1: "recursive ?m1" using r(1) unfolding recursive_def d1 by simp
  have r2: "recursive ?m2" using r(1) i(1) unfolding recursive_def d2 by simp
  have d3: "dir_entry ?m3 k = dir_entry ?m2 k" for k using r(2) by (simp add: dir_entry_def [of ?m3] dir_entry_def [of ?m2])
  have r3: "recursive ?m3" using r2 r(2) unfolding recursive_def d3 by simp
  have f: "flush_tlb ?m2 = Inr ?m3" using flush_tlb_recursive [OF r2] d2 [of 1023] i(1) by simp
  have c: "clear_words 1024 (page_table (of_nat ?i)) ?m3 = Inr m'"
    using clear_words_table [of ?i ?m3 0 1024] i(1) r3 be fe sD r(2) unfolding d3 d2 by (simp add: m'_def set_word_def cong: if_cong)
  have io: "?i < 1024" using i(1) by simp
  have ee: "(of_nat s * 4096 AND 0xFFFFF000) OR flags OR PAGE_PRESENT = e" by (simp add: e_def)
  show "map_page m physaddr v flags = enter_page m' physaddr v flags"
    unfolding map_page_def Let_def index_words dir_access(1) [OF r(1) io refl] create_page_table_def al(1)
    using i(2) nz f c dir_access(2) [OF r1 io refl, of e] by (simp add: and_present PAGE_ENTRIES_def ee)
qed

lemma map_page_ok:
  assumes ok: "paging_ok m" and i: "dir_index v < 1023" "\<not> present m (dir_index v) (tab_index v)"
    and fl: "flags < 4096" "bit flags 1" and free: "\<not> (\<forall>e \<in> set (entries (page_allocator m)). utilized e)"
  shows "\<exists>m'. map_page m physaddr v flags = Inr (0, m') \<and> paging_ok m' \<and>
    mapped m (dir_index v) (tab_index v) (physaddr OR (flags AND 0xFFF) OR PAGE_PRESENT) m'"
proof (cases "bit (dir_entry m (dir_index v)) 0")
  case True
  have t: "tables_ok m (bm_used (bitmap (page_allocator m)))" "recursive m" using ok by (simp_all add: paging_ok_def tables_ok_def)
  have "\<not> bit (tab_entry m (dir_index v) (tab_index v)) 0" using i(2) True by (simp add: present_def)
  moreover have "map_page m physaddr v flags = enter_page m physaddr v flags"
    using dir_access(1) [OF t(2) _ refl, of "dir_index v"] i(1) True by (simp add: map_page_def index_words and_present)
  ultimately show ?thesis using map_present_table [OF t(1) i(1) True, of physaddr flags] ok by (auto simp: paging_ok_def)
next
  case False
  let ?i = "dir_index v" and ?j = "tab_index v" and ?U = "bm_used (bitmap (page_allocator m))"
  have inv: "page_inv (page_allocator m)" and t: "tables_ok m ?U" using ok by (simp_all add: paging_ok_def)
  obtain s a where a: "allocate_page (page_allocator m) = Inr (s * 4096, a)" "s < 1279" "s \<notin> ?U" "page_inv a" "bm_used (bitmap a) = insert s ?U"
    using allocate_page_result [OF inv free] by blast
  have s: "s < 1048576" "s \<noteq> 0" using a(2,3) page_zero_used [OF inv] by (simp, metis)
  define e where "e = (of_nat (s * 4096) AND 0xFFFFF000) OR flags OR PAGE_PRESENT"
  define m1 where "m1 = m\<lparr>page_allocator := a, cr3 := dir_entry m 1023,
        frames := (frames m)(frame_of (cr3 m) := (frames m (frame_of (cr3 m)))(?i := e), s := (\<lambda>k. if k < 1024 then 0 else frames m s k))\<rparr>"
  have st: "map_page m physaddr v flags = enter_page m1 physaddr v flags" and e: "frame_of e = s" "bit e 0" "bit e 1"
    using map_page_new_table [OF t i(1) False a(1) s a(3) fl] by (simp_all add: m1_def e_def)
  note nt = new_table_ok [OF t i(1) False s(1) a(3) e m1_def]
  have j: "?j < 1024" by (rule unat_tab_index(2))
  have "bit (dir_entry m1 ?i) 0" "\<not> bit (tab_entry m1 ?i ?j) 0" using nt(2) [of ?i] nt(3) [OF i(1) j] e(2) by simp_all
  from map_present_table [OF nt(1) i(1) this, of physaddr flags]
  obtain m' where m': "enter_page m1 physaddr v flags = Inr (0, m')" "tables_ok m' (insert s ?U)" "page_allocator m' = a" "table_frames m' = table_frames m1"
      "mapped m1 ?i ?j (physaddr OR (flags AND 0xFFF) OR PAGE_PRESENT) m'"
    by (auto simp: m1_def)
  have pr: "present m1 k l = present m k l" if "k < 1023" "l < 1024" for k l
    using nt(2) [of k] nt(3) [OF that] False by (auto simp: present_def split: if_splits)
  have te: "tab_entry m1 k l = tab_entry m k l \<and> dir_entry m1 k = dir_entry m k" if "k < 1023" "l < 1024" "present m k l" for k l
    using nt(2) [of k] nt(3) [OF that(1,2)] that(3) False by (auto simp: present_def split: if_splits)
  have fr: "frames m1 f = frames m f" if "f \<notin> table_frames m1" for f
    using that nt(4) by (auto simp: m1_def table_frames_def)
  have "mapped m ?i ?j (physaddr OR (flags AND 0xFFF) OR PAGE_PRESENT) m'"
    using m'(5) pr te fr m'(4) unfolding mapped_def by (simp add: m1_def)
  then show ?thesis using st m'(1-3) a(4,5) by (auto simp: paging_ok_def)
qed

section \<open>Translation\<close>

lemma page_indices: "dir_index a = frame_of a div 1024" "tab_index a = frame_of a mod 1024"
  by (simp_all add: dir_index_def tab_index_def frame_of_def div_mult2_eq [symmetric])

lemma other_page: "frame_of u \<noteq> frame_of v \<Longrightarrow> (dir_index u, tab_index u) \<noteq> (dir_index v, tab_index v)"
  unfolding page_indices by (metis div_mult_mod_eq prod.inject)

lemma mapped_walk:
  assumes on: "bit (cr0 m) 31" and mp: "mapped m (dir_index v) (tab_index v) e m'" and e: "bit e 0" "bit e 1"
  shows "walk m' w v = Some (frame_of e)" and "dir_index u < 1023 \<Longrightarrow> frame_of u \<noteq> frame_of v \<Longrightarrow> walk m' w u = walk m w u"
proof -
  have c: "cr0 m' = cr0 m" and p: "present m' (dir_index v) (tab_index v)" "bit (dir_entry m' (dir_index v)) 1" "tab_entry m' (dir_index v) (tab_index v) = e"
    using mp by (simp_all add: mapped_def)
  show "walk m' w v = Some (frame_of e)" using on c p e by (simp add: walk_def grants_def present_def)
  assume u: "dir_index u < 1023" "frame_of u \<noteq> frame_of v"
  let ?k = "dir_index u" and ?l = "tab_index u"
  have o: "present m' ?k ?l = present m ?k ?l" "present m ?k ?l \<Longrightarrow> tab_entry m' ?k ?l = tab_entry m ?k ?l \<and> dir_entry m' ?k = dir_entry m ?k"
    using mp other_page [OF u(2)] u(1) unat_tab_index(2) [of u] unfolding mapped_def by auto
  show "walk m' w u = walk m w u"
  proof (cases "present m ?k ?l")
    case True
    then show ?thesis using o c by (auto simp: walk_def grants_def)
  next
    case False
    then show ?thesis using o(1) c on by (auto simp: walk_def grants_def present_def)
  qed
qed

lemma tables_ok_mono: "tables_ok m U \<Longrightarrow> U \<subseteq> V \<Longrightarrow> tables_ok m V"
  unfolding tables_ok_def by blast

lemma page_entry_bits:
  assumes "flags < 4096" and "bit flags 1"
  shows "frame_of (physaddr OR (flags AND 0xFFF) OR PAGE_PRESENT) = frame_of physaddr" "bit (physaddr OR (flags AND 0xFFF) OR PAGE_PRESENT) 0"
    "bit (physaddr OR (flags AND 0xFFF) OR PAGE_PRESENT) 1"
proof -
  have m: "flags AND 0xFFF = flags"
  proof -
    have "unat (take_bit 12 flags) = unat flags" using assms(1) by (simp add: unsigned_take_bit_eq take_bit_nat_eq_self word_less_nat_alt)
    then show ?thesis by (simp add: word_unat_eq_iff take_bit_eq_mask mask_eq_exp_minus_1)
  qed
  have "flags OR PAGE_PRESENT < 4096" using assms(1) by (intro small_or) (simp_all add: PAGE_PRESENT_def)
  then show "frame_of (physaddr OR (flags AND 0xFFF) OR PAGE_PRESENT) = frame_of physaddr" unfolding m by (simp only: frame_or)
  show "bit (physaddr OR (flags AND 0xFFF) OR PAGE_PRESENT) 0" "bit (physaddr OR (flags AND 0xFFF) OR PAGE_PRESENT) 1"
    unfolding m using assms(2) by (simp_all add: bit_or_iff PAGE_PRESENT_def)
qed

lemma page_base: "(p AND NOT 0xFFF) = (of_nat (4096 * frame_of p) :: u32)"
proof -
  have "(of_nat (4096 * frame_of p) :: u32) = push_bit 12 (drop_bit 12 p)"
    unfolding frame_drop by (simp add: push_bit_eq_mult mult.commute)
  moreover have "push_bit 12 (drop_bit 12 p) = p AND NOT (mask 12)"
    by (rule bit_word_eqI) (auto simp: bit_simps)
  ultimately show ?thesis by (simp add: mask_eq_exp_minus_1)
qed

lemma get_physaddr_walk:
  assumes ok: "tables_ok m U" and i: "dir_index v < 1023"
  shows "get_physaddr m v =
    (case walk m False v of Some f \<Rightarrow> Inr (of_nat (4096 * f) + (v AND 0xFFF))
     | None \<Rightarrow> Inl (Panic (if bit (dir_entry m (dir_index v)) 0 then ''Page not present'' else ''Page table not present'')))"
proof -
  have r: "recursive m" using ok by (simp add: tables_ok_def)
  have ix: "dir_index v < 1024" "tab_index v < 1024" using i unat_tab_index(2) by simp_all
  show ?thesis
    using tab_access(1) [OF r ix refl] dir_access(1) [OF r ix(1) refl] walk_present [OF ok, of v]
    by (auto simp: get_physaddr_def Let_def index_words and_present present_def page_base [simplified])
qed

section \<open>Setting up the heap\<close>

text \<open>Two live blocks leave an entry unused.\<close>

lemma entry_left:
  assumes tok: "table_ok f lim (entries a)" and live: "heap_live a = [p \<mapsto> k, q \<mapsto> l]"
  shows "\<not> (\<forall>e \<in> set (entries a). utilized e)"
proof
  assume "\<forall>e \<in> set (entries a). utilized e"
  then have u: "utilized (entries a ! i)" if "i < 256" for i
    using that tok by (simp add: table_ok_def table_inv_def MAX_ALLOCATIONS_def)
  have len: "length (entries a) = 256" using tok by (simp add: table_ok_def table_inv_def MAX_ALLOCATIONS_def)
  have b: "base_ptr (entries a ! i) = p \<or> base_ptr (entries a ! i) = q" if "i < 256" for i
  proof -
    have "heap_live a (base_ptr (entries a ! i)) \<noteq> None" using heap_live_iff [OF tok, of "base_ptr (entries a ! i)"] u that len by fastforce
    then show ?thesis unfolding live by (auto split: if_splits)
  qed
  have "base_ptr (entries a ! 0) \<noteq> base_ptr (entries a ! 1)" "base_ptr (entries a ! 1) \<noteq> base_ptr (entries a ! 2)" "base_ptr (entries a ! 0) \<noteq> base_ptr (entries a ! 2)"
    using table_ok_unique [OF tok, of 0 1] table_ok_unique [OF tok, of 1 2] table_ok_unique [OF tok, of 0 2] u len by auto
  then show False using b [of 0] b [of 1] b [of 2] by auto
qed

lemma initialize_allocator_ok:
  assumes za: "page_allocator m = zero_allocator 262144" and ok: "tables_ok m {..<1024}" and i: "\<not> bit (dir_entry m 1) 0"
  shows "\<exists>m'. initialize_allocator m ka = Inr (m', ka\<lparr>bottom := 4194304, active := True\<rparr>) \<and> paging_ok m' \<and>
    mapped m 1 0 (0x400000 OR ((PAGE_WRITE OR PAGE_USER) AND 0xFFF) OR PAGE_PRESENT) m'"
proof -
  obtain a where a: "reserve_kernel_pages (zero_allocator 262144) = Inr a" "page_inv a" "bm_used (bitmap a) = {..<1024}"
      "\<not> (\<forall>e \<in> set (entries a). utilized e)" "heap_live a = [0 \<mapsto> 1024]"
    by (rule reserve_kernel_pages_ok)
  obtain s a1 where a1: "allocate_page a = Inr (s * 4096, a1)" "s \<notin> {..<1024}" "\<forall>s' < s. s' \<in> {..<1024}" "page_inv a1"
      "bm_used (bitmap a1) = insert s {..<1024}" "heap_live a1 = [0 \<mapsto> 1024](s * 4096 \<mapsto> 1)"
    using allocate_page_result [OF a(2,4)] unfolding a(3,5) by blast
  have s: "s = 1024" using a1(2,3) by (metis lessThan_iff linorder_neqE_nat less_irrefl_nat)
  let ?m = "m\<lparr>page_allocator := a1\<rparr>" and ?e = "0x400000 OR ((PAGE_WRITE OR PAGE_USER) AND 0xFFF) OR PAGE_PRESENT"
  have d: "dir_entry ?m k = dir_entry m k" "tab_entry ?m k l = tab_entry m k l" for k l by (simp_all add: dir_entry_def tab_entry_def)
  have "tables_ok ?m {..<1024}" using ok unfolding tables_ok_def recursive_def d by simp
  from tables_ok_mono [OF this, of "insert s {..<1024}"] have pok: "paging_ok ?m" using a1(4,5) by (simp add: paging_ok_def subset_insertI)
  have ix: "dir_index 0x400000 = 1" "tab_index 0x400000 = 0" by (simp_all add: dir_index_def tab_index_def)
  have fl: "PAGE_WRITE OR PAGE_USER < 4096" "bit (PAGE_WRITE OR PAGE_USER) 1" by (simp_all add: PAGE_WRITE_def PAGE_USER_def)
  have left: "\<not> (\<forall>e \<in> set (entries (page_allocator ?m)). utilized e)"
    using entry_left [of "\<lambda>s. s * 4096" 1280 a1 0 1024 "s * 4096" 1] a1(4,6) by (simp add: page_inv_def)
  have np: "\<not> present ?m (dir_index 0x400000) (tab_index 0x400000)" unfolding ix present_def d using i by simp
  from map_page_ok [OF pok _ np fl left, of "0x400000"]
  obtain m' where m': "map_page ?m 0x400000 0x400000 (PAGE_WRITE OR PAGE_USER) = Inr (0, m')" "paging_ok m'" "mapped ?m 1 0 ?e m'"
    unfolding ix by auto
  have cf: "cr0 ?m = cr0 m" "frames ?m = frames m" by simp_all
  have "mapped m 1 0 ?e m'" using m'(3) unfolding mapped_def present_def d cf .
  then show ?thesis using a(1) a1(1) m'(1,2) za s by (auto simp: initialize_allocator_def Let_def)
qed

section \<open>Properties\<close>

text \<open>The directory and the table that the boot code leaves, with the kernel in the upper half.\<close>

definition boot_mmu :: mmu where
  "boot_mmu = \<lparr>cr0 = 0x80010001, cr3 = 0x100000,
     frames = (\<lambda>_ _. 0)(256 := (\<lambda>_. 0)(768 := 0x101003, 1023 := 0x100003), 257 := (\<lambda>_. 0)(1023 := 0xB8003)),
     page_allocator = zero_allocator 262144\<rparr>"

lemma boot_mmu_dir: "dir_entry boot_mmu k = (if k = 768 then 0x101003 else if k = 1023 then 0x100003 else 0)"
  by (simp add: dir_entry_def boot_mmu_def frame_of_def)

lemma boot_mmu_tables: "tables_ok boot_mmu {..<1024}"
proof -
  have f: "frame_of (dir_entry boot_mmu 768) = 257" "frame_of (dir_entry boot_mmu 1023) = 256" "frame_of (cr3 boot_mmu) = 256"
    unfolding boot_mmu_dir by (simp_all add: frame_of_def boot_mmu_def)
  have p: "bit (dir_entry boot_mmu k) 0 \<longleftrightarrow> k = 768 \<or> k = 1023" for k by (simp add: boot_mmu_dir)
  have w: "bit (dir_entry boot_mmu 768) 1" "bit (dir_entry boot_mmu 1023) 1" "bit (cr0 boot_mmu) 31" unfolding boot_mmu_dir by (simp_all add: boot_mmu_def)
  have "recursive boot_mmu" using w by (simp add: recursive_def p f)
  then show ?thesis unfolding tables_ok_def p f using w by (simp add: f)
qed

lemma boot_mmu_reserved:
  obtains a where "reserve_kernel_pages (zero_allocator 262144) = Inr a" and "paging_ok (boot_mmu\<lparr>page_allocator := a\<rparr>)"
    and "\<not> (\<forall>e \<in> set (entries a). utilized e)"
proof -
  obtain a where a: "reserve_kernel_pages (zero_allocator 262144) = Inr a" "page_inv a" "bm_used (bitmap a) = {..<1024}"
      "\<not> (\<forall>e \<in> set (entries a). utilized e)" "heap_live a = [0 \<mapsto> 1024]"
    by (rule reserve_kernel_pages_ok)
  have d: "dir_entry (boot_mmu\<lparr>page_allocator := a\<rparr>) k = dir_entry boot_mmu k" for k by (simp add: dir_entry_def)
  have "tables_ok (boot_mmu\<lparr>page_allocator := a\<rparr>) {..<1024}" using boot_mmu_tables unfolding tables_ok_def recursive_def d by simp
  then show ?thesis using that a by (simp add: paging_ok_def)
qed

text \<open>C28: Mapping a page does just that. While an entry of the page allocator is unused, \<open>map_page\<close> of an address that is not mapped yet, outside the
  4 MiB of the tables and with writable flags, returns 0; the processor then translates the address to the given physical page, for reading and writing,
  translates every other address as before, and no physical memory but that of the directory and the tables has changed. The tables
  stay well formed, so the next mapping works the same way.\<close>

theorem map_page_translates:
  assumes ok: "paging_ok m" and i: "dir_index v < 1023" "walk m False v = None" and fl: "flags < 4096" "bit flags 1"
    and free: "\<not> (\<forall>e \<in> set (entries (page_allocator m)). utilized e)"
  shows "\<exists>m'. map_page m physaddr v flags = Inr (0, m') \<and> paging_ok m' \<and> (\<forall>w. walk m' w v = Some (frame_of physaddr)) \<and>
    (\<forall>u w. dir_index u < 1023 \<and> frame_of u \<noteq> frame_of v \<longrightarrow> walk m' w u = walk m w u) \<and>
    (\<forall>f. f \<notin> table_frames m' \<longrightarrow> frames m' f = frames m f)"
proof -
  have t: "tables_ok m (bm_used (bitmap (page_allocator m)))" and on: "bit (cr0 m) 31" using ok by (simp_all add: paging_ok_def tables_ok_def recursive_def)
  have "\<not> present m (dir_index v) (tab_index v)" using i(2) walk_present [OF t, of v] by (auto split: if_splits)
  from map_page_ok [OF ok i(1) this fl free, of physaddr]
  obtain m' where m': "map_page m physaddr v flags = Inr (0, m')" "paging_ok m'"
      "mapped m (dir_index v) (tab_index v) (physaddr OR (flags AND 0xFFF) OR PAGE_PRESENT) m'" by blast
  note e = page_entry_bits [OF fl, of physaddr]
  show ?thesis
    using m' mapped_walk [OF on m'(3) e(2,3)] unfolding e(1) by (auto simp: mapped_def)
qed

theorem map_page_translates_witness:
  "\<exists>a m'. map_page (boot_mmu\<lparr>page_allocator := a\<rparr>) 0x7000 0xD0000123 3 = Inr (0, m') \<and> (\<forall>w. walk m' w 0xD0000123 = Some 7)"
proof -
  obtain a where a: "paging_ok (boot_mmu\<lparr>page_allocator := a\<rparr>)" "\<not> (\<forall>e \<in> set (entries a). utilized e)" using boot_mmu_reserved by blast
  have "dir_index 0xD0000123 < 1023" by (simp add: dir_index_def)
  moreover have "walk (boot_mmu\<lparr>page_allocator := a\<rparr>) False 0xD0000123 = None"
    by (simp add: walk_def dir_entry_def boot_mmu_def frame_of_def dir_index_def grants_def)
  moreover have "(3 :: u32) < 4096" "bit (3 :: u32) 1" by simp_all
  ultimately obtain m' where "map_page (boot_mmu\<lparr>page_allocator := a\<rparr>) 0x7000 0xD0000123 3 = Inr (0, m')" "\<forall>w. walk m' w 0xD0000123 = Some (frame_of 0x7000)"
    using map_page_translates [OF a(1), of "0xD0000123" 3 "0x7000"] a(2) by auto
  then show ?thesis by (auto simp: frame_of_def)
qed

text \<open>C29: \<open>get_physaddr\<close> computes the processor's own translation: with well-formed tables and outside their 4 MiB it returns
  the frame the processor would use plus the offset, and panics exactly when the processor would fault, with the message that names the missing level.\<close>

theorem get_physaddr_is_translation:
  assumes "tables_ok m U" and "dir_index v < 1023"
  shows "get_physaddr m v =
    (case walk m False v of Some f \<Rightarrow> Inr (of_nat (4096 * f) + (v AND 0xFFF))
     | None \<Rightarrow> Inl (Panic (if bit (dir_entry m (dir_index v)) 0 then ''Page not present'' else ''Page table not present'')))"
  using get_physaddr_walk [OF assms] .

theorem get_physaddr_is_translation_witness:
  "get_physaddr boot_mmu 0xC03FF010 = Inr 0xB8010 \<and> get_physaddr boot_mmu 0 = Inl (Panic ''Page table not present'')"
proof -
  have ix: "dir_index 0xC03FF010 = 768" "tab_index 0xC03FF010 = 1023" "dir_index 0 = 0" by (simp_all add: dir_index_def tab_index_def)
  have w: "walk boot_mmu False 0xC03FF010 = Some 184" "walk boot_mmu False 0 = None"
    by (simp_all add: walk_def ix boot_mmu_dir tab_entry_def grants_def) (simp_all add: boot_mmu_def frame_of_def)
  show ?thesis
    using get_physaddr_is_translation [OF boot_mmu_tables, of "0xC03FF010"] get_physaddr_is_translation [OF boot_mmu_tables, of 0]
    by (simp add: ix w boot_mmu_dir)
qed

text \<open>C30: Setting up memory: from the tables the boot code leaves and empty allocators, \<open>initialize_allocator\<close> reserves the first 4 MiB for the kernel,
  gives the heap the page after them and maps it at its own address, so that the heap's first 4096 bytes can be read and
  written, and changes no other translation.\<close>

theorem heap_page_mapped:
  assumes za: "page_allocator m = zero_allocator 262144" and ok: "tables_ok m {..<1024}" and i: "\<not> bit (dir_entry m 1) 0"
  shows "\<exists>m'. initialize_allocator m ka = Inr (m', ka\<lparr>bottom := 4194304, active := True\<rparr>) \<and> paging_ok m' \<and>
    (\<forall>w. walk m' w 0x400000 = Some 1024) \<and> (\<forall>u w. dir_index u < 1023 \<and> frame_of u \<noteq> 1024 \<longrightarrow> walk m' w u = walk m w u)"
proof -
  let ?e = "0x400000 OR ((PAGE_WRITE OR PAGE_USER) AND 0xFFF) OR PAGE_PRESENT"
  obtain m' where m': "initialize_allocator m ka = Inr (m', ka\<lparr>bottom := 4194304, active := True\<rparr>)" "paging_ok m'" "mapped m 1 0 ?e m'"
    using initialize_allocator_ok [OF assms] by blast
  have ix: "dir_index 0x400000 = 1" "tab_index 0x400000 = 0" "frame_of 0x400000 = 1024" by (simp_all add: dir_index_def tab_index_def frame_of_def)
  have fl: "PAGE_WRITE OR PAGE_USER < 4096" "bit (PAGE_WRITE OR PAGE_USER) 1" by (simp_all add: PAGE_WRITE_def PAGE_USER_def)
  have on: "bit (cr0 m) 31" using ok by (simp add: tables_ok_def recursive_def)
  note e = page_entry_bits [OF fl, of "0x400000"]
  have "mapped m (dir_index 0x400000) (tab_index 0x400000) ?e m'" unfolding ix using m'(3) .
  from mapped_walk [OF on this e(2,3)] show ?thesis using m'(1,2) unfolding e(1) ix by auto
qed

theorem heap_page_mapped_witness:
  "\<exists>m' ka. initialize_allocator boot_mmu (zero_allocator 256) = Inr (m', ka) \<and> bottom ka = 4194304 \<and> walk m' True 0x400000 = Some 1024"
proof -
  have "page_allocator boot_mmu = zero_allocator 262144" "\<not> bit (dir_entry boot_mmu 1) 0" unfolding boot_mmu_dir by (simp_all add: boot_mmu_def)
  from heap_page_mapped [OF this(1) boot_mmu_tables this(2), of "zero_allocator 256"] show ?thesis by auto
qed

text \<open>\<open>disable_paging\<close> does not disable paging: its mask clears bit 28 of \<open>cr0\<close>, not the paging bit 31, so every address is translated as before.\<close>

theorem disable_paging_keeps_paging: "walk (disable_paging m) w v = walk m w v"
proof -
  have "bit (0xEFFFFFFF :: u32) 31" "bit (0xEFFFFFFF :: u32) 16" by simp_all
  then have b: "bit (cr0 (disable_paging m)) 31 = bit (cr0 m) 31" "bit (cr0 (disable_paging m)) 16 = bit (cr0 m) 16"
    by (simp_all add: disable_paging_def bit_and_iff)
  have "dir_entry (disable_paging m) k = dir_entry m k" "tab_entry (disable_paging m) k l = tab_entry m k l" for k l
    by (simp_all add: disable_paging_def dir_entry_def tab_entry_def)
  then show ?thesis using b by (auto simp: walk_def grants_def)
qed

end
