(* ===== verification/Fs_Disk.thy ===== *)
theory Fs_Disk
  imports Fs_Mount Ata
begin

text \<open>
  The file system on the disk driver. The file system model reads and writes whole blocks of an array, the driver moves words
  through ports. Here the driver's calls \<open>ata_read_blocks\<close> and \<open>ata_write_blocks\<close> are shown to do on the drive what
  \<open>load_blocks\<close> and \<open>store_blocks\<close> do on the array.
\<close>

section \<open>Blocks as words\<close>

definition disk_agrees :: "drive_state \<Rightarrow> kernel \<Rightarrow> bool" where
  "disk_agrees d k \<longleftrightarrow> (\<forall>b < 33554432. disk k b = disk_bytes (disk_words d) (2048 * b) 2048)"

lemma block_lba:
  assumes "b < 33554432"
  shows "unat (take_bit 28 (of_nat b * SECTORS_PER_BLOCK)) = 8 * b"
proof -
  have "of_nat b * SECTORS_PER_BLOCK = (of_nat (8 * b) :: u32)" by (simp add: SECTORS_PER_BLOCK_def)
  moreover have "unat (of_nat (8 * b) :: u32) = 8 * b" using assms by (subst unat_of_nat) simp
  moreover have "take_bit 28 (8 * b) = 8 * b" using assms by (intro take_bit_nat_eq_self) simp
  ultimately show ?thesis by (simp add: unsigned_take_bit_eq)
qed

lemma block_count: "SECTORS_PER_BLOCK * of_nat n = of_nat (8 * n)"
  by (simp add: SECTORS_PER_BLOCK_def)

lemma load_blocks_agrees:
  assumes "disk_agrees d k" and "b + n \<le> 33554432"
  shows "load_blocks b n k = disk_bytes (disk_words d) (2048 * b) (2048 * n)"
  using assms(2)
proof (induction n)
  case (Suc n)
  have "load_blocks b (Suc n) k = load_blocks b n k @ read_block k (b + n)" by (simp add: load_blocks_def)
  moreover have "read_block k (b + n) = disk_bytes (disk_words d) (2048 * b + 2048 * n) 2048"
    using assms(1) Suc.prems by (simp add: disk_agrees_def read_block_def disk_block_def algebra_simps)
  moreover have "2048 * Suc n = 2048 * n + 2048" by simp
  ultimately show ?case using Suc by (simp only: disk_bytes_add)
qed (simp add: load_blocks_def)

lemma disk_bytes_within:
  assumes "off + m \<le> n" and "2 * n \<le> length bs"
  shows "disk_bytes (store_words ws a bs n) (a + off) m = take (2 * m) (drop (2 * off) bs)"
proof -
  have "disk_bytes (store_words ws a bs n) (a + off) m = disk_bytes (store_words ws (a + off) (drop (2 * off) bs) m) (a + off) m"
    by (rule disk_bytes_cong) (use assms in \<open>simp add: store_words_def algebra_simps\<close>)
  also have "\<dots> = take (2 * m) (drop (2 * off) bs)" by (rule disk_bytes_stored) (use assms in simp)
  finally show ?thesis .
qed

lemma store_blocks_agrees:
  assumes "disk_agrees d k" and "b + n \<le> 33554432" and "4096 * n \<le> length bytes"
    and "disk_words d' = store_words (disk_words d) (2048 * b) bytes (2048 * n)"
  shows "disk_agrees d' (store_blocks b bytes n k)"
  unfolding disk_agrees_def
proof (intro allI impI)
  fix c :: nat assume c: "c < 33554432"
  have "disk (store_blocks b bytes n k) c = (if b \<le> c \<and> c < b + n then take 4096 (drop (4096 * (c - b)) bytes) else disk k c)"
    using read_after_write_blocks [of b n c bytes k] assms(2) c by (simp add: read_block_def disk_block_def)
  also have "\<dots> = disk_bytes (disk_words d') (2048 * c) 2048"
  proof (cases "b \<le> c \<and> c < b + n")
    case True
    then have "2048 * c = 2048 * b + 2048 * (c - b)" by (simp add: algebra_simps)
    then show ?thesis
      using True assms(3) disk_bytes_within [of "2048 * (c - b)" 2048 "2048 * n" bytes "disk_words d" "2048 * b"] by (simp add: assms(4))
  next
    case False
    then have "2048 * c + 2048 \<le> 2048 * b \<or> 2048 * b + 2048 * n \<le> 2048 * c" by linarith
    then have "disk_bytes (disk_words d') (2048 * c) 2048 = disk k c" using assms(1) c by (simp add: assms(4) disk_bytes_elsewhere disk_agrees_def)
    then show ?thesis using False by auto
  qed
  finally show "disk (store_blocks b bytes n k) c = disk_bytes (disk_words d') (2048 * c) 2048" .
qed

section \<open>Properties\<close>

text \<open>C23: The driver implements the disk of the file system. On a drive that keeps the documented protocol and whose contents are the blocks of the file
  system's disk, \<open>ata_write_blocks\<close> of up to 31 blocks returns with the drive holding the disk as \<open>store_blocks\<close> leaves it,
  and \<open>ata_read_blocks\<close> returns with the bytes of \<open>load_blocks\<close> in the buffer and the disk as it was.\<close>

theorem driver_implements_blocks:
  assumes "compliant dev d0" and "disk_agrees (drive d0 t) k" and "0 < n" and "n \<le> 31" and "b + n \<le> 33554432" and "4096 * n \<le> length buf"
  shows "(\<exists>t'. ata_write_blocks dev (of_nat b) buf (of_nat n) t = Some (Inr t') \<and> disk_agrees (drive d0 t') (store_blocks b buf n k)) \<and>
    (\<exists>t'. ata_read_blocks dev (of_nat b) buf (of_nat n) t = Some (Inr (load_blocks b n k @ drop (4096 * n) buf, t')) \<and> disk_agrees (drive d0 t') k)"
proof -
  have lba: "unat (take_bit 28 (of_nat b * SECTORS_PER_BLOCK)) = 8 * b" using block_lba assms(3,5) by simp
  have n: "0 < 8 * n" "8 * n < 256" "8 * n * 512 \<le> length buf" using assms(3,4,6) by simp_all
  obtain t1 where t1: "ata_write_blocks dev (of_nat b) buf (of_nat n) t = Some (Inr t1)"
      "disk_words (drive d0 t1) = store_words (disk_words (drive d0 t)) (2048 * b) buf (2048 * n)"
    using ata_write_sectors_ok [OF assms(1) n, of "of_nat b * SECTORS_PER_BLOCK" t] unfolding ata_write_blocks_def block_count lba by auto
  obtain t2 where t2: "ata_read_blocks dev (of_nat b) buf (of_nat n) t =
      Some (Inr (overlay 0 (disk_bytes (disk_words (drive d0 t)) (2048 * b) (2048 * n)) buf, t2))" "disk_words (drive d0 t2) = disk_words (drive d0 t)"
    using ata_read_sectors_ok [OF assms(1) n, of "of_nat b * SECTORS_PER_BLOCK" t] unfolding ata_read_blocks_def block_count lba by auto
  have "overlay 0 (disk_bytes (disk_words (drive d0 t)) (2048 * b) (2048 * n)) buf = load_blocks b n k @ drop (4096 * n) buf"
    using load_blocks_agrees [OF assms(2,5)] by (simp add: overlay_def)
  moreover have "disk_agrees (drive d0 t2) k" using assms(2) t2(2) by (simp add: disk_agrees_def)
  ultimately show ?thesis using store_blocks_agrees [OF assms(2,5,6) t1(2)] t1(1) t2(1) by auto
qed

theorem driver_implements_blocks_witness:
  "\<exists>t'. ata_write_blocks (prompt_drive blank_disk) (of_nat 8) (replicate 4096 7) (of_nat 1) [] = Some (Inr t') \<and>
    disk_agrees (drive blank_disk t') (store_blocks 8 (replicate 4096 7) 1 (root_kernel\<lparr>disk := \<lambda>b. disk_bytes (\<lambda>_. 0) (2048 * b) 2048\<rparr>))"
proof -
  let ?k = "root_kernel\<lparr>disk := \<lambda>b. disk_bytes (\<lambda>_. 0) (2048 * b) 2048\<rparr>"
  have "disk_agrees (drive blank_disk []) ?k" by (simp add: disk_agrees_def blank_disk_def)
  from driver_implements_blocks [OF prompt_drive_compliant this, of 1 8 "replicate 4096 7"] show ?thesis by auto
qed

end
