(* ===== verification/Dyn_String.thy ===== *)
theory Dyn_String
  imports Fs
begin

text \<open>
  Growing strings and lists of strings on the kernel heap (the macro \<open>APPEND\<close> and the types of \<open>src/include/alloc.h\<close>, \<open>concat\<close>,
  \<open>string_split\<close>, \<open>free_string\<close> and \<open>free_string_list\<close> of \<open>src/src/alloc.c\<close>).

  \<open>String\<close> and \<open>StringList\<close> have the same three members, here the record \<open>dyn\<close>; the elements of the one are bytes, those of the other
  the 12 bytes of a \<open>String\<close>. The heap is a pair of the allocator and the memory behind it, as in \<open>Heap\<close>.
\<close>

section \<open>Definitions\<close>

record dyn =
  d_len :: nat
  d_capacity :: nat
  d_contents :: nat

type_synonym hstate = "AllocArray \<times> u8 list"

definition no_dyn :: dyn where
  "no_dyn = \<lparr>d_len = 0, d_capacity = 0, d_contents = 0\<rparr>"

text \<open>Storing bytes at an address of the heap.\<close>

definition put :: "AllocArray \<Rightarrow> u8 list \<Rightarrow> nat \<Rightarrow> u8 list \<Rightarrow> u8 list res" where
  "put a mem ptr bs =
     obind (heap_off a ptr) (\<lambda>off. if off + length bs \<le> length mem then Inr (overlay off bs mem) else Inl Out_of_bounds)"

text \<open>\<open>APPEND(s, c)\<close> for elements of \<open>sz\<close> bytes; \<open>el\<close> are the bytes of \<open>c\<close>.\<close>

definition APPEND :: "nat \<Rightarrow> u8 list \<Rightarrow> dyn \<Rightarrow> hstate \<Rightarrow> (dyn \<times> hstate) res" where
  "APPEND sz el s = (\<lambda>(a, mem).
     if d_capacity s = 0 then
       obind (kcalloc a mem 2 sz) (\<lambda>(p, a1, mem1).
       obind (put a1 mem1 p el) (\<lambda>mem2. Inr (\<lparr>d_len = 1, d_capacity = 2, d_contents = p\<rparr>, a1, mem2)))
     else if d_len s = d_capacity s then
       obind (krealloc a mem (d_contents s) (w32 (sz * d_capacity s * 2))) (\<lambda>(p, a1, mem1).
       obind (put a1 mem1 (w32 (p + sz * d_len s)) el) (\<lambda>mem2.
         Inr (\<lparr>d_len = w32 (d_len s + 1), d_capacity = w32 (d_capacity s * 2), d_contents = p\<rparr>, a1, mem2)))
     else
       obind (put a mem (w32 (d_contents s + sz * d_len s)) el) (\<lambda>mem1. Inr (s\<lparr>d_len := w32 (d_len s + 1)\<rparr>, a, mem1)))"

definition string_bytes :: "dyn \<Rightarrow> u8 list" where
  "string_bytes s = le32 (d_len s) @ le32 (d_capacity s) @ le32 (d_contents s)"

definition rd_string :: "u8 list \<Rightarrow> nat \<Rightarrow> dyn res" where
  "rd_string mem off =
     obind (rd_le32 mem off) (\<lambda>l. obind (rd_le32 mem (off + 4)) (\<lambda>c. obind (rd_le32 mem (off + 8)) (\<lambda>p.
       Inr \<lparr>d_len = l, d_capacity = c, d_contents = p\<rparr>)))"

function concat_loop :: "u8 list \<Rightarrow> nat \<Rightarrow> dyn \<Rightarrow> hstate \<Rightarrow> (dyn \<times> hstate) res" where
  "concat_loop src i dst st =
     obind (rd src i) (\<lambda>c. if c \<noteq> 0 then obind (APPEND 1 [c] dst st) (\<lambda>(dst1, st1). concat_loop src (i + 1) dst1 st1) else Inr (dst, st))"
  by pat_completeness auto
termination
  by (relation "measure (\<lambda>(src, i, dst, st). length src - i)") (auto simp: rd_Inr_iff)

declare concat_loop.simps [simp del]

definition concat_string :: "dyn \<Rightarrow> u8 list \<Rightarrow> nat \<Rightarrow> hstate \<Rightarrow> (dyn \<times> hstate) res" where
  "concat_string dst src off st = concat_loop src off dst st"

text \<open>\<open>string_split\<close>; \<open>s\<close> is the string from \<open>i\<close> on, in an array of its own.\<close>

function split_loop :: "u8 list \<Rightarrow> nat \<Rightarrow> u8 \<Rightarrow> bool \<Rightarrow> bool \<Rightarrow> dyn \<Rightarrow> dyn \<Rightarrow> hstate \<Rightarrow> (dyn \<times> dyn \<times> hstate) res" where
  "split_loop s i delim reserve_quotes in_string cur sl st =
     obind (rd s i) (\<lambda>c.
       if c \<noteq> 0 then
         let in_string1 = (if c = 34 then \<not> in_string else in_string) in
         if c = delim \<and> (\<not> in_string1 \<or> \<not> reserve_quotes) then
           obind (APPEND 1 [0] cur st) (\<lambda>(cur1, st1).
           obind (APPEND 12 (string_bytes cur1) sl st1) (\<lambda>(sl1, st2).
             split_loop s (i + 1) delim reserve_quotes in_string1 (cur1\<lparr>d_capacity := 0\<rparr>) sl1 st2))
         else
           obind (APPEND 1 [c] cur st) (\<lambda>(cur1, st1). split_loop s (i + 1) delim reserve_quotes in_string1 cur1 sl st1)
       else Inr (cur, sl, st))"
  by pat_completeness auto
termination
  by (relation "measure (\<lambda>(s, i, d, r, q, c, l, st). length s - i)") (auto simp: rd_Inr_iff)

declare split_loop.simps [simp del]

definition string_split :: "u8 list \<Rightarrow> nat \<Rightarrow> u8 \<Rightarrow> bool \<Rightarrow> hstate \<Rightarrow> (dyn \<times> hstate) res" where
  "string_split s off delim reserve_quotes st =
     obind (split_loop s off delim reserve_quotes False no_dyn no_dyn st) (\<lambda>(cur, sl, st1).
       if 0 < d_len cur then
         obind (APPEND 1 [0] cur st1) (\<lambda>(cur1, st2). APPEND 12 (string_bytes cur1) sl st2)
       else Inr (sl, st1))"

fun free_loop :: "nat \<Rightarrow> nat \<Rightarrow> hstate \<Rightarrow> hstate res" where
  "free_loop 0 contents st = Inr st"
| "free_loop (Suc n) contents (a, mem) =
     obind (heap_off a contents) (\<lambda>off. obind (rd_string mem off) (\<lambda>s. obind (kfree a (d_contents s)) (\<lambda>a1. free_loop n contents (a1, mem))))"

definition free_string_list :: "dyn \<Rightarrow> hstate \<Rightarrow> hstate res" where
  "free_string_list sl st =
     obind (free_loop (d_len sl) (d_contents sl) st) (\<lambda>(a, mem). obind (kfree a (d_contents sl)) (\<lambda>a1. Inr (a1, mem)))"

definition free_string :: "dyn \<Rightarrow> hstate \<Rightarrow> hstate res" where
  "free_string s = (\<lambda>(a, mem). obind (kfree a (d_contents s)) (\<lambda>a1. Inr (a1, mem)))"

section \<open>Room on the heap\<close>

text \<open>\<open>hi\<close> bounds the offset of every byte in use.\<close>

definition heap_ready :: "AllocArray \<Rightarrow> nat \<Rightarrow> bool" where
  "heap_ready a hi \<longleftrightarrow> heap_inv a \<and> (\<forall>p n. heap_live a p = Some n \<longrightarrow> bottom a \<le> p \<and> p + n \<le> bottom a + hi)"

lemma heap_table: "heap_inv a \<Longrightarrow> table_ok (\<lambda>s. bottom a + s) 32768 (entries a)"
  by (simp add: heap_inv_def)

lemma heap_ready_used: "heap_ready a hi \<Longrightarrow> bm_used (bitmap a) \<subseteq> {..<hi}"
proof
  fix s assume r: "heap_ready a hi" and "s \<in> bm_used (bitmap a)"
  then have inv: "heap_inv a" by (simp add: heap_ready_def)
  then obtain rg where "rg \<in> set (live_ranges (entries a))" "s \<in> br_set rg"
    using \<open>s \<in> bm_used (bitmap a)\<close> by (auto simp: heap_inv_def heap_bm.tracks_def)
  then obtain i where i: "i < length (entries a)" "utilized (entries a ! i)" "s \<in> br_set (ae_range (entries a ! i))"
    by (auto simp: live_ranges_def in_set_conv_nth)
  have "heap_live a (base_ptr (entries a ! i)) = Some (br_length (ae_range (entries a ! i)))"
    using heap_live_iff [OF heap_table [OF inv]] i(1,2) by blast
  moreover have "base_ptr (entries a ! i) = bottom a + br_start (ae_range (entries a ! i))"
    using heap_table [OF inv] i(1,2) by (simp add: table_ok_def table_inv_def)
  ultimately have "br_start (ae_range (entries a ! i)) + br_length (ae_range (entries a ! i)) \<le> hi" using r by (fastforce simp: heap_ready_def)
  then show "s \<in> {..<hi}" using i(3) by (simp add: br_set_def)
qed

lemma heap_live_dom: "heap_inv a \<Longrightarrow> dom (heap_live a) = (\<lambda>i. base_ptr (entries a ! i)) ` {i. i < 256 \<and> utilized (entries a ! i)}"
  using heap_live_iff [OF heap_table, of a] heap_inv_lengths(2) [of a] by (auto simp: MAX_ALLOCATIONS_def)

lemma finite_heap_live [simp]: "heap_inv a \<Longrightarrow> finite (dom (heap_live a))"
  by (simp add: heap_live_dom)

lemma entry_free:
  assumes inv: "heap_inv a" and "card (dom (heap_live a)) < 256"
  shows "\<not> (\<forall>e \<in> set (entries a). utilized e)"
proof
  assume all: "\<forall>e \<in> set (entries a). utilized e"
  have len: "length (entries a) = 256" using heap_inv_lengths(2) [OF inv] by (simp add: MAX_ALLOCATIONS_def)
  have u: "utilized (entries a ! i)" if "i < 256" for i using all that len by simp
  have "inj_on (\<lambda>i. base_ptr (entries a ! i)) {..<256}"
    using table_ok_unique [OF heap_table [OF inv]] u len by (simp add: inj_on_def)
  moreover have "dom (heap_live a) = (\<lambda>i. base_ptr (entries a ! i)) ` {..<256}" unfolding heap_live_dom [OF inv] using u by auto
  ultimately show False using assms(2) by (simp add: card_image)
qed

lemma kmalloc_ready:
  assumes r: "heap_ready a hi" and n: "0 < n" "hi + 3 + n \<le> 8192" and c: "card (dom (heap_live a)) < 256"
  shows "\<exists>p a'. kmalloc a n = Inr (p, a') \<and> heap_ready a' (hi + 3 + n) \<and> bottom a' = bottom a \<and> heap_live a p = None \<and>
    heap_live a' = (heap_live a)(p \<mapsto> n) \<and> bottom a \<le> p \<and> p + n \<le> bottom a + (hi + 3 + n)"
proof -
  have inv: "heap_inv a" using r by (simp add: heap_ready_def)
  obtain s a' where k: "kmalloc a n = Inr (bottom a + s, a')" "s \<le> hi + 3"
    using kmalloc_low [OF inv n(1) heap_ready_used [OF r] entry_free [OF inv c] n(2)] by blast
  note q = kmalloc_result [OF inv n(1) k(1)]
  have "heap_ready a' (hi + 3 + n)"
    using q(1,2,4) r k(2) unfolding heap_ready_def by (auto split: if_splits) fastforce
  then show ?thesis using k q by auto
qed

section \<open>Appending\<close>

definition cells :: "AllocArray \<Rightarrow> u8 list \<Rightarrow> nat \<Rightarrow> nat \<Rightarrow> u8 list" where
  "cells a mem p n = take n (drop (p - bottom a) mem)"

lemma cells_take: "m \<le> n \<Longrightarrow> take m (cells a mem p n) = cells a mem p m"
  by (simp add: cells_def min_absorb1)

text \<open>Everything in use but the blocks of \<open>S\<close> is still in use and holds the same bytes.\<close>

definition keeps :: "nat set \<Rightarrow> hstate \<Rightarrow> hstate \<Rightarrow> bool" where
  "keeps S = (\<lambda>(a, mem) (a', mem'). bottom a' = bottom a \<and> length mem' = length mem \<and>
     (\<forall>q k. heap_live a q = Some k \<and> q \<notin> S \<longrightarrow> heap_live a' q = Some k \<and> cells a' mem' q k = cells a mem q k))"

lemma keeps_trans: "keeps S (a, m) (a1, m1) \<Longrightarrow> keeps T (a1, m1) (a2, m2) \<Longrightarrow> keeps (S \<union> T) (a, m) (a2, m2)"
  unfolding keeps_def by simp

lemma overlay_end:
  assumes "off + m + length ys \<le> length mem"
  shows "take (m + length ys) (drop off (overlay (off + m) ys mem)) = take m (drop off mem) @ ys"
  using assms by (intro nth_equalityI) (auto simp: nth_overlay nth_append)

lemma block_ends:
  assumes "heap_ready a hi" and "heap_live a p = Some n"
  shows "bottom a \<le> p" and "p - bottom a + n \<le> hi" and "hi \<le> 8192 \<Longrightarrow> p + n < 4294967296"
proof -
  have e: "bottom a \<le> p" "p + n \<le> bottom a + hi" "bottom a + 32768 \<le> 4294967296" using assms by (auto simp: heap_ready_def heap_inv_def)
  show "bottom a \<le> p" by (rule e(1))
  show "p - bottom a + n \<le> hi" using e by linarith
  show "p + n < 4294967296" if "hi \<le> 8192" using e that by linarith
qed

lemma other_block_kept:
  assumes r: "heap_ready a hi" "hi \<le> length mem" and p: "heap_live a p = Some n" "i + length bs \<le> n" and q: "heap_live a q = Some k" "q \<noteq> p"
  shows "cells a (overlay (p - bottom a + i) bs mem) q k = cells a mem q k"
proof (cases "k = 0 \<or> bs = []")
  case False
  have inv: "heap_inv a" using r(1) by (simp add: heap_ready_def)
  note e = block_ends [OF r(1) p(1)] block_ends [OF r(1) q(1)]
  have "{p ..< p + n} \<inter> {q ..< q + k} = {}" by (rule heap_live_disjoint [OF inv p(1) q(1)]) (use q(2) in simp)
  then have "p + n \<le> q \<or> q + k \<le> p" using False p(2) by (cases "p \<le> q") (auto simp: disjoint_iff)
  then show ?thesis unfolding cells_def using e r(2) p(2) by (intro take_drop_overlay_other) auto
qed (auto simp: cells_def)

text \<open>The bytes \<open>bs\<close> of the elements of \<open>s\<close>. A capacity of 0 is an empty vector, whatever the other members are.\<close>

definition vec :: "AllocArray \<Rightarrow> u8 list \<Rightarrow> nat \<Rightarrow> dyn \<Rightarrow> u8 list \<Rightarrow> bool" where
  "vec a mem sz s bs \<longleftrightarrow>
     (if d_capacity s = 0 then bs = []
      else d_len s \<le> d_capacity s \<and> d_capacity s \<le> 2 * d_len s \<and> length bs = sz * d_len s \<and>
        heap_live a (d_contents s) = Some (sz * d_capacity s) \<and> cells a mem (d_contents s) (sz * d_len s) = bs)"

text \<open>The same without the bound on the capacity, which a vector that was shortened may exceed.\<close>

definition held :: "AllocArray \<Rightarrow> u8 list \<Rightarrow> nat \<Rightarrow> dyn \<Rightarrow> u8 list \<Rightarrow> bool" where
  "held a mem sz s bs \<longleftrightarrow>
     (if d_capacity s = 0 then bs = []
      else d_len s \<le> d_capacity s \<and> length bs = sz * d_len s \<and> heap_live a (d_contents s) = Some (sz * d_capacity s) \<and>
        cells a mem (d_contents s) (sz * d_len s) = bs)"

lemma vec_iff_held: "vec a mem sz s bs \<longleftrightarrow> held a mem sz s bs \<and> (0 < d_capacity s \<longrightarrow> d_capacity s \<le> 2 * d_len s)"
  by (auto simp: vec_def held_def)

definition own :: "dyn \<Rightarrow> nat list" where
  "own s = (if d_capacity s = 0 then [] else [d_contents s])"

definition cost :: "nat \<Rightarrow> dyn \<Rightarrow> nat" where
  "cost sz s = (2 * sz + 3) * d_capacity s"

lemma held_kept:
  assumes "held a mem sz s bs" and "keeps S (a, mem) (a', mem')" and "set (own s) \<inter> S = {}"
  shows "held a' mem' sz s bs"
proof (cases "d_capacity s = 0")
  case False
  have v: "d_len s \<le> d_capacity s" "length bs = sz * d_len s" "heap_live a (d_contents s) = Some (sz * d_capacity s)" "cells a mem (d_contents s) (sz * d_len s) = bs"
    using assms(1) False by (simp_all add: held_def)
  have k: "heap_live a' (d_contents s) = Some (sz * d_capacity s)"
      "cells a' mem' (d_contents s) (sz * d_capacity s) = cells a mem (d_contents s) (sz * d_capacity s)"
    using assms(2,3) v(3) False by (auto simp: keeps_def own_def)
  have "sz * d_len s \<le> sz * d_capacity s" using v(1) by simp
  then have "cells a' mem' (d_contents s) (sz * d_len s) = cells a mem (d_contents s) (sz * d_len s)"
    using k(2) cells_take [of "sz * d_len s" "sz * d_capacity s"] by metis
  then show ?thesis using assms(1) False k(1) by (simp add: held_def)
qed (use assms(1) in \<open>simp add: held_def\<close>)

lemma vec_kept:
  "vec a mem sz s bs \<Longrightarrow> keeps S (a, mem) (a', mem') \<Longrightarrow> set (own s) \<inter> S = {} \<Longrightarrow> vec a' mem' sz s bs"
  using held_kept [of a mem sz s bs S a' mem'] by (auto simp: vec_iff_held)

lemma put_block:
  assumes r: "heap_ready a hi" "hi \<le> length mem" "hi \<le> 8192" and p: "heap_live a p = Some n" "i + length bs \<le> n"
  shows "put a mem (w32 (p + i)) bs = Inr (overlay (p - bottom a + i) bs mem)"
    and "keeps {p} (a, mem) (a, overlay (p - bottom a + i) bs mem)"
    and "take (i + length bs) (cells a (overlay (p - bottom a + i) bs mem) p n) = take i (cells a mem p n) @ bs"
proof -
  note e = block_ends [OF r(1) p(1)]
  have fit: "p - bottom a + i + length bs \<le> length mem" using e r p(2) by linarith
  have w: "w32 (p + i) = p + i" using e(3) r(3) p(2) by simp
  have "p + i - bottom a = p - bottom a + i" using e(1) by simp
  then show "put a mem (w32 (p + i)) bs = Inr (overlay (p - bottom a + i) bs mem)"
    using w e(1) fit by (simp add: put_def heap_off_def)
  show "keeps {p} (a, mem) (a, overlay (p - bottom a + i) bs mem)"
    using other_block_kept [OF r(1,2) p] fit by (simp add: keeps_def)
  show "take (i + length bs) (cells a (overlay (p - bottom a + i) bs mem) p n) = take i (cells a mem p n) @ bs"
    using overlay_end [OF fit] p(2) unfolding cells_def by (simp add: min_absorb1)
qed

lemma APPEND_first:
  assumes r: "heap_ready a hi" and mem: "hi + 3 + 2 * sz \<le> length mem" "length mem \<le> 8192" and c: "card (dom (heap_live a)) < 256"
    and s: "d_capacity s = 0" and el: "length el = sz" "0 < sz"
  shows "\<exists>p a' mem'. APPEND sz el s (a, mem) = Inr (\<lparr>d_len = 1, d_capacity = 2, d_contents = p\<rparr>, a', mem') \<and>
    vec a' mem' sz \<lparr>d_len = 1, d_capacity = 2, d_contents = p\<rparr> el \<and> heap_ready a' (hi + 3 + 2 * sz) \<and> keeps {} (a, mem) (a', mem') \<and>
    heap_live a p = None \<and> heap_live a' = (heap_live a)(p \<mapsto> 2 * sz)"
proof -
  have n: "w32 (2 * sz) = 2 * sz" "0 < 2 * sz" using mem el(2) by simp_all
  obtain p a' where k: "kmalloc a (2 * sz) = Inr (p, a')" "heap_ready a' (hi + 3 + 2 * sz)" "bottom a' = bottom a" "heap_live a p = None"
      "heap_live a' = (heap_live a)(p \<mapsto> 2 * sz)" "bottom a \<le> p" "p + 2 * sz \<le> bottom a + (hi + 3 + 2 * sz)"
    using kmalloc_ready [OF r n(2) _ c] mem by auto
  let ?m = "overlay (p - bottom a) (replicate (2 * sz) 0) mem"
  have inv: "heap_inv a" using r by (simp add: heap_ready_def)
  have kc: "kcalloc a mem 2 sz = Inr (p, a', ?m)"
    using kcalloc_zeroes [OF inv, of 2 sz p a' mem] k(1,6,7) n mem by simp
  have lp: "heap_live a' p = Some (2 * sz)" using k(5) by simp
  have keep1: "keeps {} (a, mem) (a', ?m)"
    unfolding keeps_def using k(3-7) mem(1) other_block_kept [OF k(2) mem(1) lp, of 0 "replicate (2 * sz) 0"]
    by (auto simp: cells_def)
  have lm: "hi + 3 + 2 * sz \<le> length ?m" using k(6,7) mem by simp
  note pb = put_block [OF k(2) lm _ lp, of 0 el]
  let ?m2 = "overlay (p - bottom a' + 0) el ?m"
  have wp: "w32 (p + 0) = p" using block_ends(3) [OF k(2) lp] mem by simp
  have "APPEND sz el s (a, mem) = Inr (\<lparr>d_len = 1, d_capacity = 2, d_contents = p\<rparr>, a', ?m2)"
    using s kc pb(1) wp mem el by (simp add: APPEND_def)
  moreover have "vec a' ?m2 sz \<lparr>d_len = 1, d_capacity = 2, d_contents = p\<rparr> el"
    using pb(3) mem el lp unfolding vec_def cells_def by (simp add: min_absorb1)
  moreover have "keeps {} (a, mem) (a', ?m2)"
    using keep1 pb(2) mem el k(4) unfolding keeps_def by fastforce
  ultimately show ?thesis using k by blast
qed

lemma APPEND_grow:
  assumes r: "heap_ready a hi" and mem: "hi + 3 + 2 * (sz * d_capacity s) \<le> length mem" "length mem \<le> 8192" and c: "card (dom (heap_live a)) < 256"
    and s: "0 < d_capacity s" "d_len s = d_capacity s" "vec a mem sz s bs" and el: "length el = sz" "0 < sz"
  shows "\<exists>p a' mem'. APPEND sz el s (a, mem) = Inr (\<lparr>d_len = d_len s + 1, d_capacity = 2 * d_capacity s, d_contents = p\<rparr>, a', mem') \<and>
    vec a' mem' sz \<lparr>d_len = d_len s + 1, d_capacity = 2 * d_capacity s, d_contents = p\<rparr> (bs @ el) \<and>
    heap_ready a' (hi + 3 + 2 * (sz * d_capacity s)) \<and> keeps {d_contents s} (a, mem) (a', mem') \<and>
    heap_live a p = None \<and> heap_live a' = (heap_live a)(p \<mapsto> 2 * (sz * d_capacity s), d_contents s := None)"
proof -
  let ?m = "sz * d_capacity s" and ?q = "d_contents s" and ?hi = "hi + 3 + 2 * (sz * d_capacity s)"
  have m0: "0 < ?m" using s(1) el(2) by simp
  have v: "length bs = ?m" "heap_live a ?q = Some ?m" "cells a mem ?q ?m = bs" using s by (simp_all add: vec_def)
  obtain p a1 where k: "kmalloc a (2 * ?m) = Inr (p, a1)" "heap_ready a1 ?hi" "bottom a1 = bottom a" "heap_live a p = None"
      "heap_live a1 = (heap_live a)(p \<mapsto> 2 * ?m)" "bottom a \<le> p" "p + 2 * ?m \<le> bottom a + ?hi"
    using kmalloc_ready [OF r _ _ c, of "2 * ?m"] mem m0 by auto
  have pq: "p \<noteq> ?q" using k(4) v(2) by auto
  have inv1: "heap_inv a1" using k(2) by (simp add: heap_ready_def)
  have lq: "heap_live a1 ?q = Some ?m" using k(5) v(2) pq by simp
  obtain rg a2 where rl: "release_entry a1 ?q = Inr (Some (rg, a2))" "br_length rg = ?m" "heap_inv a2" "heap_live a2 = (heap_live a1)(?q := None)" "bottom a2 = bottom a1"
    using release_entry_live [OF inv1 lq] by blast
  note eq = block_ends [OF r v(2)]
  have e1: "p - bottom a + 2 * ?m \<le> ?hi" using k(6,7) by linarith
  let ?mem1 = "overlay (p - bottom a) bs mem"
  have w: "w32 (sz * d_capacity s * 2) = 2 * ?m" using mem by (simp add: mult.commute)
  have act: "active a" using r by (simp add: heap_ready_def heap_inv_def)
  have "take ?m (drop (?q - bottom a) mem) = bs" using v(3) by (simp add: cells_def)
  moreover have "?q - bottom a + ?m \<le> length mem" "p - bottom a + ?m \<le> length mem" using eq(2) e1 mem by linarith+
  ultimately have kr: "krealloc a mem ?q (w32 (sz * d_capacity s * 2)) = Inr (p, a2, ?mem1)"
    unfolding w using k(1,3,6) rl(1,2,5) eq(1) act by (simp add: krealloc_def heap_off_def memmove_overlay)
  have r2: "heap_ready a2 ?hi" using k(2) rl(3,4,5) by (simp add: heap_ready_def)
  have lp: "heap_live a2 p = Some (2 * ?m)" using rl(4) k(5) pq by simp
  have lm: "length ?mem1 = length mem" using e1 mem v(1) by simp
  have hm: "?hi \<le> length ?mem1" "?hi \<le> 8192" using mem lm by simp_all
  have keep1: "keeps {?q} (a, mem) (a2, ?mem1)"
    unfolding keeps_def using other_block_kept [OF r2 mem(1) lp, of 0 bs] rl(4,5) k(3,4,5) lm v(1) m0 by (auto simp: cells_def)
  have fit: "?m + length el \<le> 2 * ?m" using el s(1) by (cases "d_capacity s") simp_all
  note pb = put_block [OF r2 hm lp fit]
  let ?m2 = "overlay (p - bottom a2 + ?m) el ?mem1"
  have "bottom a2 = bottom a" using rl(5) k(3) by simp
  then have "take ?m (cells a2 ?mem1 p (2 * ?m)) = bs" using v(1) e1 mem unfolding cells_def by (simp add: min_absorb1 overlay_def)
  then have cs: "take (?m + length el) (cells a2 ?m2 p (2 * ?m)) = bs @ el" using pb(3) by simp
  have dl: "w32 (d_len s + 1) = d_len s + 1" "w32 (d_capacity s * 2) = 2 * d_capacity s"
  proof -
    have "d_capacity s \<le> sz * d_capacity s" using el(2) by simp
    then have "d_capacity s < 8192" using mem by linarith
    then show "w32 (d_len s + 1) = d_len s + 1" "w32 (d_capacity s * 2) = 2 * d_capacity s" using s(2) by simp_all
  qed
  have "APPEND sz el s (a, mem) = Inr (\<lparr>d_len = d_len s + 1, d_capacity = 2 * d_capacity s, d_contents = p\<rparr>, a2, ?m2)"
    using s(1,2) kr pb(1) dl by (simp add: APPEND_def)
  moreover have "vec a2 ?m2 sz \<lparr>d_len = d_len s + 1, d_capacity = 2 * d_capacity s, d_contents = p\<rparr> (bs @ el)"
  proof -
    have "cells a2 ?m2 p (sz * (d_len s + 1)) = take (?m + length el) (cells a2 ?m2 p (2 * ?m))"
      using fit el(1) s(2) unfolding cells_def by (simp add: min_absorb1 algebra_simps)
    then show ?thesis using s(1,2) lp v(1) el(1) cs by (simp add: vec_def algebra_simps)
  qed
  moreover have "keeps {?q} (a, mem) (a2, ?m2)"
    using keep1 pb(2) k(4) unfolding keeps_def by fastforce
  ultimately show ?thesis using r2 k(4) rl(4) k(5) by auto
qed

lemma APPEND_inside:
  assumes r: "heap_ready a hi" and mem: "hi \<le> length mem" "hi \<le> 8192"
    and s: "0 < d_capacity s" "d_len s \<noteq> d_capacity s" "held a mem sz s bs" and el: "length el = sz" "0 < sz"
  shows "\<exists>mem'. APPEND sz el s (a, mem) = Inr (s\<lparr>d_len := d_len s + 1\<rparr>, a, mem') \<and>
    held a mem' sz (s\<lparr>d_len := d_len s + 1\<rparr>) (bs @ el) \<and> keeps {d_contents s} (a, mem) (a, mem')"
proof -
  let ?m = "sz * d_len s" and ?n = "sz * d_capacity s" and ?q = "d_contents s"
  have v: "length bs = ?m" "heap_live a ?q = Some ?n" "cells a mem ?q ?m = bs" "d_len s < d_capacity s"
    using s by (simp_all add: held_def)
  have "Suc (d_len s) \<le> d_capacity s" using v(4) by simp
  then have fit: "?m + length el \<le> ?n" using el(1) mult_le_mono2 [of "Suc (d_len s)" "d_capacity s" sz] by simp
  note pb = put_block [OF r mem v(2) fit]
  let ?m2 = "overlay (?q - bottom a + ?m) el mem"
  have "?n \<le> hi" using block_ends(2) [OF r v(2)] by simp
  moreover have "d_capacity s \<le> ?n" using el(2) by simp
  ultimately have "d_capacity s \<le> 8192" using mem by linarith
  then have "w32 (d_len s + 1) = d_len s + 1" using v(4) by simp
  then have "APPEND sz el s (a, mem) = Inr (s\<lparr>d_len := d_len s + 1\<rparr>, a, ?m2)" using s(1,2) pb(1) by (simp add: APPEND_def)
  moreover have "held a ?m2 sz (s\<lparr>d_len := d_len s + 1\<rparr>) (bs @ el)"
  proof -
    have "take ?m (cells a mem ?q ?n) = bs" using v(3) add_leD1 [OF fit] by (simp add: cells_take)
    moreover have "cells a ?m2 ?q (sz * (d_len s + 1)) = take (?m + length el) (cells a ?m2 ?q ?n)"
      using fit el(1) unfolding cells_def by (simp add: min_absorb1 algebra_simps)
    ultimately show ?thesis using s(1) v el(1) pb(3) by (simp add: held_def algebra_simps)
  qed
  ultimately show ?thesis using pb(2) by blast
qed

definition growth :: "nat \<Rightarrow> dyn \<Rightarrow> nat" where
  "growth sz s = (if d_capacity s = 0 then 3 + 2 * sz else if d_len s = d_capacity s then 3 + 2 * (sz * d_capacity s) else 0)"

lemma APPEND_held:
  assumes r: "heap_ready a hi" and mem: "hi + growth sz s \<le> length mem" "length mem \<le> 8192" and c: "card (dom (heap_live a)) < 256"
    and s: "held a mem sz s bs" and el: "length el = sz" "0 < sz"
  shows "\<exists>s' a' mem'. APPEND sz el s (a, mem) = Inr (s', a', mem') \<and> held a' mem' sz s' (bs @ el) \<and> 0 < d_capacity s' \<and> 0 < d_len s' \<and>
    (d_capacity s' \<le> 2 * d_len s' \<or> d_capacity s' = d_capacity s \<and> d_len s \<le> d_len s') \<and> (d_capacity s' = d_capacity s \<or> d_capacity s' = 2 \<or> d_capacity s' = 2 * d_len s) \<and>
    d_len s' = (if d_capacity s = 0 then 1 else d_len s + 1) \<and>
    heap_ready a' (hi + growth sz s) \<and> growth sz s + cost sz s \<le> cost sz s' \<and> keeps (set (own s)) (a, mem) (a', mem') \<and>
    (own s' = own s \<or> heap_live a (d_contents s') = None) \<and> dom (heap_live a') = dom (heap_live a) - set (own s) \<union> set (own s')"
proof (cases "d_capacity s = 0")
  case True
  obtain p a' mem' where p: "APPEND sz el s (a, mem) = Inr (\<lparr>d_len = 1, d_capacity = 2, d_contents = p\<rparr>, a', mem')"
      "vec a' mem' sz \<lparr>d_len = 1, d_capacity = 2, d_contents = p\<rparr> el" "heap_ready a' (hi + 3 + 2 * sz)" "keeps {} (a, mem) (a', mem')"
      "heap_live a p = None" "heap_live a' = (heap_live a)(p \<mapsto> 2 * sz)"
    using APPEND_first [OF r _ mem(2) c True el] mem(1) True by (auto simp: growth_def)
  have "bs = []" using s True by (simp add: held_def)
  then show ?thesis using p True by (auto simp: vec_iff_held growth_def cost_def own_def add.assoc)
next
  case cap: False
  show ?thesis
  proof (cases "d_len s = d_capacity s")
    case True
    have v: "vec a mem sz s bs" using s True by (simp add: vec_iff_held)
    obtain p a' mem' where p: "APPEND sz el s (a, mem) = Inr (\<lparr>d_len = d_len s + 1, d_capacity = 2 * d_capacity s, d_contents = p\<rparr>, a', mem')"
        "vec a' mem' sz \<lparr>d_len = d_len s + 1, d_capacity = 2 * d_capacity s, d_contents = p\<rparr> (bs @ el)"
        "heap_ready a' (hi + 3 + 2 * (sz * d_capacity s))" "keeps {d_contents s} (a, mem) (a', mem')"
        "heap_live a p = None" "heap_live a' = (heap_live a)(p \<mapsto> 2 * (sz * d_capacity s), d_contents s := None)"
      using APPEND_grow [OF r _ mem(2) c _ True v el] mem(1) cap True by (auto simp: growth_def add.assoc)
    have "heap_live a (d_contents s) \<noteq> None" using s cap by (simp add: held_def)
    then have "p \<noteq> d_contents s" using p(5) by auto
    moreover have "3 + 2 * (sz * d_capacity s) + (2 * sz + 3) * d_capacity s \<le> (2 * sz + 3) * (2 * d_capacity s)" using cap by (simp add: algebra_simps)
    ultimately show ?thesis using p cap True by (auto simp: vec_iff_held growth_def cost_def own_def add.assoc)
  next
    case False
    have d: "d_contents s \<in> dom (heap_live a)" using s cap by (auto simp: held_def)
    obtain mem' where "APPEND sz el s (a, mem) = Inr (s\<lparr>d_len := d_len s + 1\<rparr>, a, mem')"
        "held a mem' sz (s\<lparr>d_len := d_len s + 1\<rparr>) (bs @ el)" "keeps {d_contents s} (a, mem) (a, mem')"
      using APPEND_inside [OF r _ _ _ False s el] mem cap by auto
    then show ?thesis
      using cap False r d by (intro exI [of _ "s\<lparr>d_len := d_len s + 1\<rparr>"] exI [of _ a] exI [of _ mem']) (auto simp: growth_def cost_def own_def)
  qed
qed

lemma APPEND_ok:
  assumes r: "heap_ready a hi" and mem: "hi + growth sz s \<le> length mem" "length mem \<le> 8192" and c: "card (dom (heap_live a)) < 256"
    and s: "vec a mem sz s bs" and el: "length el = sz" "0 < sz"
  shows "\<exists>s' a' mem'. APPEND sz el s (a, mem) = Inr (s', a', mem') \<and> vec a' mem' sz s' (bs @ el) \<and> 0 < d_capacity s' \<and> 0 < d_len s' \<and>
    heap_ready a' (hi + growth sz s) \<and> growth sz s + cost sz s \<le> cost sz s' \<and> keeps (set (own s)) (a, mem) (a', mem') \<and>
    (own s' = own s \<or> heap_live a (d_contents s') = None) \<and> dom (heap_live a') = dom (heap_live a) - set (own s) \<union> set (own s')"
proof -
  have h: "held a mem sz s bs" "0 < d_capacity s \<longrightarrow> d_capacity s \<le> 2 * d_len s" using s by (simp_all add: vec_iff_held)
  obtain s' a' mem' where 1: "APPEND sz el s (a, mem) = Inr (s', a', mem')" "held a' mem' sz s' (bs @ el)" "0 < d_capacity s'" "0 < d_len s'"
      "d_capacity s' \<le> 2 * d_len s' \<or> d_capacity s' = d_capacity s \<and> d_len s \<le> d_len s'"
      "heap_ready a' (hi + growth sz s)" "growth sz s + cost sz s \<le> cost sz s'" "keeps (set (own s)) (a, mem) (a', mem')"
      "own s' = own s \<or> heap_live a (d_contents s') = None" "dom (heap_live a') = dom (heap_live a) - set (own s) \<union> set (own s')"
    using APPEND_held [OF r mem c h(1) el] by (elim exE conjE) (rule that; assumption)
  have "vec a' mem' sz s' (bs @ el)" using 1(2,3,5) h(2) by (auto simp: vec_iff_held)
  then show ?thesis using 1 by - (intro exI conjI; assumption)
qed

lemma growth_bound: "vec a mem sz s bs \<Longrightarrow> 0 < sz \<Longrightarrow> growth sz s + cost sz s \<le> (4 * sz + 6) * (length bs div sz + 1)"
proof -
  assume v: "vec a mem sz s bs" and sz: "0 < sz"
  show ?thesis
  proof (cases "d_capacity s = 0")
    case True
    then show ?thesis using v sz by (simp add: vec_def growth_def cost_def)
  next
    case False
    then have l: "length bs div sz = d_len s" "d_capacity s \<le> 2 * d_len s" using v sz by (simp_all add: vec_def)
    have "(2 * sz + 3) * d_capacity s \<le> (2 * sz + 3) * (2 * d_len s)" using l(2) by (rule mult_le_mono2)
    also have "\<dots> = (4 * sz + 6) * d_len s" by (simp add: algebra_simps)
    finally have c: "cost sz s \<le> (4 * sz + 6) * d_len s" unfolding cost_def .
    show ?thesis using c unfolding l(1) growth_def using False by (auto simp: cost_def algebra_simps)
  qed
qed

section \<open>Families of vectors\<close>

text \<open>Vectors with blocks of their own, next to the blocks \<open>D0\<close>; each is the size of its elements, its members and its bytes.\<close>

definition owned :: "(nat \<times> dyn \<times> u8 list) list \<Rightarrow> nat list" where
  "owned vs = concat (map (\<lambda>(sz, s, bs). own s) vs)"

definition vecs :: "AllocArray \<Rightarrow> u8 list \<Rightarrow> nat set \<Rightarrow> nat \<Rightarrow> (nat \<times> dyn \<times> u8 list) list \<Rightarrow> bool" where
  "vecs a mem D0 base vs \<longleftrightarrow>
     (\<exists>hi. heap_ready a hi \<and> hi \<le> base + (\<Sum>(sz, s, bs)\<leftarrow>vs. cost sz s)) \<and> (\<forall>(sz, s, bs) \<in> set vs. vec a mem sz s bs) \<and>
     distinct (owned vs) \<and> dom (heap_live a) = D0 \<union> set (owned vs) \<and> D0 \<inter> set (owned vs) = {}"

lemma owned_Cons: "owned ((sz, s, bs) # vs) = own s @ owned vs"
  by (simp add: owned_def)

lemma length_owned: "length (owned vs) \<le> length vs"
  by (induction vs) (auto simp: owned_def own_def)

lemma sum_list_perm: "mset xs = mset ys \<Longrightarrow> sum_list (map f xs) = (sum_list (map f ys) :: 'b :: comm_monoid_add)"
proof -
  assume "mset xs = mset ys"
  then have "mset (map f xs) = mset (map f ys)" by simp
  then show ?thesis by (metis sum_mset_sum_list)
qed

lemma vecs_perm:
  assumes "mset vs = mset ws"
  shows "vecs a mem D0 base vs = vecs a mem D0 base ws"
proof -
  have "mset (owned vs) = mset (owned ws)" unfolding owned_def mset_concat map_map by (rule sum_list_perm [OF assms])
  then have "distinct (owned vs) = distinct (owned ws)" "set (owned vs) = set (owned ws)" by (auto dest: mset_eq_imp_distinct_iff mset_eq_setD)
  moreover have "(\<Sum>(sz, s, bs)\<leftarrow>vs. cost sz s) = (\<Sum>(sz, s, bs)\<leftarrow>ws. cost sz s)" by (rule sum_list_perm [OF assms])
  moreover have "set vs = set ws" using assms by (rule mset_eq_setD)
  ultimately show ?thesis unfolding vecs_def by simp
qed

lemma vecs_none: "d_capacity s = 0 \<Longrightarrow> vecs a mem D0 base ((sz, s, []) # vs) = vecs a mem D0 base vs"
  by (simp add: vecs_def vec_def owned_def own_def cost_def)

lemma APPEND_vecs:
  assumes v: "vecs a mem D0 base ((sz, s, bs) # vs)" and el: "length el = sz" "0 < sz"
    and fit: "base + (4 * sz + 6) * (length bs div sz + 1) + (\<Sum>(sz, s, bs)\<leftarrow>vs. cost sz s) \<le> length mem" "length mem \<le> 8192"
    and fin: "finite D0" "card D0 + length vs < 255"
  shows "\<exists>s' a' mem'. APPEND sz el s (a, mem) = Inr (s', a', mem') \<and> vecs a' mem' D0 base ((sz, s', bs @ el) # vs) \<and>
    0 < d_capacity s' \<and> 0 < d_len s' \<and> keeps (set (own s)) (a, mem) (a', mem')"
proof -
  let ?C = "\<Sum>(sz, s, bs)\<leftarrow>vs. cost sz s"
  obtain hi where hi: "heap_ready a hi" "hi \<le> base + (cost sz s + ?C)" using v by (auto simp: vecs_def)
  have vs: "vec a mem sz s bs" "\<And>z t cs. (z, t, cs) \<in> set vs \<Longrightarrow> vec a mem z t cs" "distinct (own s @ owned vs)"
      "dom (heap_live a) = D0 \<union> set (own s) \<union> set (owned vs)" "D0 \<inter> (set (own s) \<union> set (owned vs)) = {}"
    using v by (auto simp: vecs_def owned_def)
  have need: "hi + growth sz s \<le> length mem" using hi(2) growth_bound [OF vs(1) el(2)] fit(1) by linarith
  have "card (dom (heap_live a)) \<le> card D0 + card (set (own s)) + card (set (owned vs))"
    unfolding vs(4) by (meson add_le_mono1 card_Un_le le_trans)
  moreover have "card (set (own s)) \<le> 1" by (simp add: own_def)
  moreover have "card (set (owned vs)) \<le> length vs" using card_length [of "owned vs"] length_owned [of vs] by linarith
  ultimately have c: "card (dom (heap_live a)) < 256" using fin(2) by linarith
  obtain s' a' mem' where s': "APPEND sz el s (a, mem) = Inr (s', a', mem')" "vec a' mem' sz s' (bs @ el)" "0 < d_capacity s'" "0 < d_len s'"
      "heap_ready a' (hi + growth sz s)" "growth sz s + cost sz s \<le> cost sz s'" "keeps (set (own s)) (a, mem) (a', mem')"
      "own s' = own s \<or> heap_live a (d_contents s') = None" "dom (heap_live a') = dom (heap_live a) - set (own s) \<union> set (own s')"
    using APPEND_ok [OF hi(1) need fit(2) c vs(1) el] by blast
  have fresh: "set (own s') \<inter> set (owned vs) = {}" "D0 \<inter> set (own s') = {}"
    using s'(8) vs(3,4,5) by (auto simp: own_def split: if_splits)
  have "vec a' mem' z t cs" if t: "(z, t, cs) \<in> set vs" for z t cs
  proof (rule vec_kept [OF vs(2) [OF t] s'(7)])
    have "set (own t) \<subseteq> set (owned vs)" using t by (force simp: owned_def)
    then show "set (own t) \<inter> set (own s) = {}" using vs(3) by auto
  qed
  moreover have "hi + growth sz s \<le> base + (cost sz s' + ?C)" using hi(2) s'(6) by linarith
  moreover have "dom (heap_live a') = D0 \<union> (set (own s') \<union> set (owned vs))" unfolding s'(9) vs(4) using vs(3,5) by auto
  moreover have "distinct (own s' @ owned vs)" using fresh(1) vs(3) by (auto simp: own_def)
  moreover have "D0 \<inter> set (own s' @ owned vs) = {}" using fresh(2) vs(5) by auto
  ultimately have "vecs a' mem' D0 base ((sz, s', bs @ el) # vs)"
    unfolding vecs_def owned_Cons using s'(2,5) by auto
  then show ?thesis using s' by blast
qed

section \<open>Splitting\<close>

text \<open>What \<open>string_split\<close> is to return: the pieces between the delimiters that are not inside quotes, the last one included;
  \<open>acc\<close> is the piece under way.\<close>

fun pieces :: "u8 \<Rightarrow> bool \<Rightarrow> bool \<Rightarrow> u8 list \<Rightarrow> u8 list \<Rightarrow> u8 list list" where
  "pieces delim rq q acc [] = [acc]"
| "pieces delim rq q acc (c # cs) =
     (let q1 = (if c = 34 then \<not> q else q) in
      if c = delim \<and> (\<not> q1 \<or> \<not> rq) then acc # pieces delim rq q1 [] cs else pieces delim rq q1 (acc @ [c]) cs)"

definition weight :: "u8 list list \<Rightarrow> nat" where
  "weight ws = (\<Sum>w\<leftarrow>ws. length w + 1)"

lemma pieces_weight: "weight (pieces delim rq q acc cs) = length acc + length cs + 1"
  by (induction delim rq q acc cs rule: pieces.induct) (auto simp: weight_def Let_def)

lemma pieces_nonempty: "pieces delim rq q acc cs \<noteq> []"
  by (induction delim rq q acc cs rule: pieces.induct) (auto simp: Let_def)

lemma pieces_chars: "w \<in> set (pieces delim rq q acc cs) \<Longrightarrow> set w \<subseteq> set acc \<union> set cs"
  by (induction delim rq q acc cs rule: pieces.induct) (fastforce simp: Let_def split: if_splits)+

definition family :: "dyn \<Rightarrow> u8 list \<Rightarrow> dyn \<Rightarrow> dyn list \<Rightarrow> u8 list list \<Rightarrow> (nat \<times> dyn \<times> u8 list) list" where
  "family cur acc sl strs ws =
     (1, cur, acc) # (12, sl, concat (map string_bytes strs)) # map (\<lambda>(s, w). (1, s, w @ [0])) (zip strs ws)"

lemma cost_bound: "vec a mem sz s bs \<Longrightarrow> 0 < sz \<Longrightarrow> cost sz s \<le> (4 * sz + 6) * (length bs div sz)"
proof (cases "d_capacity s = 0")
  case False
  assume v: "vec a mem sz s bs" and sz: "0 < sz"
  then have "length bs div sz = d_len s" "d_capacity s \<le> 2 * d_len s" using False by (simp_all add: vec_def)
  then show ?thesis using mult_le_mono2 [of "d_capacity s" "2 * d_len s" "2 * sz + 3"] by (simp add: cost_def algebra_simps)
qed (simp add: cost_def)

lemma length_string_bytes [simp]: "length (string_bytes s) = 12"
  by (simp add: string_bytes_def)

lemma length_strings [simp]: "length (concat (map string_bytes strs)) = 12 * length strs"
  by (induction strs) auto

lemma strings_cost:
  assumes "length strs = length ws" and "\<forall>(z, t, cs) \<in> set (map (\<lambda>(s, w). (1, s, w @ [0])) (zip strs ws)). vec a mem z t cs"
  shows "(\<Sum>(sz, s, bs)\<leftarrow>map (\<lambda>(s, w). (1, s, w @ [0])) (zip strs ws). cost sz s) \<le> 10 * weight ws"
  using assms
proof (induction strs ws rule: list_induct2)
  case (Cons s strs w ws)
  have "cost 1 s \<le> 10 * (length w + 1)" using Cons.prems cost_bound [of a mem 1 s "w @ [0]"] by simp
  then show ?case using Cons by (simp add: weight_def)
qed (simp add: weight_def)

lemma family_cost:
  assumes "vecs a mem D0 base (family cur acc sl strs ws)" and "length strs = length ws"
  shows "(\<Sum>(sz, s, bs)\<leftarrow>map (\<lambda>(s, w). (1, s, w @ [0])) (zip strs ws). cost sz s) \<le> 10 * weight ws"
    and "cost 12 sl \<le> 54 * length strs" and "cost 1 cur \<le> 10 * length acc"
proof -
  have v: "vec a mem 1 cur acc" "vec a mem 12 sl (concat (map string_bytes strs))"
      "\<forall>(z, t, cs) \<in> set (map (\<lambda>(s, w). (1, s, w @ [0])) (zip strs ws)). vec a mem z t cs"
    using assms(1) by (simp_all add: vecs_def family_def)
  show "(\<Sum>(sz, s, bs)\<leftarrow>map (\<lambda>(s, w). (1, s, w @ [0])) (zip strs ws). cost sz s) \<le> 10 * weight ws" by (rule strings_cost [OF assms(2) v(3)])
  show "cost 12 sl \<le> 54 * length strs" using cost_bound [OF v(2)] by simp
  show "cost 1 cur \<le> 10 * length acc" using cost_bound [OF v(1)] by simp
qed

lemma keeps_mono: "keeps S st st' \<Longrightarrow> S \<subseteq> T \<Longrightarrow> keeps T st st'"
  unfolding keeps_def by (cases st; cases st') blast

lemma own_outside: "vecs a mem D0 base ((sz, s, bs) # vs) \<Longrightarrow> set (own s) \<subseteq> - D0"
  by (auto simp: vecs_def owned_Cons)

text \<open>A character more for the piece under way.\<close>

lemma family_char:
  assumes v: "vecs a mem D0 base (family cur acc sl strs ws)" "length strs = length ws"
    and fit: "base + 10 * (weight ws + length acc + 1) + 54 * length ws \<le> length mem" "length mem \<le> 8192"
    and fin: "finite D0" "card D0 + length ws < 254"
  shows "\<exists>cur1 a1 mem1. APPEND 1 [c] cur (a, mem) = Inr (cur1, a1, mem1) \<and> vecs a1 mem1 D0 base (family cur1 (acc @ [c]) sl strs ws) \<and>
    0 < d_capacity cur1 \<and> 0 < d_len cur1 \<and> keeps (- D0) (a, mem) (a1, mem1)"
proof -
  note c = family_cost [OF v]
  let ?vs = "(12, sl, concat (map string_bytes strs)) # map (\<lambda>(s, w). (1, s, w @ [0])) (zip strs ws)"
  have "base + (4 * 1 + 6) * (length acc div 1 + 1) + (\<Sum>(sz, s, bs)\<leftarrow>?vs. cost sz s) \<le> length mem"
    using c fit(1) v(2) by simp
  moreover have "card D0 + length ?vs < 255" using fin(2) v(2) by simp
  ultimately obtain cur1 a1 mem1 where "APPEND 1 [c] cur (a, mem) = Inr (cur1, a1, mem1)" "vecs a1 mem1 D0 base ((1, cur1, acc @ [c]) # ?vs)"
      "0 < d_capacity cur1" "0 < d_len cur1" "keeps (set (own cur)) (a, mem) (a1, mem1)"
    using APPEND_vecs [OF v(1) [unfolded family_def], of "[c]"] fit(2) fin(1) by auto
  then show ?thesis using own_outside [OF v(1) [unfolded family_def]] keeps_mono unfolding family_def by blast
qed

text \<open>The piece under way is finished and its string put into the list.\<close>

lemma family_piece:
  assumes v: "vecs a mem D0 base (family cur acc sl strs ws)" "length strs = length ws"
    and fit: "base + 10 * (weight ws + length acc + 1) + 54 * (length ws + 1) \<le> length mem" "length mem \<le> 8192"
    and fin: "finite D0" "card D0 + length ws < 253"
  shows "\<exists>cur1 a1 mem1 sl1 a2 mem2. APPEND 1 [0] cur (a, mem) = Inr (cur1, a1, mem1) \<and>
    APPEND 12 (string_bytes cur1) sl (a1, mem1) = Inr (sl1, a2, mem2) \<and>
    vecs a2 mem2 D0 base (family (cur1\<lparr>d_capacity := 0\<rparr>) [] sl1 (strs @ [cur1]) (ws @ [acc])) \<and>
    0 < d_capacity cur1 \<and> 0 < d_len cur1 \<and> 0 < d_capacity sl1 \<and> keeps (- D0) (a, mem) (a2, mem2)"
proof -
  obtain cur1 a1 mem1 where 1: "APPEND 1 [0] cur (a, mem) = Inr (cur1, a1, mem1)" "vecs a1 mem1 D0 base (family cur1 (acc @ [0]) sl strs ws)"
      "0 < d_capacity cur1" "0 < d_len cur1" "keeps (- D0) (a, mem) (a1, mem1)"
    using family_char [OF v _ fit(2) fin(1), of 0] fit(1) fin(2) by auto
  let ?strs = "map (\<lambda>(s, w). (1, s, w @ [0])) (zip strs ws)" and ?sl = "(12, sl, concat (map string_bytes strs))"
  have lm: "length mem1 = length mem" using 1(5) by (simp add: keeps_def)
  have p: "mset (family cur1 (acc @ [0]) sl strs ws) = mset (?sl # (1, cur1, acc @ [0]) # ?strs)" by (simp add: family_def)
  have 2: "vecs a1 mem1 D0 base (?sl # (1, cur1, acc @ [0]) # ?strs)" using 1(2) vecs_perm [OF p] by simp
  note c = family_cost [OF 1(2) v(2)]
  have "base + (4 * 12 + 6) * (length (concat (map string_bytes strs)) div 12 + 1) + (\<Sum>(sz, s, bs)\<leftarrow>(1, cur1, acc @ [0]) # ?strs. cost sz s) \<le> length mem1"
    using c fit(1) v(2) lm by simp
  moreover have "card D0 + length ((1, cur1, acc @ [0]) # ?strs) < 255" using fin(2) v(2) by simp
  ultimately obtain sl1 a2 mem2 where 3: "APPEND 12 (string_bytes cur1) sl (a1, mem1) = Inr (sl1, a2, mem2)"
      "vecs a2 mem2 D0 base ((12, sl1, concat (map string_bytes strs) @ string_bytes cur1) # (1, cur1, acc @ [0]) # ?strs)"
      "0 < d_capacity sl1" "keeps (set (own sl)) (a1, mem1) (a2, mem2)"
    using APPEND_vecs [OF 2, of "string_bytes cur1"] fit(2) fin(1) lm by auto
  have z: "map (\<lambda>(s, w). (1, s, w @ [0])) (zip (strs @ [cur1]) (ws @ [acc])) = ?strs @ [(1 :: nat, cur1, acc @ [0])]" using v(2) by simp
  have q: "mset ((12, sl1, concat (map string_bytes strs) @ string_bytes cur1) # (1, cur1, acc @ [0]) # ?strs) =
      mset (tl (family (cur1\<lparr>d_capacity := 0\<rparr>) [] sl1 (strs @ [cur1]) (ws @ [acc])))"
    unfolding family_def z by simp
  have "vecs a2 mem2 D0 base (tl (family (cur1\<lparr>d_capacity := 0\<rparr>) [] sl1 (strs @ [cur1]) (ws @ [acc])))" using 3(2) vecs_perm [OF q] by simp
  then have "vecs a2 mem2 D0 base (family (cur1\<lparr>d_capacity := 0\<rparr>) [] sl1 (strs @ [cur1]) (ws @ [acc]))"
    using vecs_none [of "cur1\<lparr>d_capacity := 0\<rparr>"] by (simp add: family_def)
  moreover have "keeps (- D0) (a, mem) (a2, mem2)"
    using keeps_trans [OF 1(5) keeps_mono [OF 3(4) own_outside [OF 2]]] by simp
  ultimately show ?thesis using 1 3 by blast
qed

lemma cstr_at_step:
  "cstr_at s i [] \<Longrightarrow> rd s i = Inr 0"
  "cstr_at s i (c # cs) \<Longrightarrow> rd s i = Inr c \<and> c \<noteq> 0 \<and> cstr_at s (i + 1) cs"
proof -
  show "cstr_at s i [] \<Longrightarrow> rd s i = Inr 0" by (simp add: cstr_at_def rd_def)
  assume a: "cstr_at s i (c # cs)"
  then have "take (Suc (length cs)) (drop i s) = c # cs" "i < length s" by (auto simp: cstr_at_def)
  moreover from this have "drop i s = s ! i # drop (Suc i) s" by (simp add: Cons_nth_drop_Suc)
  ultimately show "rd s i = Inr c \<and> c \<noteq> 0 \<and> cstr_at s (i + 1) cs" using a by (auto simp: cstr_at_def rd_def)
qed

lemma split_loop_ok:
  assumes "cstr_at s i cs" and "vecs a mem D0 base (family cur acc sl strs ws)" "length strs = length ws" "\<forall>t \<in> set strs. 0 < d_capacity t"
    and "base + 10 * (weight ws + weight (pieces delim rq q acc cs)) + 54 * (length ws + length (pieces delim rq q acc cs)) \<le> length mem" "length mem \<le> 8192"
    and "finite D0" "card D0 + length ws + length (pieces delim rq q acc cs) < 254"
  shows "\<exists>cur' sl' a' mem' acc' strs' ws'. split_loop s i delim rq q cur sl (a, mem) = Inr (cur', sl', a', mem') \<and>
    vecs a' mem' D0 base (family cur' acc' sl' strs' ws') \<and> length strs' = length ws' \<and> (\<forall>t \<in> set strs'. 0 < d_capacity t) \<and>
    ws' @ [acc'] = ws @ pieces delim rq q acc cs \<and> (0 < d_len cur' \<longleftrightarrow> 0 < d_len cur \<or> cs \<noteq> []) \<and> keeps (- D0) (a, mem) (a', mem')"
  using assms
proof (induction cs arbitrary: i a mem cur acc sl strs ws q)
  case Nil
  have "split_loop s i delim rq q cur sl (a, mem) = Inr (cur, sl, a, mem)"
    using cstr_at_step(1) [OF Nil.prems(1)] by (subst split_loop.simps) simp
  moreover have "keeps (- D0) (a, mem) (a, mem)" by (simp add: keeps_def)
  ultimately show ?case using Nil.prems(2-4) by (intro exI [of _ cur] exI [of _ sl] exI [of _ a] exI [of _ mem] exI [of _ acc] exI [of _ strs] exI [of _ ws]) simp
next
  case (Cons c cs)
  let ?q = "if c = 34 then \<not> q else q"
  note st = cstr_at_step(2) [OF Cons.prems(1)]
  have pw: "weight (pieces delim rq q acc (c # cs)) = length acc + length cs + 2" by (simp only: pieces_weight) simp
  show ?case
  proof (cases "c = delim \<and> (\<not> ?q \<or> \<not> rq)")
    case True
    let ?P = "pieces delim rq ?q [] cs"
    have P: "pieces delim rq q acc (c # cs) = acc # ?P" using True by simp
    have w: "weight ?P = length cs + 1" "weight (ws @ [acc]) = weight ws + length acc + 1" by (simp add: pieces_weight, simp add: weight_def)
    obtain cur1 a1 mem1 sl1 a2 mem2 where 1: "APPEND 1 [0] cur (a, mem) = Inr (cur1, a1, mem1)" "APPEND 12 (string_bytes cur1) sl (a1, mem1) = Inr (sl1, a2, mem2)"
        "vecs a2 mem2 D0 base (family (cur1\<lparr>d_capacity := 0\<rparr>) [] sl1 (strs @ [cur1]) (ws @ [acc]))" "0 < d_capacity cur1" "0 < d_len cur1"
        "keeps (- D0) (a, mem) (a2, mem2)"
      using family_piece [OF Cons.prems(2,3) _ Cons.prems(6,7)] Cons.prems(5,8) pw unfolding P by auto
    have lm: "length mem2 = length mem" using 1(6) by (simp add: keeps_def)
    have "\<forall>t \<in> set (strs @ [cur1]). 0 < d_capacity t" using Cons.prems(4) 1(4) by simp
    from Cons.IH [OF _ 1(3) _ this, of "i + 1" ?q] st Cons.prems(3,5,6,7,8) w lm
    obtain cur' sl' a' mem' acc' strs' ws' where 2: "split_loop s (i + 1) delim rq ?q (cur1\<lparr>d_capacity := 0\<rparr>) sl1 (a2, mem2) = Inr (cur', sl', a', mem')"
        "vecs a' mem' D0 base (family cur' acc' sl' strs' ws')" "length strs' = length ws'" "\<forall>t \<in> set strs'. 0 < d_capacity t"
        "ws' @ [acc'] = (ws @ [acc]) @ ?P" "0 < d_len cur'" "keeps (- D0) (a2, mem2) (a', mem')"
      unfolding P pw [unfolded P] using 1(5) by auto
    have "split_loop s i delim rq q cur sl (a, mem) = Inr (cur', sl', a', mem')"
      using st True 1(1,2) 2(1) by (subst split_loop.simps) (simp add: Let_def)
    then show ?thesis using 2 keeps_trans [OF 1(6) 2(7)] unfolding P
      by (intro exI [of _ cur'] exI [of _ sl'] exI [of _ a'] exI [of _ mem'] exI [of _ acc'] exI [of _ strs'] exI [of _ ws']) simp
  next
    case False
    let ?P = "pieces delim rq ?q (acc @ [c]) cs"
    have P: "pieces delim rq q acc (c # cs) = ?P" using False by (auto simp: Let_def)
    have pl: "0 < length ?P" using pieces_nonempty by simp
    have f1: "base + 10 * (weight ws + length acc + 1) + 54 * length ws \<le> length mem" using Cons.prems(5) by (simp add: pw del: pieces.simps)
    have f2: "card D0 + length ws < 254" using Cons.prems(8) by (simp del: pieces.simps)
    obtain cur1 a1 mem1 where 1: "APPEND 1 [c] cur (a, mem) = Inr (cur1, a1, mem1)" "vecs a1 mem1 D0 base (family cur1 (acc @ [c]) sl strs ws)"
        "0 < d_len cur1" "keeps (- D0) (a, mem) (a1, mem1)"
      using family_char [OF Cons.prems(2,3) f1 Cons.prems(6,7) f2, of c] by blast
    have lm: "length mem1 = length mem" using 1(4) by (simp add: keeps_def)
    from Cons.IH [OF _ 1(2) Cons.prems(3,4), of "i + 1" ?q] st Cons.prems(5,6,7,8) lm
    obtain cur' sl' a' mem' acc' strs' ws' where 2: "split_loop s (i + 1) delim rq ?q cur1 sl (a1, mem1) = Inr (cur', sl', a', mem')"
        "vecs a' mem' D0 base (family cur' acc' sl' strs' ws')" "length strs' = length ws'" "\<forall>t \<in> set strs'. 0 < d_capacity t"
        "ws' @ [acc'] = ws @ ?P" "0 < d_len cur'" "keeps (- D0) (a1, mem1) (a', mem')"
      unfolding P using 1(3) by auto
    have "split_loop s i delim rq q cur sl (a, mem) = Inr (cur', sl', a', mem')"
      using st False 1(1) 2(1) by (subst split_loop.simps) (auto simp: Let_def)
    then show ?thesis using 2 keeps_trans [OF 1(4) 2(7)] unfolding P
      by (intro exI [of _ cur'] exI [of _ sl'] exI [of _ a'] exI [of _ mem'] exI [of _ acc'] exI [of _ strs'] exI [of _ ws']) simp
  qed
qed

text \<open>A list of strings as its users read it.\<close>

definition string_list :: "AllocArray \<Rightarrow> u8 list \<Rightarrow> dyn \<Rightarrow> dyn list \<Rightarrow> u8 list list \<Rightarrow> bool" where
  "string_list a mem sl strs ws \<longleftrightarrow> d_len sl = length ws \<and> length strs = length ws \<and> bottom a \<le> d_contents sl \<and>
     (\<forall>j < length ws. rd_string mem (d_contents sl - bottom a + 12 * j) = Inr (strs ! j) \<and> bottom a \<le> d_contents (strs ! j) \<and>
        d_len (strs ! j) = length (ws ! j) + 1 \<and> cstr_at mem (d_contents (strs ! j) - bottom a) (ws ! j))"

lemma rd_string_bytes:
  assumes "off + 12 \<le> length mem" and "take 12 (drop off mem) = string_bytes s"
    and "d_len s < 4294967296" "d_capacity s < 4294967296" "d_contents s < 4294967296"
  shows "rd_string mem off = Inr s"
proof -
  have t: "take 4 (drop i (take 12 (drop off mem))) = take 4 (drop (off + i) mem)" if "i + 4 \<le> 12" for i
    using that by (simp add: drop_take add.commute min_absorb1)
  have sb: "take 4 (string_bytes s) = le32 (d_len s)" "take 4 (drop 4 (string_bytes s)) = le32 (d_capacity s)" "take 4 (drop 8 (string_bytes s)) = le32 (d_contents s)"
    by (simp_all add: string_bytes_def)
  have "take 4 (drop off mem) = le32 (d_len s)" "take 4 (drop (off + 4) mem) = le32 (d_capacity s)" "take 4 (drop (off + 8) mem) = le32 (d_contents s)"
    using t [of 0] t [of 4] t [of 8] sb unfolding assms(2) by simp_all
  then show ?thesis using assms rd_le32_take [of _ mem] by (simp add: rd_string_def)
qed

lemma family_strings:
  assumes v: "vecs a mem D0 base (family cur acc sl strs ws)" "length strs = length ws" "\<forall>t \<in> set strs. 0 < d_capacity t" "strs \<noteq> []"
    and fit: "base + 10 * (weight ws + length acc) + 54 * length ws \<le> length mem" "length mem \<le> 8192" and nz: "\<forall>w \<in> set ws. 0 \<notin> set w"
  shows "string_list a mem sl strs ws"
proof -
  obtain hi where hi: "heap_ready a hi" "hi \<le> base + (\<Sum>(sz, s, bs)\<leftarrow>family cur acc sl strs ws. cost sz s)" using v(1) by (auto simp: vecs_def)
  have "hi \<le> length mem" using hi(2) family_cost [OF v(1,2)] fit(1) v(2) by (simp add: family_def)
  then have hm: "hi \<le> length mem" "hi \<le> 8192" using fit(2) by simp_all
  have vl: "vec a mem 12 sl (concat (map string_bytes strs))" using v(1) by (simp add: vecs_def family_def)
  have c0: "d_capacity sl \<noteq> 0"
  proof
    assume "d_capacity sl = 0"
    then have "concat (map string_bytes strs) = []" using vl unfolding vec_def by simp
    then have "12 * length strs = 0" using length_strings [of strs] by (simp only: list.size)
    then show False using v(4) by simp
  qed
  have l: "d_len sl = length ws" "heap_live a (d_contents sl) = Some (12 * d_capacity sl)" "d_len sl \<le> d_capacity sl"
      "cells a mem (d_contents sl) (12 * length strs) = concat (map string_bytes strs)"
    using vl c0 v(2) by (auto simp: vec_def)
  note el = block_ends [OF hi(1) l(2)]
  have "rd_string mem (d_contents sl - bottom a + 12 * j) = Inr (strs ! j) \<and> bottom a \<le> d_contents (strs ! j) \<and>
        d_len (strs ! j) = length (ws ! j) + 1 \<and> cstr_at mem (d_contents (strs ! j) - bottom a) (ws ! j)" if j: "j < length ws" for j
  proof -
    let ?s = "strs ! j" and ?w = "ws ! j"
    have "(1, ?s, ?w @ [0]) \<in> set (family cur acc sl strs ws)" using j v(2) by (force simp: family_def in_set_conv_nth)
    then have vs: "vec a mem 1 ?s (?w @ [0])" using v(1) by (auto simp: vecs_def)
    have "0 < d_capacity ?s" using v(2,3) j by simp
    then have s: "d_len ?s = length ?w + 1" "d_len ?s \<le> d_capacity ?s" "heap_live a (d_contents ?s) = Some (d_capacity ?s)" "cells a mem (d_contents ?s) (length ?w + 1) = ?w @ [0]"
      using vs by (simp_all add: vec_def)
    note es = block_ends [OF hi(1) s(3)]
    have "12 * j + 12 \<le> 12 * length strs" using j v(2) by simp
    then have "take 12 (drop (12 * j) (cells a mem (d_contents sl) (12 * length strs))) = take 12 (drop (d_contents sl - bottom a + 12 * j) mem)"
      by (simp add: cells_def drop_take add.commute min_absorb1)
    then have tk: "take 12 (drop (d_contents sl - bottom a + 12 * j) mem) = string_bytes ?s"
      using concat_chunk [of strs string_bytes 12 j "[]"] j v(2) l(4) by simp
    have off: "d_contents sl - bottom a + 12 * j + 12 \<le> length mem" using el(2) hm(1) l(1,3) j by linarith
    have "d_contents ?s + d_capacity ?s < 4294967296" using es(3) hm(2) by simp
    then have r: "rd_string mem (d_contents sl - bottom a + 12 * j) = Inr ?s" using s(2) by (intro rd_string_bytes [OF off tk]) simp_all
    have end': "d_contents ?s - bottom a + length ?w < length mem" using es(2) hm(1) s(1,2) by linarith
    have cs: "take (length ?w + 1) (drop (d_contents ?s - bottom a) mem) = ?w @ [0]" using s(4) by (simp add: cells_def)
    have "mem ! (d_contents ?s - bottom a + length ?w) = (?w @ [0]) ! length ?w" unfolding cs [symmetric] using end' by simp
    moreover have "take (length ?w) (drop (d_contents ?s - bottom a) mem) = take (length ?w) (?w @ [0])" unfolding cs [symmetric] by (simp add: min_absorb1)
    ultimately have "cstr_at mem (d_contents ?s - bottom a) ?w" using end' nz j by (simp add: cstr_at_def)
    then show ?thesis using r es(1) s(1) by blast
  qed
  then show ?thesis using l(1) v(2) el(1) by (simp add: string_list_def)
qed

lemma owned_strings:
  "length strs = length ws \<Longrightarrow> \<forall>t \<in> set strs. 0 < d_capacity t \<Longrightarrow> owned (map (\<lambda>(s, w). (1, s, w @ [0])) (zip strs ws)) = map d_contents strs"
  by (induction strs ws rule: list_induct2) (auto simp: owned_def own_def)

lemma string_split_ok:
  assumes r: "heap_ready a base" and s: "cstr_at s off bs" "bs \<noteq> []"
    and fit: "base + 10 * (length bs + 1) + 54 * length (pieces delim rq False [] bs) \<le> length mem" "length mem \<le> 8192"
    and fin: "card (dom (heap_live a)) + length (pieces delim rq False [] bs) < 254"
  shows "\<exists>sl strs a' mem'. string_split s off delim rq (a, mem) = Inr (sl, a', mem') \<and>
    string_list a' mem' sl strs (pieces delim rq False [] bs) \<and> keeps (- dom (heap_live a)) (a, mem) (a', mem') \<and>
    heap_ready a' (base + 10 * (length bs + 1) + 54 * length (pieces delim rq False [] bs)) \<and> distinct (d_contents sl # map d_contents strs) \<and>
    (\<exists>n. heap_live a' (d_contents sl) = Some n \<and> 12 * length (pieces delim rq False [] bs) \<le> n) \<and>
    dom (heap_live a') = dom (heap_live a) \<union> insert (d_contents sl) (d_contents ` set strs) \<and> dom (heap_live a) \<inter> insert (d_contents sl) (d_contents ` set strs) = {}"
proof -
  let ?D = "dom (heap_live a)" and ?P = "pieces delim rq False [] bs"
  have inv: "heap_inv a" using r by (simp add: heap_ready_def)
  have pw: "weight ?P = length bs + 1" by (simp add: pieces_weight)
  have "vecs a mem ?D base (family no_dyn [] no_dyn [] [])"
    using r by (auto simp: vecs_def family_def owned_def own_def no_dyn_def vec_def cost_def)
  from split_loop_ok [OF s(1) this, of delim rq False] inv fit fin pw s(2)
  obtain cur sl1 a1 mem1 acc strs ws where 1: "split_loop s off delim rq False no_dyn no_dyn (a, mem) = Inr (cur, sl1, a1, mem1)"
      "vecs a1 mem1 ?D base (family cur acc sl1 strs ws)" "length strs = length ws" "\<forall>t \<in> set strs. 0 < d_capacity t"
      "ws @ [acc] = ?P" "0 < d_len cur" "keeps (- ?D) (a, mem) (a1, mem1)"
    by (auto simp: weight_def)
  have lm: "length mem1 = length mem" using 1(7) by (simp add: keeps_def)
  have w: "weight ws + length acc + 1 = length bs + 1" "length ws + 1 = length ?P" using pw unfolding 1(5) [symmetric] by (simp_all add: weight_def)
  obtain cur1 a2 mem2 sl a3 mem3 where 2: "APPEND 1 [0] cur (a1, mem1) = Inr (cur1, a2, mem2)" "APPEND 12 (string_bytes cur1) sl1 (a2, mem2) = Inr (sl, a3, mem3)"
      "vecs a3 mem3 ?D base (family (cur1\<lparr>d_capacity := 0\<rparr>) [] sl (strs @ [cur1]) ?P)" "0 < d_capacity cur1" "0 < d_capacity sl" "keeps (- ?D) (a1, mem1) (a3, mem3)"
    using family_piece [OF 1(2,3)] fit fin lm w inv unfolding 1(5) by auto
  let ?strs = "strs @ [cur1]"
  have ok: "string_split s off delim rq (a, mem) = Inr (sl, a3, mem3)" using 1(1,6) 2(1,2) by (simp add: string_split_def)
  have k: "keeps (- ?D) (a, mem) (a3, mem3)" using keeps_trans [OF 1(7) 2(6)] by simp
  then have lm3: "length mem3 = length mem" by (simp add: keeps_def)
  have len: "length ?strs = length ?P" using 1(3) w(2) by simp
  have cap: "\<forall>t \<in> set ?strs. 0 < d_capacity t" using 1(4) 2(4) by simp
  have nz: "\<forall>w \<in> set ?P. 0 \<notin> set w" using pieces_chars [of _ delim rq False "[]" bs] s(1) by (fastforce simp: cstr_at_def)
  have sl: "string_list a3 mem3 sl ?strs ?P" by (rule family_strings [OF 2(3) len cap]) (use fit lm3 pw nz in simp_all)
  have own: "owned (family (cur1\<lparr>d_capacity := 0\<rparr>) [] sl ?strs ?P) = d_contents sl # map d_contents ?strs"
    using 2(5) owned_strings [OF len cap] by (simp add: family_def owned_Cons own_def)
  obtain hi where hi: "heap_ready a3 hi" "hi \<le> base + (\<Sum>(sz, s, bs)\<leftarrow>family (cur1\<lparr>d_capacity := 0\<rparr>) [] sl ?strs ?P. cost sz s)" using 2(3) by (auto simp: vecs_def)
  have "hi \<le> base + 10 * (length bs + 1) + 54 * length ?P" using hi(2) family_cost [OF 2(3) len] pw len by (simp add: family_def)
  then have "heap_ready a3 (base + 10 * (length bs + 1) + 54 * length ?P)" using hi(1) by (auto simp: heap_ready_def) (meson add_left_mono le_trans)
  moreover have "\<exists>n. heap_live a3 (d_contents sl) = Some n \<and> 12 * length ?P \<le> n"
  proof -
    have "vec a3 mem3 12 sl (concat (map string_bytes ?strs))" using 2(3) by (simp add: vecs_def family_def)
    then show ?thesis using 2(5) sl by (auto simp: vec_def string_list_def)
  qed
  moreover have "distinct (d_contents sl # map d_contents ?strs)" "dom (heap_live a3) = ?D \<union> set (d_contents sl # map d_contents ?strs)" "?D \<inter> set (d_contents sl # map d_contents ?strs) = {}"
    using 2(3) unfolding vecs_def own by blast+
  ultimately show ?thesis using ok sl k by (intro exI [of _ sl] exI [of _ ?strs] exI [of _ a3] exI [of _ mem3]) simp
qed

section \<open>Freeing\<close>

text \<open>An address that was released: the allocator still finds its entry, and releases it again.\<close>

definition stale :: "AllocArray \<Rightarrow> nat \<Rightarrow> bool" where
  "stale a p \<longleftrightarrow> heap_inv a \<and> (\<exists>k < length (entries a). find_entry (\<lambda>e. base_ptr e = p) (entries a) 0 = Inr (Some k) \<and> \<not> utilized (entries a ! k) \<and>
     0 < br_length (ae_range (entries a ! k)) \<and> br_start (ae_range (entries a ! k)) + br_length (ae_range (entries a ! k)) < 32768 \<and>
     br_set (ae_range (entries a ! k)) \<inter> bm_used (bitmap a) = {})"

lemma kfree_stale:
  assumes "stale a p"
  shows "\<exists>a'. kfree a p = Inr a' \<and> stale a' p \<and> heap_live a' = heap_live a \<and> bottom a' = bottom a"
proof -
  obtain k where inv: "heap_inv a" and k: "k < length (entries a)" "find_entry (\<lambda>e. base_ptr e = p) (entries a) 0 = Inr (Some k)" "\<not> utilized (entries a ! k)"
      "0 < br_length (ae_range (entries a ! k))" "br_start (ae_range (entries a ! k)) + br_length (ae_range (entries a ! k)) < 32768"
      "br_set (ae_range (entries a ! k)) \<inter> bm_used (bitmap a) = {}"
    using assms by (auto simp: stale_def)
  have len: "length (bitmap a) = 1024" by (rule heap_inv_lengths(1) [OF inv])
  obtain bm where bm: "dealloc_bitrange (bitmap a) (ae_range (entries a ! k)) = Inr bm" "length bm = length (bitmap a)"
      "bm_used bm = bm_used (bitmap a) - br_set (ae_range (entries a ! k))"
    by (rule dealloc_bitrange_used [of "ae_range (entries a ! k)" "bitmap a"]) (use k len in simp_all)
  let ?a = "a\<lparr>bitmap := bm\<rparr>"
  have "(entries a ! k)\<lparr>utilized := False\<rparr> = entries a ! k" using k(3) by simp
  then have "release_entry a p = Inr (Some (ae_range (entries a ! k), ?a))" using k(2) bm(1) by (simp add: release_entry_def Let_def)
  then have kf: "kfree a p = Inr ?a" using inv by (simp add: kfree_def)
  have used: "bm_used bm = bm_used (bitmap a)" using bm(3) k(6) by auto
  then have inv': "heap_inv ?a" using inv bm(2) unfolding heap_inv_def heap_bm.tracks_def bm_inv_def by auto
  then have "stale ?a p" using k used by (auto simp: stale_def)
  then show ?thesis using kf by (auto simp: heap_live_def)
qed

lemma kfree_bottom: "kfree a p = Inr a' \<Longrightarrow> bottom a' = bottom a"
  by (auto simp: kfree_def release_entry_def Let_def split: option.splits)

lemma kfree_to_stale:
  assumes r: "heap_ready a hi" "hi \<le> 8192" and live: "heap_live a p = Some n"
  shows "\<exists>a'. kfree a p = Inr a' \<and> stale a' p \<and> heap_live a' = (heap_live a)(p := None) \<and> bottom a' = bottom a"
proof -
  have inv: "heap_inv a" using r(1) by (simp add: heap_ready_def)
  note tok = heap_table [OF inv]
  obtain k where k: "k < length (entries a)" "utilized (entries a ! k)" "base_ptr (entries a ! k) = p" "br_length (ae_range (entries a ! k)) = n"
    using heap_live_iff [OF tok] live by metis
  let ?R = "ae_range (entries a ! k)" and ?es = "(entries a)[k := (entries a ! k)\<lparr>utilized := False\<rparr>]"
  have f: "find_entry (\<lambda>e. base_ptr e = base_ptr (entries a ! k)) (entries a) 0 = Inr (Some k)" by (rule table_ok_retire(1) [OF tok k(1,2)])
  have pr: "p = bottom a + br_start ?R" using tok k by (auto simp: table_ok_def table_inv_def)
  have n: "0 < n" using live_nth_nonempty [OF _ k(1,2)] tok k(4) by (simp add: table_ok_def)
  have fitR: "br_start ?R + n \<le> 8192" using block_ends [OF r(1) live] r(2) pr by simp
  have len: "length (bitmap a) = 1024" by (rule heap_inv_lengths(1) [OF inv])
  obtain bm where bm: "dealloc_bitrange (bitmap a) ?R = Inr bm" "bm_used bm = bm_used (bitmap a) - br_set ?R"
    by (rule dealloc_bitrange_used [of ?R "bitmap a"]) (use n k(4) fitR len in simp_all)
  let ?a = "a\<lparr>bitmap := bm, entries := ?es\<rparr>"
  have "release_entry a p = Inr (Some (?R, ?a))" using f k(3) bm(1) by (simp add: release_entry_def Let_def)
  then have kf: "kfree a p = Inr ?a" using inv by (simp add: kfree_def)
  have inv': "heap_inv ?a" "heap_live ?a = (heap_live a)(p := None)" using kfree_live [OF inv live] kf by auto
  have "find_entry (\<lambda>e. base_ptr e = p) ?es 0 = Inr (Some k)"
  proof (rule find_entry_first)
    have len': "length (entries a) = MAX_ALLOCATIONS" by (rule heap_inv_lengths(2) [OF inv])
    then show "length ?es = MAX_ALLOCATIONS" by simp
    show "k < length ?es" "base_ptr (?es ! k) = p" using k by simp_all
    show "base_ptr (?es ! j) \<noteq> p" if "j < k" for j
      using f that k len' by (cases rule: find_entry_cases [OF len', of "\<lambda>e. base_ptr e = p"]) auto
  qed
  then have "stale ?a p" using inv'(1) k(1,4) n fitR bm(2) by (auto simp: stale_def)
  then show ?thesis using kf inv'(2) by auto
qed

lemma free_loop_stale:
  assumes "stale a (d_contents s)" and "heap_off a contents = Inr off" "rd_string mem off = Inr s"
  shows "\<exists>a'. free_loop n contents (a, mem) = Inr (a', mem) \<and> heap_inv a' \<and> heap_live a' = heap_live a \<and> bottom a' = bottom a"
  using assms
proof (induction n arbitrary: a)
  case (Suc n)
  obtain a1 where "kfree a (d_contents s) = Inr a1" "stale a1 (d_contents s)" "heap_live a1 = heap_live a" "bottom a1 = bottom a"
    using kfree_stale [OF Suc.prems(1)] by blast
  then show ?case using Suc.IH [of a1] Suc.prems by (simp add: heap_off_def split: if_splits)
qed (simp add: stale_def)

text \<open>Freeing a list releases its first string and the array, and no other string.\<close>

lemma free_string_list_first:
  assumes r: "heap_ready a hi" "hi \<le> 8192" and rs: "0 < d_len sl" "rd_string mem (d_contents sl - bottom a) = Inr s" "bottom a \<le> d_contents sl"
    and live: "heap_live a (d_contents sl) \<noteq> None" "heap_live a (d_contents s) \<noteq> None" "d_contents sl \<noteq> d_contents s"
  shows "\<exists>a'. free_string_list sl (a, mem) = Inr (a', mem) \<and> heap_inv a' \<and> heap_live a' = (heap_live a)(d_contents s := None, d_contents sl := None) \<and>
    bottom a' = bottom a"
proof -
  obtain n where n: "d_len sl = Suc n" using rs(1) by (cases "d_len sl") auto
  obtain a1 where a1: "kfree a (d_contents s) = Inr a1" "stale a1 (d_contents s)" "heap_live a1 = (heap_live a)(d_contents s := None)" "bottom a1 = bottom a"
    using kfree_to_stale [OF r] live(2) by blast
  obtain a2 where a2: "free_loop n (d_contents sl) (a1, mem) = Inr (a2, mem)" "heap_inv a2" "heap_live a2 = heap_live a1" "bottom a2 = bottom a1"
    using free_loop_stale [OF a1(2), of "d_contents sl" "d_contents sl - bottom a" mem n] rs a1(4) by (auto simp: heap_off_def)
  have "heap_live a2 (d_contents sl) \<noteq> None" using a2(3) a1(3) live(1,3) by simp
  then obtain a3 where "kfree a2 (d_contents sl) = Inr a3" "heap_inv a3" "heap_live a3 = (heap_live a2)(d_contents sl := None)"
    using kfree_live [OF a2(2)] by blast
  then show ?thesis using n rs a1(1,3,4) a2(1,3,4) kfree_bottom [of a2 "d_contents sl" a3] by (simp add: free_string_list_def heap_off_def)
qed

section \<open>Properties\<close>

text \<open>C24: Splitting a command line: while the heap has room, \<open>string_split\<close> of a non-empty string returns the list of exactly the pieces between the delimiters that
  are not inside quotes, in order, each as a null-terminated string of its own; every block that was in use before still is and holds the same bytes, and
  the new blocks are the array and one per piece.\<close>

theorem string_split_pieces:
  assumes "heap_ready a base" and "cstr_at s off bs" and "bs \<noteq> []"
    and "base + 10 * (length bs + 1) + 54 * length (pieces delim rq False [] bs) \<le> length mem" and "length mem \<le> 8192"
    and "card (dom (heap_live a)) + length (pieces delim rq False [] bs) < 254"
  shows "\<exists>sl strs a' mem'. string_split s off delim rq (a, mem) = Inr (sl, a', mem') \<and>
    string_list a' mem' sl strs (pieces delim rq False [] bs) \<and> keeps (- dom (heap_live a)) (a, mem) (a', mem') \<and>
    heap_inv a' \<and> dom (heap_live a') = dom (heap_live a) \<union> insert (d_contents sl) (d_contents ` set strs)"
  using string_split_ok [OF assms] unfolding heap_ready_def by (elim exE conjE) (intro exI conjI; assumption)

theorem string_split_pieces_witness:
  "\<exists>sl strs a' mem'. string_split [108, 115, 32, 34, 97, 32, 98, 34, 0] 0 32 True (fresh_heap 0x400000, replicate 4096 0) = Inr (sl, a', mem') \<and>
    string_list a' mem' sl strs [[108, 115], [34, 97, 32, 98, 34]]"
proof -
  let ?s = "[108, 115, 32, 34, 97, 32, 98, 34] :: u8 list"
  have r: "heap_ready (fresh_heap 0x400000) 0" using heap_inv_fresh [of "0x400000"] by (simp add: heap_ready_def)
  have c: "cstr_at [108, 115, 32, 34, 97, 32, 98, 34, 0] 0 ?s" by (simp add: cstr_at_def)
  have p: "pieces 32 True False [] ?s = [[108, 115], [34, 97, 32, 98, 34]]" by simp
  have "?s \<noteq> []" "0 + 10 * (length ?s + 1) + 54 * length (pieces 32 True False [] ?s) \<le> length (replicate 4096 (0 :: u8))" "length (replicate 4096 (0 :: u8)) \<le> 8192"
      "card (dom (heap_live (fresh_heap 0x400000))) + length (pieces 32 True False [] ?s) < 254"
    unfolding p by simp_all
  from string_split_pieces [OF r c this] show ?thesis unfolding p by blast
qed

text \<open>C25: \<open>free_string_list\<close> leaks. It releases the first string as often as there are strings, and the array, but no other string: after a split into \<open>n\<close> pieces
  and the freeing of the list, \<open>n - 1\<close> blocks more than before are in use. Each command of several words loses blocks until the allocator panics.\<close>

theorem free_string_list_leaks:
  assumes "heap_ready a base" and "cstr_at s off bs" and "bs \<noteq> []"
    and "base + 10 * (length bs + 1) + 54 * length (pieces delim rq False [] bs) \<le> length mem" and "length mem \<le> 8192"
    and "card (dom (heap_live a)) + length (pieces delim rq False [] bs) < 254"
  shows "\<exists>sl a1 mem1 a2. string_split s off delim rq (a, mem) = Inr (sl, a1, mem1) \<and> free_string_list sl (a1, mem1) = Inr (a2, mem1) \<and>
    card (dom (heap_live a2)) + 1 = card (dom (heap_live a)) + length (pieces delim rq False [] bs)"
proof -
  let ?P = "pieces delim rq False [] bs" and ?D = "dom (heap_live a)"
  obtain sl strs a1 mem1 where 1: "string_split s off delim rq (a, mem) = Inr (sl, a1, mem1)" "string_list a1 mem1 sl strs ?P" "heap_ready a1 (base + 10 * (length bs + 1) + 54 * length ?P)"
      "distinct (d_contents sl # map d_contents strs)" "dom (heap_live a1) = ?D \<union> insert (d_contents sl) (d_contents ` set strs)"
      "?D \<inter> insert (d_contents sl) (d_contents ` set strs) = {}"
    using string_split_ok [OF assms] by blast
  have len: "length strs = length ?P" "?P \<noteq> []" using 1(2) pieces_nonempty by (simp_all add: string_list_def)
  then obtain s0 ss where ss: "strs = s0 # ss" by (cases strs) auto
  have "heap_live a1 (d_contents sl) \<noteq> None" "heap_live a1 (d_contents s0) \<noteq> None" using 1(5) ss by (auto simp: dom_def set_eq_iff)
  moreover have "rd_string mem1 (d_contents sl - bottom a1) = Inr s0" "bottom a1 \<le> d_contents sl" "0 < d_len sl"
    using 1(2) len(2) ss unfolding string_list_def by fastforce+
  ultimately obtain a2 where 2: "free_string_list sl (a1, mem1) = Inr (a2, mem1)" "heap_live a2 = (heap_live a1)(d_contents s0 := None, d_contents sl := None)"
    using free_string_list_first [OF 1(3), of sl mem1 s0] assms(4,5) 1(4) ss by auto
  have "dom (heap_live a2) = ?D \<union> d_contents ` set ss" unfolding 2(2) using 1(4,5,6) ss by auto
  moreover have "card (?D \<union> d_contents ` set ss) = card ?D + card (d_contents ` set ss)"
    using 1(6) ss assms(1) by (intro card_Un_disjoint) (auto simp: heap_ready_def)
  moreover have "card (d_contents ` set ss) = length ss" using 1(4) ss by (simp add: distinct_card flip: set_map)
  ultimately show ?thesis using 1(1) 2(1) len(1) ss by auto
qed

theorem free_string_list_leaks_witness:
  "\<exists>sl a1 mem1 a2. string_split (map of_char ''echo a b'' @ [0]) 0 32 True (fresh_heap 0x400000, replicate 4096 0) = Inr (sl, a1, mem1) \<and>
    free_string_list sl (a1, mem1) = Inr (a2, mem1) \<and> card (dom (heap_live a2)) = 2"
proof -
  let ?s = "map of_char ''echo a b'' :: u8 list"
  have r: "heap_ready (fresh_heap 0x400000) 0" using heap_inv_fresh [of "0x400000"] by (simp add: heap_ready_def)
  have c: "cstr_at (?s @ [0]) 0 ?s" by (simp add: cstr_at_def)
  have p: "length (pieces 32 True False [] ?s) = 3" by simp
  have "?s \<noteq> []" "0 + 10 * (length ?s + 1) + 54 * length (pieces 32 True False [] ?s) \<le> length (replicate 4096 (0 :: u8))" "length (replicate 4096 (0 :: u8)) \<le> 8192"
      "card (dom (heap_live (fresh_heap 0x400000))) + length (pieces 32 True False [] ?s) < 254"
    unfolding p by simp_all
  from free_string_list_leaks [OF r c this] show ?thesis unfolding p by auto
qed

end
