(* ===== verification/Shell.thy ===== *)
theory Shell
  imports Dyn_String Fs_Tree
begin

text \<open>
  The shell and its commands (\<open>src/src/kernel.c\<close>).

  A command reads its words from the heap, where \<open>string_split\<close> put them, and works on the \<open>kernel\<close> of the file system; its result
  is the exit code. What comes from outside is the record \<open>outside\<close>: the timer as \<open>sget\<close> reads it (its value when the port
  accesses so far are a given trace) and as \<open>sleep\<close> reads it (its value at each look), the key events served by the keyboard interrupt before each
  round of the shell's loop, the address of a local array of \<open>sget\<close>, whose value the code compares with a counter, and what
  the code a loaded program consists of does. The interrupt is served between two rounds: a round touches the keyboard's buffer
  only where it reads its character, and where a command reads \<open>/dev/tty\<close> (\<open>cat /dev/tty\<close>), which then sees no keys that come in during the command.

  A \<open>while\<close> loop that may run forever is \<open>loop_res\<close>: its step either goes on or ends the loop, and a loop that never ends is the fault \<open>Diverges\<close>.
\<close>

section \<open>Loops\<close>

definition loop_on :: "('s + 'a) res \<Rightarrow> bool" where
  "loop_on r = (case r of Inr (Inl s) \<Rightarrow> True | _ \<Rightarrow> False)"

definition loop_next :: "('s \<Rightarrow> ('s + 'a) res) \<Rightarrow> ('s + 'a) res \<Rightarrow> ('s + 'a) res" where
  "loop_next f r = (case r of Inr (Inl s) \<Rightarrow> f s | _ \<Rightarrow> r)"

definition loop_res :: "('s \<Rightarrow> ('s + 'a) res) \<Rightarrow> 's \<Rightarrow> 'a res" where
  "loop_res f s =
     (case while_option loop_on (loop_next f) (f s) of
        None \<Rightarrow> Inl Diverges
      | Some r \<Rightarrow> obind r (\<lambda>x. case x of Inr a \<Rightarrow> Inr a | Inl _ \<Rightarrow> Inl Diverges))"

text \<open>A loop is its first step, followed by the loop if the step goes on.\<close>

lemma loop_res_unfold: "loop_res f s = obind (f s) (\<lambda>x. case x of Inl s' \<Rightarrow> loop_res f s' | Inr a \<Rightarrow> Inr a)"
proof -
  have w: "while_option loop_on (loop_next f) (Inr (Inl s')) = while_option loop_on (loop_next f) (f s')"
      "while_option loop_on (loop_next f) (Inr (Inr a)) = Some (Inr (Inr a))" "while_option loop_on (loop_next f) (Inl e) = Some (Inl e)" for s' a e
    by (subst while_option_unfold, simp add: loop_on_def loop_next_def)+
  show ?thesis by (cases "f s") (auto simp: loop_res_def w split: sum.splits)
qed

text \<open>A loop whose step always goes on inside a set of states never ends.\<close>

lemma loop_res_forever:
  assumes "P s" and step: "\<And>s. P s \<Longrightarrow> \<exists>s'. f s = Inr (Inl s') \<and> P s'"
  shows "loop_res f s = Inl Diverges"
proof -
  have "while_option loop_on (loop_next f) (f s) = None"
  proof (rule ccontr)
    assume "while_option loop_on (loop_next f) (f s) \<noteq> None"
    then obtain r where r: "while_option loop_on (loop_next f) (f s) = Some r" by blast
    have "\<exists>s'. r = Inr (Inl s') \<and> P s'"
    proof (rule while_option_rule [OF _ r])
      show "\<exists>s'. f s = Inr (Inl s') \<and> P s'" using assms by blast
      show "\<exists>s'. loop_next f r = Inr (Inl s') \<and> P s'" if "\<exists>s'. r = Inr (Inl s') \<and> P s'" "loop_on r" for r
        using that step by (auto simp: loop_next_def)
    qed
    then show False using while_option_stop [OF r] by (auto simp: loop_on_def)
  qed
  then show ?thesis by (simp add: loop_res_def)
qed

text \<open>What every step keeps and every end of the loop gives, the loop gives.\<close>

lemma loop_res_rule:
  assumes "P s" and "\<And>s s'. P s \<Longrightarrow> f s = Inr (Inl s') \<Longrightarrow> P s'" and "\<And>s a. P s \<Longrightarrow> f s = Inr (Inr a) \<Longrightarrow> Q a" and "loop_res f s = Inr a"
  shows "Q a"
proof -
  let ?I = "\<lambda>r. case r of Inr (Inl s) \<Rightarrow> P s | Inr (Inr a) \<Rightarrow> Q a | Inl _ \<Rightarrow> True"
  have I: "?I (f s)" if "P s" for s using assms(2,3) that by (auto split: sum.splits)
  obtain r where r: "while_option loop_on (loop_next f) (f s) = Some r" "r = Inr (Inr a)"
    using assms(4) by (auto simp: loop_res_def split: option.splits sum.splits)
  have "?I r" by (rule while_option_rule [where P = ?I, OF _ r(1) I [OF assms(1)]]) (use assms(2,3) in \<open>auto simp: loop_on_def loop_next_def split: sum.splits\<close>)
  then show ?thesis using r(2) by simp
qed

section \<open>Definitions\<close>

record outside =
  clock :: "trace \<Rightarrow> u64"
  ticks :: "nat \<Rightarrow> u64"
  key_events :: "nat \<Rightarrow> u8 list"
  file_size_addr :: u32
  call_program :: "nat \<Rightarrow> u8 list \<Rightarrow> kernel \<Rightarrow> kernel res"

definition STDIN :: int where "STDIN = 0"
definition STDOUT :: int where "STDOUT = 0"
definition STDERR :: int where "STDERR = 0"
definition SERIAL :: int where "SERIAL = 1"

text \<open>A string literal, and \<open>write(fd, "...", count)\<close>, which reads as many bytes as it is told to.\<close>

definition lit :: "string \<Rightarrow> u8 list" where
  "lit s = cstr_of s @ [0]"

definition write_lit :: "world \<Rightarrow> int \<Rightarrow> string \<Rightarrow> nat \<Rightarrow> kernel \<Rightarrow> kernel res" where
  "write_lit w fd s cnt k = obind (write_file w k fd (lit s) cnt) (\<lambda>(_, k'). Inr k')"

text \<open>\<open>cmd.contents[i].contents\<close> as an offset into the heap, and \<open>MATCH\<close>; \<open>PREFIX\<close> is \<open>MATCH\<close> of word 0.\<close>

definition word_at :: "kernel \<Rightarrow> dyn \<Rightarrow> nat \<Rightarrow> nat res" where
  "word_at k cmd i =
     obind (heap_off (heap k) (w32 (d_contents cmd + 12 * i))) (\<lambda>p.
     obind (rd_string (hmem k) p) (\<lambda>s. heap_off (heap k) (d_contents s)))"

definition MATCH :: "kernel \<Rightarrow> dyn \<Rightarrow> nat \<Rightarrow> string \<Rightarrow> bool res" where
  "MATCH k cmd i s = obind (word_at k cmd i) (\<lambda>p. obind (strcmp (hmem k) p (lit s) 0) (\<lambda>r. Inr (r = 0)))"

subsection \<open>Commands\<close>

definition exec_ls :: "world \<Rightarrow> int \<Rightarrow> dyn \<Rightarrow> kernel \<Rightarrow> (int \<times> kernel) res" where
  "exec_ls w stdout cmd k =
     obind (word_at k cmd 1) (\<lambda>p.
     obind (str_list_dir k (hmem k) p) (\<lambda>(ptr, k1).
       case ptr of
         None \<Rightarrow> Inr (- 1, k1)
       | Some a \<Rightarrow>
           obind (heap_off (heap k1) a) (\<lambda>q.
           obind (strlen (hmem k1) q) (\<lambda>n.
           obind (write_file w k1 stdout (drop q (hmem k1)) n) (\<lambda>(_, k2).
           obind (kfree (heap k2) a) (\<lambda>h. Inr (0, k2\<lparr>heap := h\<rparr>)))))))"

definition nib_chars :: "u8 list" where
  "nib_chars = cstr_of ''0123456789ABCDEF''"

text \<open>\<open>nib_to_hex[c >> 4]\<close>: a \<open>char\<close> is signed, so a byte of 128 or more is a negative index.\<close>

definition high_nibble :: "u8 \<Rightarrow> u8 res" where
  "high_nibble c = (if sint c < 0 then Inl Out_of_bounds else rd nib_chars (unat (drop_bit 4 c)))"

definition cat_char :: "world \<Rightarrow> int \<Rightarrow> dyn \<Rightarrow> u8 list \<Rightarrow> kernel \<Rightarrow> kernel res" where
  "cat_char w stdout cmd cbuf k =
     obind (if d_len cmd = 3 then MATCH k cmd 1 ''-b'' else Inr False) (\<lambda>hex.
       if hex then
         obind (rd cbuf 0) (\<lambda>c.
         obind (write_file w k stdout [92, 120, 0] 2) (\<lambda>(_, k1).
         obind (high_nibble c) (\<lambda>hi.
         obind (write_file w k1 stdout [hi] 1) (\<lambda>(_, k2).
         obind (rd nib_chars (unat (c AND 0xF))) (\<lambda>lo.
         obind (write_file w k2 stdout [lo] 1) (\<lambda>(_, k3). Inr k3))))))
       else obind (write_file w k stdout cbuf 1) (\<lambda>(_, k1). Inr k1))"

definition cat_step :: "world \<Rightarrow> int \<Rightarrow> dyn \<Rightarrow> int \<Rightarrow> u8 list \<times> kernel \<Rightarrow> ((u8 list \<times> kernel) + kernel) res" where
  "cat_step w stdout cmd fd = (\<lambda>(cbuf, k).
     obind (read_file w k fd cbuf 1) (\<lambda>(n, cbuf1, k1).
       if 0 < n then obind (cat_char w stdout cmd cbuf1 k1) (\<lambda>k2. Inr (Inl (cbuf1, k2))) else Inr (Inr k1)))"

definition exec_cat :: "world \<Rightarrow> int \<Rightarrow> dyn \<Rightarrow> kernel \<Rightarrow> (int \<times> kernel) res" where
  "exec_cat w stdout cmd k =
     obind (word_at k cmd (w32 (d_len cmd + 4294967295))) (\<lambda>p.
     obind (open_file k (hmem k) p) (\<lambda>(fd, k1).
       if fd = - 1 then Inr (- 1, k1)
       else
         obind (loop_res (cat_step w stdout cmd fd) (junk (env w) 1, k1)) (\<lambda>k2.
         obind (close k2 fd) (\<lambda>(_, k3). Inr (0, k3)))))"

definition exec_echo :: "world \<Rightarrow> int \<Rightarrow> dyn \<Rightarrow> kernel \<Rightarrow> (int \<times> kernel) res" where
  "exec_echo w stdout cmd k =
     obind (word_at k cmd 1) (\<lambda>p.
     obind (strlen (hmem k) p) (\<lambda>cnt.
     obind (write_file w k stdout (drop p (hmem k)) cnt) (\<lambda>(n, k1).
       Inr (if n \<noteq> cnt then - 1 else 0, k1))))"

definition exec_touch :: "dyn \<Rightarrow> kernel \<Rightarrow> (int \<times> kernel) res" where
  "exec_touch cmd k = obind (word_at k cmd 1) (\<lambda>p. create_filetype k (hmem k) p FILE_TYPE_NORMAL False)"

definition exec_rm :: "world \<Rightarrow> dyn \<Rightarrow> kernel \<Rightarrow> (int \<times> kernel) res" where
  "exec_rm w cmd k = obind (word_at k cmd 1) (\<lambda>p. unlink w k (hmem k) p)"

definition exec_mkdir :: "dyn \<Rightarrow> kernel \<Rightarrow> (int \<times> kernel) res" where
  "exec_mkdir cmd k = obind (word_at k cmd 1) (\<lambda>p. create_filetype k (hmem k) p FILE_TYPE_DIR False)"

text \<open>\<open>sleep\<close>, from the number of ticks to wait on; \<open>i\<close> counts the looks at the timer. The sum is one of \<open>uint32_t\<close> values.\<close>

definition sleep :: "outside \<Rightarrow> u32 \<Rightarrow> nat \<Rightarrow> nat res" where
  "sleep x ticks_to_wait i =
     (let start = ucast (ticks x i) :: u32 in
      loop_res (\<lambda>j. if ticks x j < ucast (start + ticks_to_wait) then Inr (Inl (j + 1)) else Inr (Inr (j + 1))) (i + 1))"

definition exec_stat :: "dyn \<Rightarrow> kernel \<Rightarrow> (int \<times> kernel) res" where
  "exec_stat cmd k =
     obind (word_at k cmd 1) (\<lambda>p.
     obind (open_file k (hmem k) p) (\<lambda>(fd, k1).
       if fd = - 1 then Inr (- 1, k1) else obind (close k1 fd) (\<lambda>(_, k2). Inr (0, k2))))"

subsection \<open>Receiving a file\<close>

record sget_state =
  in_message :: bool
  base_time :: u64
  bytes_read :: u8
  size_bytes :: "u8 list"
  sg_char :: "u8 list"

definition timer_now :: "outside \<Rightarrow> kernel \<Rightarrow> u64" where
  "timer_now x k = clock x (snd (screen k))"

text \<open>\<open>while (read(SERIAL, &c, 1) > 0) { file_size[bytes_read] = c; bytes_read++; }\<close>\<close>

definition sget_header_step :: "world \<Rightarrow> sget_state \<times> kernel \<Rightarrow> ((sget_state \<times> kernel) + (sget_state \<times> kernel)) res" where
  "sget_header_step w = (\<lambda>(g, k).
     obind (read_file w k SERIAL (sg_char g) 1) (\<lambda>(n, cb, k1).
       if 0 < n then
         obind (rd cb 0) (\<lambda>c.
         obind (wr (size_bytes g) (unat (bytes_read g)) c) (\<lambda>fs.
           Inr (Inl (g\<lparr>size_bytes := fs, bytes_read := bytes_read g + 1, sg_char := cb\<rparr>, k1))))
       else Inr (Inr (g\<lparr>sg_char := cb\<rparr>, k1))))"

text \<open>The announcement of the download, from an array of 12 bytes.\<close>

definition sget_announce :: "world \<Rightarrow> outside \<Rightarrow> kernel \<Rightarrow> kernel res" where
  "sget_announce w x k =
     obind (write_lit w STDOUT ''beginning download file of size '' 33 k) (\<lambda>k1.
     obind (fmt (env w) (junk (env w) 12) (lit ''%x...\<newline>'') [Va_word (file_size_addr x)]) (\<lambda>buf.
     obind (write_file w k1 STDOUT buf 15) (\<lambda>(_, k2). Inr k2)))"

definition sget_header :: "world \<Rightarrow> outside \<Rightarrow> sget_state \<times> kernel \<Rightarrow> (sget_state \<times> kernel) res" where
  "sget_header w x = (\<lambda>(g, k).
     if \<not> in_message g then
       obind (loop_res (sget_header_step w) (g, k)) (\<lambda>(g1, k1).
         if bytes_read g1 = 4 then
           obind (sget_announce w x k1) (\<lambda>k2. Inr (g1\<lparr>in_message := True, bytes_read := 0\<rparr>, k2))
         else Inr (g1, k1))
     else Inr (g, k))"

text \<open>\<open>while (!write(fd, &c, 1));\<close>\<close>

definition write_until :: "world \<Rightarrow> int \<Rightarrow> u8 list \<Rightarrow> kernel \<Rightarrow> kernel res" where
  "write_until w fd cb =
     loop_res (\<lambda>k. obind (write_file w k fd cb 1) (\<lambda>(n, k1). if n = 0 then Inr (Inl k1) else Inr (Inr k1)))"

text \<open>The loop over the message; \<open>True\<close> is the return from \<open>sget\<close>. The counter is compared with the address of the array.\<close>

definition sget_body_step ::
    "world \<Rightarrow> outside \<Rightarrow> int \<Rightarrow> sget_state \<times> kernel \<Rightarrow> ((sget_state \<times> kernel) + (bool \<times> sget_state \<times> kernel)) res" where
  "sget_body_step w x fd = (\<lambda>(g, k).
     if \<not> in_message g then Inr (Inr (False, g, k))
     else
       obind (read_file w k SERIAL (sg_char g) 1) (\<lambda>(n, cb, k1).
         if 0 < n then
           let g1 = g\<lparr>base_time := timer_now x k1, bytes_read := bytes_read g + 1, sg_char := cb\<rparr> in
           obind (write_until w fd cb k1) (\<lambda>k2.
             if ucast (bytes_read g1) = file_size_addr x then
               obind (write_lit w STDOUT ''download completed...\<newline>'' 23 k2) (\<lambda>k3. Inr (Inr (True, g1, k3)))
             else Inr (Inl (g1, k2)))
         else Inr (Inr (False, g\<lparr>sg_char := cb\<rparr>, k1))))"

definition sget_step :: "world \<Rightarrow> outside \<Rightarrow> int \<Rightarrow> sget_state \<times> kernel \<Rightarrow> ((sget_state \<times> kernel) + (int \<times> kernel)) res" where
  "sget_step w x fd = (\<lambda>(g, k).
     if base_time g + 500 < timer_now x k then
       obind (close (PUSH_ERROR ''src/kernel.c:148: error:sget timed out, couldn't complete transfer\<newline>'' k) fd) (\<lambda>(_, k1).
         Inr (Inr (- 1, k1)))
     else
       obind (sget_header w x (g, k)) (\<lambda>gk.
       obind (loop_res (sget_body_step w x fd) gk) (\<lambda>(fin, g2, k2).
         if fin then Inr (Inr (0, k2)) else Inr (Inl (g2, k2)))))"

definition exec_sget :: "world \<Rightarrow> outside \<Rightarrow> dyn \<Rightarrow> kernel \<Rightarrow> (int \<times> kernel) res" where
  "exec_sget w x cmd k =
     obind (word_at k cmd 1) (\<lambda>p.
     obind (open_file k (hmem k) p) (\<lambda>(fd, k1).
       if fd = - 1 then Inr (- 1, k1)
       else
         obind (write_lit w STDOUT ''waiting for serial port to initiate communication...\<newline>'' 54 k1) (\<lambda>k2.
           loop_res (sget_step w x fd)
             (\<lparr>in_message = False, base_time = timer_now x k2, bytes_read = 0, size_bytes = [0, 0, 0, 0], sg_char = junk (env w) 1\<rparr>, k2))))"

text \<open>\<open>run\<close>: the entry of the page directory it copies goes into a local directory that is not used. The program's bytes are in a local
  array; the code that is called is at the address \<open>header.entry\<close>.\<close>

definition exec_run :: "world \<Rightarrow> outside \<Rightarrow> dyn \<Rightarrow> kernel \<Rightarrow> (int \<times> kernel) res" where
  "exec_run w x cmd k =
     obind (word_at k cmd 1) (\<lambda>p.
     obind (open_file k (hmem k) p) (\<lambda>(fd, k1).
       if fd = - 1 then Inl (Panic ''Need to revert paging'')
       else
         obind (read_file w k1 fd (junk (env w) 12) 12) (\<lambda>(_, header, k2).
         obind (rd_le32 header 4) (\<lambda>entry.
         obind (rd_le32 header 8) (\<lambda>sz.
         obind (seek k2 fd (s32 entry) SEEK_SET) (\<lambda>(_, k3).
         obind (read_file w k3 fd (junk (env w) (vla (env w) (w32 (4 * (sz div 4 + 1))))) sz) (\<lambda>(_, program_memory, k4).
         obind (call_program x entry program_memory k4) (\<lambda>k5. Inr (- 1, k5)))))))))"

subsection \<open>The loop\<close>

record shell_state =
  curr_command :: dyn
  working_dir :: dyn
  sh_shift :: bool
  sh_kernel :: kernel

definition APPEND_char :: "u8 \<Rightarrow> dyn \<Rightarrow> kernel \<Rightarrow> (dyn \<times> kernel) res" where
  "APPEND_char c s k = obind (APPEND 1 [c] s (heap k, hmem k)) (\<lambda>(s1, a, m). Inr (s1, k\<lparr>heap := a, hmem := m\<rparr>))"

definition FREE_string :: "dyn \<Rightarrow> kernel \<Rightarrow> kernel res" where
  "FREE_string s k = obind (free_string s (heap k, hmem k)) (\<lambda>(a, m). Inr (k\<lparr>heap := a, hmem := m\<rparr>))"

definition FREE_list :: "dyn \<Rightarrow> kernel \<Rightarrow> kernel res" where
  "FREE_list sl k = obind (free_string_list sl (heap k, hmem k)) (\<lambda>(a, m). Inr (k\<lparr>heap := a, hmem := m\<rparr>))"

text \<open>Looking for \<open>>\<close>: the loop runs while \<open>i < cmd.len - 1\<close>.\<close>

function redirect_loop :: "dyn \<Rightarrow> nat \<Rightarrow> kernel \<Rightarrow> (int \<times> kernel) res" where
  "redirect_loop cmd i k =
     (if i < w32 (d_len cmd + 4294967295) then
        obind (MATCH k cmd i ''>'') (\<lambda>m.
          if m then
            obind (assert_that (i = w32 (d_len cmd + 4294967294)) ''only can combo with a single file'') (\<lambda>_.
            obind (word_at k cmd (i + 1)) (\<lambda>p. open_file k (hmem k) p))
          else redirect_loop cmd (i + 1) k)
      else Inr (STDOUT, k))"
  by pat_completeness auto
termination
  by (relation "measure (\<lambda>(cmd, i, k). w32 (d_len cmd + 4294967295) - i)") auto

declare redirect_loop.simps [simp del]

text \<open>The commands by their name; \<open>None\<close> is \<open>exit\<close>.\<close>

fun dispatch :: "(string \<times> (kernel \<Rightarrow> (int \<times> kernel) option res)) list \<Rightarrow> (kernel \<Rightarrow> (int \<times> kernel) option res) \<Rightarrow>
    dyn \<Rightarrow> kernel \<Rightarrow> (int \<times> kernel) option res" where
  "dispatch [] otherwise cmd k = otherwise k"
| "dispatch ((name, act) # rest) otherwise cmd k =
     obind (MATCH k cmd 0 name) (\<lambda>m. if m then act k else dispatch rest otherwise cmd k)"

definition with_code :: "(int \<times> kernel) res \<Rightarrow> (int \<times> kernel) option res" where
  "with_code r = obind r (\<lambda>x. Inr (Some x))"

definition run_command :: "world \<Rightarrow> outside \<Rightarrow> int \<Rightarrow> dyn \<Rightarrow> kernel \<Rightarrow> (int \<times> kernel) option res" where
  "run_command w x out cmd k =
     dispatch
       [(''exit'', \<lambda>k. Inr None),
        (''help'', \<lambda>k. with_code (obind (write_lit w STDOUT ''commands: ls, cat, echo, touch, rm, mkdir\<newline>'' 43 k) (\<lambda>k1. Inr (0, k1)))),
        (''ls'', \<lambda>k. with_code (exec_ls w out cmd k)),
        (''cat'', \<lambda>k. with_code (exec_cat w out cmd k)),
        (''echo'', \<lambda>k. with_code (exec_echo w out cmd k)),
        (''touch'', \<lambda>k. with_code (exec_touch cmd k)),
        (''rm'', \<lambda>k. with_code (exec_rm w cmd k)),
        (''mkdir'', \<lambda>k. with_code (exec_mkdir cmd k)),
        (''sget'', \<lambda>k. with_code (exec_sget w x cmd k)),
        (''run'', \<lambda>k. with_code (exec_run w x cmd k))]
       (\<lambda>k. with_code (obind (write_lit w STDOUT ''Couldn't parse command\<newline>'' 24 k) (\<lambda>k1. Inr (0, k1))))
       cmd k"

text \<open>What follows a command: closing its output, the error message, the list of words and the next prompt.\<close>

definition after_command :: "world \<Rightarrow> int \<Rightarrow> int \<Rightarrow> dyn \<Rightarrow> kernel \<Rightarrow> kernel res" where
  "after_command w out exit_code cmd k =
     obind (if out \<noteq> STDOUT then obind (close k out) (\<lambda>(_, k1). Inr k1) else Inr k) (\<lambda>k1.
     obind (if exit_code = - 1 then write_lit w STDERR (error_msg k1) (length (error_msg k1)) k1 else Inr k1) (\<lambda>k2.
     obind (FREE_list cmd k2) (\<lambda>k3. write_lit w STDOUT ''\<newline>$ '' 3 k3)))"

text \<open>The end of a line; \<open>Inr k\<close> is the return from the shell.\<close>

definition end_of_line :: "world \<Rightarrow> outside \<Rightarrow> shell_state \<Rightarrow> (shell_state + kernel) res" where
  "end_of_line w x s =
     (if d_len (curr_command s) = 0 then
        obind (write_lit w STDOUT ''\<newline>$ '' 3 (sh_kernel s)) (\<lambda>k1. Inr (Inl (s\<lparr>sh_kernel := k1\<rparr>)))
      else
        obind (APPEND_char 0 (curr_command s) (sh_kernel s)) (\<lambda>(cur, k1).
        obind (heap_off (heap k1) (d_contents cur)) (\<lambda>p.
        obind (string_split (hmem k1) p 32 True (heap k1, hmem k1)) (\<lambda>(cmd, a, m).
        obind (redirect_loop cmd 0 (k1\<lparr>heap := a, hmem := m\<rparr>)) (\<lambda>(out, k2).
          if out = - 1 then
            obind (write_lit w STDOUT ''Couldn't parse command\<newline>'' 24 k2) (\<lambda>k3.
            obind (write_lit w STDOUT ''\<newline>$ '' 3 k3) (\<lambda>k4. Inr (Inl (s\<lparr>curr_command := cur, sh_kernel := k4\<rparr>))))
          else
            obind (run_command w x out cmd k2) (\<lambda>r.
              case r of
                None \<Rightarrow>
                  obind (FREE_string cur k2) (\<lambda>k3. obind (FREE_string (working_dir s) k3) (\<lambda>k4.
                  obind (FREE_list cmd k4) (\<lambda>k5. Inr (Inr k5))))
              | Some (exit_code, k3) \<Rightarrow>
                  obind (after_command w out exit_code cmd k3) (\<lambda>k4.
                    Inr (Inl (s\<lparr>curr_command := cur\<lparr>d_len := 0\<rparr>, sh_kernel := k4\<rparr>)))))))))"

text \<open>One round of the loop.\<close>

definition shell_round :: "world \<Rightarrow> outside \<Rightarrow> shell_state \<Rightarrow> (shell_state + kernel) res" where
  "shell_round w x s =
     obind (read_file w (sh_kernel s) STDIN (junk (env w) 1) 1) (\<lambda>(n, cbuf, k1).
       if 0 < n then
         obind (rd cbuf 0) (\<lambda>c.
           if c = 8 then
             if 0 < d_len (curr_command s) then
               obind (write_file w k1 STDOUT [8, 0] 1) (\<lambda>(_, k2).
                 Inr (Inl (s\<lparr>curr_command := (curr_command s)\<lparr>d_len := d_len (curr_command s) - 1\<rparr>, sh_kernel := k2\<rparr>)))
             else Inr (Inl (s\<lparr>sh_kernel := k1\<rparr>))
           else
             obind (write_file w k1 STDOUT cbuf 1) (\<lambda>(_, k2).
               if c \<noteq> 10 then
                 obind (APPEND_char c (curr_command s) k2) (\<lambda>(cur, k3). Inr (Inl (s\<lparr>curr_command := cur, sh_kernel := k3\<rparr>)))
               else end_of_line w x (s\<lparr>sh_kernel := k2\<rparr>)))
       else Inr (Inl (s\<lparr>sh_kernel := k1\<rparr>)))"

text \<open>The keyboard interrupts served before a round.\<close>

fun serve_keys :: "u8 list \<Rightarrow> shell_state \<Rightarrow> shell_state res" where
  "serve_keys [] s = Inr s"
| "serve_keys (sc # scs) s =
     obind (keyboard_key (sh_shift s) (kbd (sh_kernel s)) sc) (\<lambda>(sh, rb).
       serve_keys scs (s\<lparr>sh_shift := sh, sh_kernel := (sh_kernel s)\<lparr>kbd := rb\<rparr>\<rparr>))"

definition shell_step :: "world \<Rightarrow> outside \<Rightarrow> nat \<times> shell_state \<Rightarrow> ((nat \<times> shell_state) + kernel) res" where
  "shell_step w x = (\<lambda>(i, s).
     obind (serve_keys (key_events x i) s) (\<lambda>s1.
     obind (shell_round w x s1) (\<lambda>r. Inr (case r of Inl s2 \<Rightarrow> Inl (i + 1, s2) | Inr k \<Rightarrow> Inr k))))"

definition shell :: "world \<Rightarrow> outside \<Rightarrow> bool \<Rightarrow> kernel \<Rightarrow> (int \<times> kernel) res" where
  "shell w x shift k =
     obind (APPEND_char 47 no_dyn k) (\<lambda>(wd, k1).
     obind (write_lit w STDOUT ''$ '' 2 k1) (\<lambda>k2.
     obind (loop_res (shell_step w x) (0, \<lparr>curr_command = no_dyn, working_dir = wd, sh_shift = shift, sh_kernel = k2\<rparr>)) (\<lambda>k3.
       Inr (0, k3))))"

end
