(* ===== verification/Shell_Run.thy ===== *)
theory Shell_Run
  imports Shell
begin

text \<open>
  Sessions of the shell (\<open>shell\<close> in \<open>src/src/kernel.c\<close>): what the rounds of its loop do with the characters that wait in the keyboard's
  buffer, from the echo on the terminal to the command on the file system.
\<close>

section \<open>Text the terminal can take\<close>

text \<open>A text that stays on the screen from row \<open>r\<close> and column \<open>c\<close> on, backspaces included.\<close>

fun fits :: "u8 list \<Rightarrow> nat \<Rightarrow> nat \<Rightarrow> bool" where
  "fits [] r c \<longleftrightarrow> True"
| "fits (ch # cs) r c \<longleftrightarrow>
     (if ch = 10 then r < 24 \<and> fits cs (r + 1) 0 else if ch = 8 then 0 < c \<and> fits cs r (c - 1) else c < 79 \<and> fits cs r (c + 1))"

lemma fits_append1: "fits (xs @ ys) r c \<Longrightarrow> fits xs r c"
  by (induction xs r c rule: fits.induct) (auto split: if_splits)

definition at_cell :: "vga \<Rightarrow> nat \<Rightarrow> nat \<Rightarrow> bool" where
  "at_cell v r c \<longleftrightarrow> length (terminal_buffer v) = 2048 \<and> terminal_row v = r \<and> terminal_column v = c \<and> r < 25 \<and> c < 80"

lemma kputc_fits:
  assumes "at_cell v r c" and "fits (ch # cs) r c"
  shows "\<exists>v' t' c'. kputc ch (v, t) = Inr (v', t') \<and> at_cell v' (r + line_count [ch]) c' \<and> fits cs (r + line_count [ch]) c'"
proof -
  have v: "length (terminal_buffer v) = 2048" "terminal_row v = r" "terminal_column v = c" "r < 25" "c < 80" using assms(1) by (simp_all add: at_cell_def)
  have rc: "r * 80 + c < 2000" using v(4,5) by linarith
  consider "ch = 10" | "ch = 8" "0 < c" | "ch \<noteq> 10" "ch \<noteq> 8" "c < 79" using assms(2) by (auto split: if_splits)
  then show ?thesis
  proof cases
    case 1
    then have "at_cell (v\<lparr>terminal_column := 0, terminal_row := r + 1\<rparr>) (r + 1) 0" "fits cs (r + 1) 0" using v assms(2) by (simp_all add: at_cell_def)
    then show ?thesis using 1 v by (auto simp: kputc_def line_count_def intro!: exI)
  next
    case 2
    have "w32 (c + 4294967295) = c - 1" using 2 v(5) by (simp add: w32_def mod_if)
    moreover have "w32 (r * 80 + (c - 1)) = r * 80 + (c - 1)" "r * 80 + (c - 1) < 2048" using rc by simp_all
    moreover have "at_cell (v\<lparr>terminal_column := c - 1, terminal_buffer := (terminal_buffer v)[r * 80 + (c - 1) := e]\<rparr>) r (c - 1)" for e
      using v by (simp add: at_cell_def)
    moreover have "fits cs r (c - 1)" using 2 assms(2) by (simp split: if_splits)
    ultimately show ?thesis using 2 v by (auto simp: kputc_def line_count_def terminal_putentryat_def VGA_WIDTH_def Let_def intro!: exI)
  next
    case 3
    have "w32 (r * 80 + c) = r * 80 + c" "r * 80 + c < 2048" "w32 (c + 1) = c + 1" "c + 1 \<noteq> 80" using rc 3 by simp_all
    moreover have "at_cell (v\<lparr>terminal_buffer := (terminal_buffer v)[r * 80 + c := e], terminal_column := c + 1\<rparr>) r (c + 1)" for e
      using v 3 by (simp add: at_cell_def)
    moreover have "fits cs r (c + 1)" using 3 assms(2) by simp
    ultimately show ?thesis using 3 v by (auto simp: kputc_def line_count_def terminal_putentryat_def VGA_WIDTH_def Let_def intro!: exI)
  qed
qed

lemma kwrite_loop_fits:
  assumes "d + sz \<le> length data" and "i \<le> sz" and "at_cell v r c" and "fits (take (sz - i) (drop (d + i) data)) r c"
  shows "\<exists>v' t' c'. kwrite_loop data d sz i (v, t) = Inr (v', t') \<and> at_cell v' (r + line_count (take (sz - i) (drop (d + i) data))) c'"
  using assms(2-)
proof (induction "sz - i" arbitrary: i v t r c)
  case 0
  then show ?case by (auto simp: kwrite_loop.simps [of data] line_count_def)
next
  case (Suc n)
  have i: "i < sz" "d + i < length data" using Suc.hyps(2) assms(1) by linarith+
  have "take (sz - i) (drop (d + i) data) = data ! (d + i) # take (sz - (i + 1)) (drop (d + (i + 1)) data)"
    using i by (simp add: Cons_nth_drop_Suc [symmetric] Suc_diff_Suc [symmetric])
  then have f: "fits (data ! (d + i) # take (sz - (i + 1)) (drop (d + (i + 1)) data)) r c"
    and n: "line_count (take (sz - i) (drop (d + i) data)) = line_count [data ! (d + i)] + line_count (take (sz - (i + 1)) (drop (d + (i + 1)) data))"
    using Suc.prems(3) by (simp_all add: line_count_def)
  obtain v1 t1 c1 where 1: "kputc (data ! (d + i)) (v, t) = Inr (v1, t1)" "at_cell v1 (r + line_count [data ! (d + i)]) c1"
      "fits (take (sz - (i + 1)) (drop (d + (i + 1)) data)) (r + line_count [data ! (d + i)]) c1"
    using kputc_fits [OF Suc.prems(2) f] by blast
  show ?case using Suc.hyps(1) [OF _ _ 1(2,3), of t1] Suc.hyps(2) 1(1) i unfolding n by (simp add: kwrite_loop.simps [of data d sz i] add.assoc)
qed

definition tty_text :: "Terminal \<Rightarrow> u8 list" where
  "tty_text tm = take (t_index tm - base_index tm) (drop (base_index tm) (tty_buffer tm))"

lemma render_terminal_fits:
  assumes "length (terminal_buffer v) = 2048" and "length (tty_buffer tm) = 1024" and "base_index tm < t_index tm" and "t_index tm \<le> 1024"
    and "line_count (tty_text tm) < 20" and "fits (tty_text tm) 0 0"
  shows "\<exists>v' t' c. render_terminal tm (v, t) = Inr (tm, v', t') \<and> at_cell v' (line_count (tty_text tm)) c"
proof -
  let ?v = "\<lparr>terminal_row = 0, terminal_column = 0, terminal_color = 7, terminal_buffer = blank (terminal_buffer v)\<rparr>"
  have cell: "at_cell ?v 0 0" using assms(1) by (simp add: at_cell_def blank_def)
  obtain li where li: "scan_lines (tty_buffer tm) (base_index tm) (t_index tm) 0 (replicate TERMINAL_HEIGHT 0) = Inr (line_count (tty_text tm), li)"
      "length li = 20"
    using scan_lines_counts [of "t_index tm" "tty_buffer tm" "base_index tm" "replicate TERMINAL_HEIGHT 0" 0] assms(2-4)
    by (auto simp: TERMINAL_HEIGHT_def tty_text_def)
  have ix: "w32 (line_count (tty_text tm) + 1) mod 10 < length li" using li(2) by (simp add: pos_mod_bound less_trans [of _ 10 20])
  obtain v' t' c where "kwrite (tty_buffer tm) (base_index tm) (t_index tm - base_index tm) (?v, t) = Inr (v', t')" "at_cell v' (line_count (tty_text tm)) c"
    using kwrite_loop_fits [OF _ _ cell, of "base_index tm" "t_index tm - base_index tm" "tty_buffer tm" 0 t] assms(2-4,6)
    by (auto simp: kwrite_def tty_text_def)
  then show ?thesis
    using terminal_clear_blank [OF assms(1)] li(1) rd_in [OF ix] assms(3,5) by (auto simp: render_terminal_def TERMINAL_HEIGHT_def)
qed

text \<open>The terminal can still take the text \<open>new\<close>; the cursor of the screen is at most one row below the text.\<close>

definition tty_room :: "Terminal \<Rightarrow> vga \<Rightarrow> u8 list \<Rightarrow> bool" where
  "tty_room tm v new \<longleftrightarrow> screen_ok v \<and> terminal_row v \<le> line_count (tty_text tm) + 1 \<and> length (tty_buffer tm) = 1024 \<and> base_index tm \<le> t_index tm \<and>
     t_index tm + length new < 1024 \<and> line_count (tty_text tm @ new) < 20 \<and> fits (tty_text tm @ new) 0 0"

lemma line_count_append [simp]: "line_count (xs @ ys) = line_count xs + line_count ys"
  by (simp add: line_count_def)

lemma tty_write_room:
  assumes room: "tty_room tm v (a @ b)" and buf: "take (length a) buf = a" "a \<noteq> []"
  shows "\<exists>tm' v' t'. tty_write buf (length a) tm (v, t) = Inr (length a, tm', v', t') \<and> tty_room tm' v' b \<and> tty_text tm' = tty_text tm @ a"
proof -
  let ?tm = "tm\<lparr>tty_buffer := overlay (t_index tm) a (tty_buffer tm), t_index := t_index tm + length a\<rparr>"
  have r: "length (terminal_buffer v) = 2048" "length (tty_buffer tm) = 1024" "base_index tm \<le> t_index tm" "t_index tm + length (a @ b) < 1024"
      "line_count (tty_text tm @ a @ b) < 20" "fits ((tty_text tm @ a) @ b) 0 0" using room by (simp_all add: tty_room_def screen_ok_def)
  have len: "length a \<le> length buf" using buf(1) by (metis length_take min.cobounded1)
  have st: "tty_store buf (length a) 0 tm = Inr ?tm" using tty_store_overlay [of tm "length a" 0 buf] r len buf(1) by simp
  have t: "tty_text ?tm = tty_text tm @ a"
    unfolding tty_text_def using r by (intro nth_equalityI) (auto simp: nth_overlay nth_append add.commute)
  have "0 < length a" using buf(2) by simp
  then have "base_index tm < t_index tm + length a" using r(3) by linarith
  then obtain v' t' c where v': "render_terminal ?tm (v, t) = Inr (?tm, v', t')" "at_cell v' (line_count (tty_text ?tm)) c"
    using render_terminal_fits [of v ?tm t] r buf(2) fits_append1 [OF r(6)] t by auto
  then have "screen_ok v'" "terminal_row v' \<le> line_count (tty_text ?tm) + 1" by (simp_all add: at_cell_def screen_ok_def)
  then have "tty_room ?tm v' b" using r t by (simp add: tty_room_def)
  then show ?thesis using st v' t by (simp add: tty_write_def)
qed

section \<open>The console of the shell\<close>

text \<open>Descriptor 0 is \<open>/dev/tty\<close>, and the terminal can take \<open>new\<close>.\<close>

definition tty_fd0 :: "kernel \<Rightarrow> bool" where
  "tty_fd0 k \<longleftrightarrow> 0 < length (fd_entries k) \<and> (let i = inode_num (fd_entries k ! 0) in
     i < length (global_inode_table k) \<and> i \<in> bm_used (global_ibmap k) \<and> file_type (global_inode_table k ! i) = 2 \<and>
     cstr_at (i_name (global_inode_table k ! i)) 0 (cstr_of ''tty''))"

definition console :: "kernel \<Rightarrow> u8 list \<Rightarrow> bool" where
  "console k new \<longleftrightarrow> tty_fd0 k \<and> tty_room (tty k) (fst (screen k)) new"

lemma special_tty:
  assumes "cstr_at nm 0 (cstr_of ''tty'')"
  shows "special w 0 system_names rdng k nm buf cnt = handle w 0 rdng k buf cnt"
proof -
  have "cstr_at (cstr_of ''tty'' @ replicate 29 0) 0 (cstr_of ''tty'')" by (simp add: cstr_at_def cstr_of_def)
  from strcmp_cstr [OF this assms] show ?thesis by (auto simp: system_names_def)
qed

lemma console_write:
  assumes "console k (a @ b)" and "take (length a) buf = a" "a \<noteq> []"
  shows "\<exists>tm s. write_file w k 0 buf (length a) = Inr (length a, k\<lparr>tty := tm, screen := s\<rparr>) \<and> console (k\<lparr>tty := tm, screen := s\<rparr>) b \<and> tty_text tm = tty_text (tty k) @ a"
proof -
  obtain v t where s: "screen k = (v, t)" by (cases "screen k")
  have c: "tty_fd0 k" "tty_room (tty k) v (a @ b)" using assms(1) s by (simp_all add: console_def)
  obtain tm v' t' where w: "tty_write buf (length a) (tty k) (v, t) = Inr (length a, tm, v', t')" "tty_room tm v' b" "tty_text tm = tty_text (tty k) @ a"
    using tty_write_room [OF c(2) assms(2,3), of t] by blast
  have "write_file w k 0 buf (length a) = Inr (length a, k\<lparr>tty := tm, screen := (v', t')\<rparr>)"
    using c(1) special_tty w(1) s by (simp add: write_file_def tty_fd0_def fd_rd_def handle_def Let_def)
  moreover have "console (k\<lparr>tty := tm, screen := (v', t')\<rparr>) b" using c(1) w(2) by (simp add: console_def tty_fd0_def)
  ultimately show ?thesis using w(3) by blast
qed

lemma console_read:
  assumes "console k new" and "ring_inv (kbd k)" and "length cb = 1"
  shows "\<exists>rb. ring_inv rb \<and> ring_abs rb = tl (ring_abs (kbd k)) \<and>
    read_file w k 0 cb 1 = Inr (if ring_abs (kbd k) = [] then 0 else 1, if ring_abs (kbd k) = [] then cb else [hd (ring_abs (kbd k))], k\<lparr>kbd := rb\<rparr>)"
proof -
  obtain rb where rb: "tty_read (kbd k) cb 1 = Inr (min 1 (length (ring_abs (kbd k))), overlay 0 (take 1 (ring_abs (kbd k))) cb, rb)"
      "ring_inv rb" "ring_abs rb = drop 1 (ring_abs (kbd k))"
    using tty_read_queue [OF assms(2), of 1 cb] assms(3) by auto
  have "read_file w k 0 cb 1 = Inr (min 1 (length (ring_abs (kbd k))), overlay 0 (take 1 (ring_abs (kbd k))) cb, k\<lparr>kbd := rb\<rparr>)"
    using assms(1) special_tty rb(1) by (simp add: console_def read_file_def tty_fd0_def fd_rd_def handle_def Let_def)
  moreover have "ring_abs rb = tl (ring_abs (kbd k))" using rb(3) by (simp add: drop_Suc)
  moreover have "overlay 0 [c] cb = [c]" for c using assms(3) by (simp add: overlay_def)
  ultimately show ?thesis using rb(2) by (cases "ring_abs (kbd k)") auto
qed

section \<open>Typing a line\<close>

text \<open>The line editor: a backspace takes the last character away, any other character is added. \<open>echo\<close> is what is shown.\<close>

definition edit :: "u8 list \<Rightarrow> u8 \<Rightarrow> u8 list" where
  "edit line c = (if c = 8 then butlast line else line @ [c])"

fun echo :: "u8 list \<Rightarrow> u8 list \<Rightarrow> u8 list" where
  "echo line [] = []"
| "echo line (c # cs) = (if c = 8 \<and> line = [] then [] else [c]) @ echo (edit line c) cs"

text \<open>Everything but the heap, the keyboard and the terminal is as in \<open>k\<close>; the memory of the heap is as long.\<close>

definition same_fs :: "kernel \<Rightarrow> kernel \<Rightarrow> bool" where
  "same_fs k k' \<longleftrightarrow> global_super k' = global_super k \<and> global_ibmap k' = global_ibmap k \<and> global_dbmap k' = global_dbmap k \<and>
     global_inode_table k' = global_inode_table k \<and> table_tail k' = table_tail k \<and> fd_bitmap k' = fd_bitmap k \<and> fd_entries k' = fd_entries k \<and>
     error_msg k' = error_msg k \<and> sys_fds k' = sys_fds k \<and> disk k' = disk k \<and>
     length (hmem k') = length (hmem k)"

definition with_block_of :: "(nat \<Rightarrow> nat option) \<Rightarrow> dyn \<Rightarrow> nat \<Rightarrow> nat option" where
  "with_block_of L s = (if d_capacity s = 0 then L else L(d_contents s \<mapsto> d_capacity s))"

text \<open>
  The heap of a session: the blocks \<open>L\<close> and the block of the command line \<open>cur\<close>, which holds \<open>line\<close>; the former lie in the first \<open>base\<close> bytes,
  and there is room for a line of \<open>n\<close> characters.
\<close>

definition line_heap :: "(nat \<Rightarrow> nat option) \<Rightarrow> nat \<Rightarrow> nat \<Rightarrow> dyn \<Rightarrow> u8 list \<Rightarrow> AllocArray \<Rightarrow> u8 list \<Rightarrow> bool" where
  "line_heap L base n cur line a mem \<longleftrightarrow>
     heap_ready a (base + cost 1 cur) \<and> base + 10 * n \<le> length mem \<and> length mem \<le> 8192 \<and> heap_live a = with_block_of L cur \<and>
     (0 < d_capacity cur \<longrightarrow> d_contents cur \<notin> dom L) \<and> card (dom L) < 240 \<and> finite (dom L) \<and>
     held a mem 1 cur line \<and> d_len cur = length line \<and> d_capacity cur \<le> 2 * n"

lemma line_heap_held: "line_heap L base n cur line a mem \<Longrightarrow> held a mem 1 cur line"
  by (simp add: line_heap_def)

lemma line_heap_card: "line_heap L base n cur line a mem \<Longrightarrow> card (dom (heap_live a)) < 241"
  by (auto simp: line_heap_def with_block_of_def card_insert_if)

lemma APPEND_line:
  assumes h: "line_heap L base n cur line a mem" and n: "length line < n"
  shows "\<exists>cur' a' mem'. APPEND 1 [c] cur (a, mem) = Inr (cur', a', mem') \<and> line_heap L base n cur' (line @ [c]) a' mem' \<and> 0 < d_capacity cur' \<and>
    keeps (set (own cur)) (a, mem) (a', mem')"
proof -
  have l: "heap_ready a (base + cost 1 cur)" "base + 10 * n \<le> length mem" "length mem \<le> 8192" "heap_live a = with_block_of L cur"
      "0 < d_capacity cur \<Longrightarrow> d_contents cur \<notin> dom L" "card (dom L) < 240" "finite (dom L)" "held a mem 1 cur line" "d_len cur = length line" "d_capacity cur \<le> 2 * n"
    using h by (simp_all add: line_heap_def)
  have g: "growth 1 cur + cost 1 cur \<le> 10 * n" using l(9,10) n by (auto simp: growth_def cost_def)
  obtain s' a' mem' where 1: "APPEND 1 [c] cur (a, mem) = Inr (s', a', mem')" "held a' mem' 1 s' (line @ [c])" "0 < d_capacity s'"
      "d_capacity s' = d_capacity cur \<or> d_capacity s' = 2 \<or> d_capacity s' = 2 * d_len cur" "d_len s' = (if d_capacity cur = 0 then 1 else d_len cur + 1)"
      "heap_ready a' (base + cost 1 cur + growth 1 cur)" "growth 1 cur + cost 1 cur \<le> cost 1 s'" "keeps (set (own cur)) (a, mem) (a', mem')"
      "own s' = own cur \<or> heap_live a (d_contents s') = None" "dom (heap_live a') = dom (heap_live a) - set (own cur) \<union> set (own s')"
    using APPEND_held [OF l(1) _ l(3) _ l(8), of "[c]"] l(2) g line_heap_card [OF h] by (auto simp: add.commute add.left_commute)
  have len: "d_len s' = length (line @ [c])" using 1(2,3) by (simp add: held_def)
  have live: "heap_live a' (d_contents s') = Some (d_capacity s')" using 1(2,3) by (simp add: held_def)
  have D: "dom (heap_live a) - set (own cur) = dom L" using l(4,5) by (auto simp: with_block_of_def own_def)
  have new: "d_contents s' \<notin> dom L" using 1(3,9) l(4,5) by (auto simp: own_def with_block_of_def split: if_splits)
  have "heap_live a' q = L q" if q: "q \<in> dom L" for q
  proof -
    obtain y where y: "L q = Some y" using q by blast
    have "q \<notin> set (own cur)" using q l(5) by (auto simp: own_def split: if_splits)
    moreover from this have "heap_live a q = Some y" using y l(4) by (auto simp: own_def with_block_of_def split: if_splits)
    ultimately show ?thesis using 1(8) y by (simp add: keeps_def)
  qed
  moreover have "heap_live a' q = None" if "q \<notin> dom L" "q \<noteq> d_contents s'" for q
    using 1(3,10) that D by (auto simp: own_def)
  ultimately have "heap_live a' q = with_block_of L s' q" for q
    using live 1(3) new by (cases "q = d_contents s'"; cases "q \<in> dom L") (auto simp: with_block_of_def)
  then have "heap_live a' = with_block_of L s'" ..
  moreover have "heap_ready a' (base + cost 1 s')" using 1(6,7) unfolding heap_ready_def by fastforce
  moreover have "d_capacity s' \<le> 2 * n" using 1(4) l(9,10) n by auto
  moreover have "length mem' = length mem" using 1(8) by (simp add: keeps_def)
  ultimately have "line_heap L base n s' (line @ [c]) a' mem'" using l 1(2,3) len new by (simp add: line_heap_def)
  then show ?thesis using 1 by blast
qed

lemma shorten_line:
  assumes "line_heap L base n cur line a mem" and "m \<le> length line"
  shows "line_heap L base n (cur\<lparr>d_len := m\<rparr>) (take m line) a mem"
proof -
  have "heap_ready a (base + cost 1 (cur\<lparr>d_len := m\<rparr>))" "with_block_of L (cur\<lparr>d_len := m\<rparr>) = with_block_of L cur"
    using assms(1) by (simp_all add: line_heap_def cost_def with_block_of_def)
  moreover have "held a mem 1 (cur\<lparr>d_len := m\<rparr>) (take m line)"
  proof (cases "d_capacity cur = 0")
    case False
    then have h: "length line \<le> d_capacity cur" "heap_live a (d_contents cur) = Some (d_capacity cur)" "cells a mem (d_contents cur) (length line) = line"
      using line_heap_held [OF assms(1)] by (simp_all add: held_def)
    have "cells a mem (d_contents cur) m = take m line" using cells_take [OF assms(2), of a mem "d_contents cur"] unfolding h(3) ..
    then show ?thesis using False h(1,2) assms(2) by (simp add: held_def)
  qed (use line_heap_held [OF assms(1)] in \<open>simp add: held_def\<close>)
  ultimately show ?thesis using assms by (simp add: line_heap_def)
qed

text \<open>A session: \<open>line\<close> has been typed, \<open>ks\<close> wait in the buffer, and the terminal can take \<open>out\<close>.\<close>

definition session :: "(nat \<Rightarrow> nat option) \<Rightarrow> nat \<Rightarrow> nat \<Rightarrow> kernel \<Rightarrow> u8 list \<Rightarrow> u8 list \<Rightarrow> u8 list \<Rightarrow> shell_state \<Rightarrow> bool" where
  "session L base n k0 line ks out s \<longleftrightarrow>
     console (sh_kernel s) out \<and> ring_inv (kbd (sh_kernel s)) \<and> ring_abs (kbd (sh_kernel s)) = ks \<and> same_fs k0 (sh_kernel s) \<and>
     line_heap L base n (curr_command s) line (heap (sh_kernel s)) (hmem (sh_kernel s)) \<and> d_contents (working_dir s) \<in> dom L"

fun rounds :: "world \<Rightarrow> outside \<Rightarrow> nat \<Rightarrow> shell_state \<Rightarrow> (shell_state + kernel) res" where
  "rounds w x 0 s = Inr (Inl s)"
| "rounds w x (Suc n) s = obind (shell_round w x s) (\<lambda>r. case r of Inl s1 \<Rightarrow> rounds w x n s1 | Inr k \<Rightarrow> Inr (Inr k))"

lemma rounds_add:
  "rounds w x (m + n) s = obind (rounds w x m s) (\<lambda>r. case r of Inl s1 \<Rightarrow> rounds w x n s1 | Inr k \<Rightarrow> Inr (Inr k))"
proof (induction m arbitrary: s)
  case (Suc m)
  then show ?case by (cases "shell_round w x s") (auto split: sum.splits)
qed simp

lemma console_kbd [simp]: "console (k\<lparr>kbd := rb\<rparr>) out = console k out"
  by (simp add: console_def tty_fd0_def)

lemma console_heap [simp]: "console (k\<lparr>heap := a, hmem := m\<rparr>) out = console k out" "console (k\<lparr>heap := a\<rparr>) out = console k out"
  by (simp_all add: console_def tty_fd0_def)

lemma same_fs_refl: "same_fs k k"
  by (simp add: same_fs_def)

lemma same_fs_step:
  "same_fs k0 k \<Longrightarrow> same_fs k0 (k\<lparr>kbd := rb\<rparr>)" "same_fs k0 k \<Longrightarrow> same_fs k0 (k\<lparr>tty := tm, screen := sc\<rparr>)" "same_fs k0 k \<Longrightarrow> length m = length (hmem k) \<Longrightarrow> same_fs k0 (k\<lparr>heap := a, hmem := m\<rparr>)"
  by (simp_all add: same_fs_def)

text \<open>A character is read and, unless it is a backspace, echoed.\<close>

lemma round_reads:
  assumes s: "session L base n k0 line (c # ks) out s" and j: "length (junk (env w) 1) = 1"
  shows "\<exists>k1. read_file w (sh_kernel s) STDIN (junk (env w) 1) 1 = Inr (1, [c], k1) \<and> session L base n k0 line ks out (s\<lparr>sh_kernel := k1\<rparr>)"
proof -
  have c: "console (sh_kernel s) out" "ring_inv (kbd (sh_kernel s))" "ring_abs (kbd (sh_kernel s)) = c # ks" using s by (simp_all add: session_def)
  from console_read [OF c(1,2) j, of w] obtain rb where
      "read_file w (sh_kernel s) 0 (junk (env w) 1) 1 = Inr (1, [c], (sh_kernel s)\<lparr>kbd := rb\<rparr>)" "ring_inv rb" "ring_abs rb = ks"
    using c(3) by auto
  then show ?thesis using s same_fs_step(1) [of k0 "sh_kernel s"] by (simp add: session_def STDIN_def)
qed

lemma session_write:
  assumes s: "session L base n k0 line ks (a @ out) s" and buf: "take (length a) buf = a" "a \<noteq> []"
  shows "\<exists>k1. write_file w (sh_kernel s) 0 buf (length a) = Inr (length a, k1) \<and> session L base n k0 line ks out (s\<lparr>sh_kernel := k1\<rparr>)"
proof -
  have c: "console (sh_kernel s) (a @ out)" using s by (simp add: session_def)
  from console_write [OF c buf, of w] obtain tm sc where
      "write_file w (sh_kernel s) 0 buf (length a) = Inr (length a, (sh_kernel s)\<lparr>tty := tm, screen := sc\<rparr>)" "console ((sh_kernel s)\<lparr>tty := tm, screen := sc\<rparr>) out"
    by blast
  then show ?thesis using s same_fs_step(2) [of k0 "sh_kernel s"] by (simp add: session_def)
qed

lemma shell_round_char:
  assumes s: "session L base n k0 line (c # ks) ((if c = 8 \<and> line = [] then [] else [c]) @ out) s" and j: "length (junk (env w) 1) = 1"
    and c: "c \<noteq> 10" and n: "length line < n"
  shows "\<exists>s'. shell_round w x s = Inr (Inl s') \<and> session L base n k0 (edit line c) ks out s' \<and> working_dir s' = working_dir s"
proof -
  obtain k1 where 1: "read_file w (sh_kernel s) STDIN (junk (env w) 1) 1 = Inr (1, [c], k1)"
      "session L base n k0 line ks ((if c = 8 \<and> line = [] then [] else [c]) @ out) (s\<lparr>sh_kernel := k1\<rparr>)"
    using round_reads [OF s j] by blast
  have len: "d_len (curr_command s) = length line" using s by (simp add: session_def line_heap_def)
  show ?thesis
  proof (cases "c = 8 \<and> line = []")
    case True
    then show ?thesis using 1 len by (simp add: shell_round_def edit_def)
  next
    case False
    have e: "(if c = 8 \<and> line = [] then [] else [c]) @ out = [c] @ out" using False by simp
    note s1 = 1(2) [unfolded e]
    show ?thesis
    proof (cases "c = 8")
      case True
      then obtain k2 where k2: "write_file w k1 0 [8, 0] 1 = Inr (1, k2)" "session L base n k0 line ks out (s\<lparr>sh_kernel := k2\<rparr>)"
        using session_write [OF s1, of "[8, 0]" w] by auto
      have "line_heap L base n ((curr_command s)\<lparr>d_len := length line - 1\<rparr>) (butlast line) (heap k2) (hmem k2)"
        using shorten_line [of L base n "curr_command s" line "heap k2" "hmem k2" "length line - 1"] k2(2) by (simp add: session_def butlast_conv_take)
      then show ?thesis using 1(1) k2 len True False by (simp add: shell_round_def STDOUT_def edit_def session_def)
    next
      case c8: False
      obtain k2 where k2: "write_file w k1 0 [c] 1 = Inr (1, k2)" "session L base n k0 line ks out (s\<lparr>sh_kernel := k2\<rparr>)"
        using session_write [OF s1, of "[c]" w] by auto
      then have lh: "line_heap L base n (curr_command s) line (heap k2) (hmem k2)" by (simp add: session_def)
      obtain cur a m where "APPEND 1 [c] (curr_command s) (heap k2, hmem k2) = Inr (cur, a, m)" "line_heap L base n cur (line @ [c]) a m" "length m = length (hmem k2)"
        using APPEND_line [OF lh n, of c] by (auto simp: keeps_def)
      then show ?thesis using 1(1) k2 c c8 same_fs_step(3) [of k0 k2] by (simp add: shell_round_def STDOUT_def edit_def session_def APPEND_char_def)
    qed
  qed
qed

lemma length_edit: "length (edit line c) \<le> length line + 1"
  by (auto simp: edit_def)

lemma shell_types:
  assumes "session L base n k0 line (cs @ ks) (echo line cs @ out) s" and "length (junk (env w) 1) = 1" and "10 \<notin> set cs"
    and "length line + length cs \<le> n"
  shows "\<exists>s'. rounds w x (length cs) s = Inr (Inl s') \<and> session L base n k0 (foldl edit line cs) ks out s' \<and> working_dir s' = working_dir s"
  using assms
proof (induction cs arbitrary: line s)
  case (Cons c cs)
  obtain s1 where s1: "shell_round w x s = Inr (Inl s1)" "session L base n k0 (edit line c) (cs @ ks) (echo (edit line c) cs @ out) s1" "working_dir s1 = working_dir s"
    using shell_round_char [of L base n k0 line c "cs @ ks" "echo (edit line c) cs @ out" s w x] Cons.prems by auto
  show ?case using Cons.IH [OF s1(2)] Cons.prems s1 length_edit [of line c] by fastforce
qed simp

section \<open>What creating a file leaves alone\<close>

definition same_layout :: "kernel \<Rightarrow> kernel \<Rightarrow> bool" where
  "same_layout k k' \<longleftrightarrow> (global_super k')\<lparr>used_inodes := 0\<rparr> = (global_super k)\<lparr>used_inodes := 0\<rparr> \<and>
     (used_inodes (global_super k) < 4294967296 \<longrightarrow> used_inodes (global_super k') < 4294967296) \<and> table_tail k' = table_tail k"

lemma same_layout_trans: "same_layout k k1 \<Longrightarrow> same_layout k1 k2 \<Longrightarrow> same_layout k k2"
  by (auto simp: same_layout_def)

lemma same_layout_eq: "global_super k' = global_super k \<Longrightarrow> table_tail k' = table_tail k \<Longrightarrow> same_layout k k'"
  by (simp add: same_layout_def)

definition same_env :: "kernel \<Rightarrow> kernel \<Rightarrow> bool" where
  "same_env k k' \<longleftrightarrow> heap k' = heap k \<and> hmem k' = hmem k \<and> kbd k' = kbd k \<and> tty k' = tty k \<and> screen k' = screen k"

lemma same_env_trans: "same_env k k1 \<Longrightarrow> same_env k1 k2 \<Longrightarrow> same_env k k2"
  by (simp add: same_env_def)

lemma seek_directory_env: "seek_directory k mem off = Inr (r, k') \<Longrightarrow> same_env k k'"
  by (auto simp: seek_directory_def same_env_def PUSH_ERROR_def split: if_splits option.splits)

lemma search_dir_env: "search_dir k d nm off = Inr (r, k') \<Longrightarrow> same_env k k'"
  by (auto simp: search_dir_def same_env_def PUSH_ERROR_def Let_def split: if_splits option.splits)

lemma seek_directory_layout: "seek_directory k mem off = Inr (r, k') \<Longrightarrow> same_layout k k'"
  by (rule same_layout_eq; auto simp: seek_directory_def PUSH_ERROR_def split: if_splits option.splits)

lemma search_dir_layout: "search_dir k d nm off = Inr (r, k') \<Longrightarrow> same_layout k k'"
  by (rule same_layout_eq; auto simp: search_dir_def PUSH_ERROR_def Let_def split: if_splits option.splits)

lemma allocate_inode_layout: "allocate_inode k pp ft al = Inr (r, k') \<Longrightarrow> same_layout k k'"
  by (auto simp: allocate_inode_def PUSH_ERROR_def same_layout_def split: if_splits dest!: seek_directory_layout search_dir_layout)

lemma link_file_in_dir_layout: "link_file_in_dir k d i = Inr k' \<Longrightarrow> same_layout k k'"
  by (rule same_layout_eq; auto simp: link_file_in_dir_def write_block_def Let_def)

lemma create_filetype_layout:
  assumes "create_filetype k path off ft False = Inr (0, k')"
  shows "same_layout k k'"
proof -
  obtain pp k1 pair k2 k3 where 1: "Path k path off = Inr (pp, k1)" "allocate_inode k1 pp ft (ft \<noteq> 2) = Inr (pair, k2)"
      "link_file_in_dir k2 (dir_inode_num pair) (file_inode_num pair) = Inr k3" "free_path k3 pp = Inr k'"
    using assms by (auto simp: create_filetype_def split: if_splits)
  have "same_layout k k1" "same_layout k3 k'" using 1(1,4) by (auto simp: Path_def free_path_def Let_def intro!: same_layout_eq)
  then show ?thesis using allocate_inode_layout [OF 1(2)] link_file_in_dir_layout [OF 1(3)] same_layout_trans by blast
qed

lemma allocate_inode_env: "allocate_inode k pp ft al = Inr (r, k') \<Longrightarrow> same_env k k'"
  by (auto simp: allocate_inode_def PUSH_ERROR_def same_env_def split: if_splits dest!: seek_directory_env search_dir_env)

lemma link_file_in_dir_env: "link_file_in_dir k d i = Inr k' \<Longrightarrow> same_env k k'"
  by (auto simp: link_file_in_dir_def same_env_def write_block_def Let_def)

text \<open>Without a descriptor, \<open>create_filetype\<close> touches the heap in \<open>Path\<close> and \<open>free_path\<close> only.\<close>

lemma create_filetype_env:
  assumes "create_filetype k path off ft False = Inr (0, k')"
  obtains pp k1 h1 where "Path k path off = Inr (pp, k1)" "hmem k' = hmem k1" "kbd k' = kbd k" "tty k' = tty k" "screen k' = screen k"
    and "kfree (heap k1) (dir_path pp) = Inr h1" "kfree h1 (filename pp) = Inr (heap k')"
proof -
  obtain pp k1 pair k2 k3 k5 where 1: "Path k path off = Inr (pp, k1)" "allocate_inode k1 pp ft (ft \<noteq> 2) = Inr (pair, k2)"
      "link_file_in_dir k2 (dir_inode_num pair) (file_inode_num pair) = Inr k3" "free_path k3 pp = Inr k'"
    using assms by (auto simp: create_filetype_def split: if_splits)
  have e: "same_env k1 k3" using allocate_inode_env [OF 1(2)] link_file_in_dir_env [OF 1(3)] by (rule same_env_trans)
  obtain h1 h2 where h1: "kfree (heap k3) (dir_path pp) = Inr h1" "kfree h1 (filename pp) = Inr h2" "k' = k3\<lparr>heap := h2\<rparr>"
    using 1(4) by (auto simp: free_path_def)
  have "kbd k1 = kbd k" "tty k1 = tty k" "screen k1 = screen k" using 1(1) by (auto simp: Path_def Let_def)
  then show thesis using that [OF 1(1), of h1] h1 e by (simp add: same_env_def)
qed

lemma created_frame:
  assumes inv: "heap_inv (heap k)" and arg: "path_arg k path off (47 # join_path cs @ nm)" and nm: "47 \<notin> set nm"
    and c: "create_filetype k path off ft False = Inr (0, k')"
  shows "kbd k' = kbd k" and "tty k' = tty k" and "screen k' = screen k" and "bottom (heap k') = bottom (heap k)"
    and "heap_live (heap k) q = Some n \<Longrightarrow> bottom (heap k) \<le> q \<Longrightarrow>
      take n (drop (q - bottom (heap k)) (hmem k')) = take n (drop (q - bottom (heap k)) (hmem k))"
proof -
  obtain pp k1 h1 where 1: "Path k path off = Inr (pp, k1)" "hmem k' = hmem k1" "kbd k' = kbd k" "tty k' = tty k" "screen k' = screen k"
      "kfree (heap k1) (dir_path pp) = Inr h1" "kfree h1 (filename pp) = Inr (heap k')"
    by (rule create_filetype_env [OF c])
  obtain dp fn h2 where room: "path_room k (length (47 # join_path cs @ nm) + 1) dp fn h2" and
    a: "cstr_at path off (47 # join_path cs @ nm)" "length (47 # join_path cs @ nm) < 4294967295"
    using arg by (auto simp: path_arg_def)
  obtain m where m: "Path k path off = Inr (\<lparr>dir_path = dp, filename = fn\<rparr>, k\<lparr>heap := h2, hmem := m\<rparr>)"
      "\<forall>q n. heap_live (heap k) q = Some n \<and> bottom (heap k) \<le> q \<longrightarrow> take n (drop (q - bottom (heap k)) m) = take n (drop (q - bottom (heap k)) (hmem k))"
    using Path_room(1) [OF inv a(1) nm a(2) room] by blast
  have k1: "k1 = k\<lparr>heap := h2, hmem := m\<rparr>" using m(1) 1(1) by simp
  obtain h0 where h0: "kmalloc (heap k) (length (47 # join_path cs @ nm) + 1) = Inr (dp, h0)" "kmalloc h0 (length (47 # join_path cs @ nm) + 1) = Inr (fn, h2)"
    using room by (auto simp: path_room_def)
  have "heap_inv h0" "bottom h0 = bottom (heap k)" using kmalloc_result(1,2) [OF inv _ h0(1)] by simp_all
  then have "bottom h2 = bottom (heap k)" using kmalloc_result(2) [OF _ _ h0(2)] by simp
  then show "bottom (heap k') = bottom (heap k)" using kfree_bottom [OF 1(6)] kfree_bottom [OF 1(7)] k1 by simp
  show "kbd k' = kbd k" "tty k' = tty k" "screen k' = screen k" by (fact 1)+
  show "take n (drop (q - bottom (heap k)) (hmem k')) = take n (drop (q - bottom (heap k)) (hmem k))"
    if "heap_live (heap k) q = Some n" "bottom (heap k) \<le> q" using m(2) that 1(2) k1 by simp
qed

lemma path_room_ready:
  assumes r: "heap_ready (heap k) hi" and m: "0 < m" "hi + 6 + 2 * m \<le> length (hmem k)" "length (hmem k) \<le> 8192" and c: "card (dom (heap_live (heap k))) < 255"
  shows "\<exists>dp fn h2. path_room k m dp fn h2"
proof -
  have "hi + 3 + m \<le> 8192" "card (dom (heap_live (heap k))) < 256" using m c by simp_all
  from kmalloc_ready [OF r m(1) this] obtain dp h1 where 1: "kmalloc (heap k) m = Inr (dp, h1)" "heap_ready h1 (hi + 3 + m)" "bottom h1 = bottom (heap k)"
      "heap_live h1 = (heap_live (heap k))(dp \<mapsto> m)" "dp + m \<le> bottom (heap k) + (hi + 3 + m)" by blast
  have "card (dom (heap_live h1)) < 256" using c r by (simp add: 1(4) card_insert_if heap_ready_def)
  moreover have "hi + 3 + m + 3 + m \<le> 8192" using m by simp
  ultimately obtain fn h2 where 2: "kmalloc h1 m = Inr (fn, h2)" "fn + m \<le> bottom h1 + (hi + 3 + m + 3 + m)"
    using kmalloc_ready [OF 1(2) m(1)] by blast
  show ?thesis
    by (rule exI [of _ dp], rule exI [of _ fn], rule exI [of _ h2]) (use 1 2 m in \<open>auto simp: path_room_def\<close>)
qed

section \<open>From the line to the words\<close>

lemma heap_ready_mono: "heap_ready a x \<Longrightarrow> x \<le> y \<Longrightarrow> heap_ready a y"
  unfolding heap_ready_def by (meson add_left_mono le_trans)

text \<open>A command line has been split into the words \<open>ws\<close>: the list \<open>cmd\<close> of the strings \<open>strs\<close>, next to the line itself and the blocks \<open>L\<close>.\<close>

definition command_blocks :: "dyn \<Rightarrow> dyn \<Rightarrow> dyn list \<Rightarrow> nat list" where
  "command_blocks cur cmd strs = d_contents cur # d_contents cmd # map d_contents strs"

definition command_heap :: "(nat \<Rightarrow> nat option) \<Rightarrow> nat \<Rightarrow> dyn \<Rightarrow> dyn \<Rightarrow> dyn list \<Rightarrow> u8 list list \<Rightarrow> AllocArray \<Rightarrow> u8 list \<Rightarrow> bool" where
  "command_heap L hi cur cmd strs ws a mem \<longleftrightarrow>
     heap_ready a hi \<and> hi \<le> length mem \<and> length mem \<le> 8192 \<and> string_list a mem cmd strs ws \<and> ws \<noteq> [] \<and>
     (\<exists>n. heap_live a (d_contents cmd) = Some n \<and> 12 * length ws \<le> n) \<and> distinct (command_blocks cur cmd strs) \<and>
     dom (heap_live a) = dom L \<union> set (command_blocks cur cmd strs) \<and> dom L \<inter> set (command_blocks cur cmd strs) = {} \<and>
     (\<forall>q \<in> dom L. heap_live a q = L q) \<and> finite (dom L) \<and> card (dom L) + length ws < 253"

definition command :: "(nat \<Rightarrow> nat option) \<Rightarrow> nat \<Rightarrow> kernel \<Rightarrow> dyn \<Rightarrow> dyn \<Rightarrow> dyn list \<Rightarrow> u8 list list \<Rightarrow> u8 list \<Rightarrow> u8 list \<Rightarrow> kernel \<Rightarrow> bool" where
  "command L hi k0 cur cmd strs ws ks out k \<longleftrightarrow>
     console k out \<and> ring_inv (kbd k) \<and> ring_abs (kbd k) = ks \<and> same_fs k0 k \<and> command_heap L hi cur cmd strs ws (heap k) (hmem k)"

lemma line_cstr:
  assumes "line_heap L base n cur (line @ [0]) a mem" and "0 < d_capacity cur" and "0 \<notin> set line"
  shows "bottom a \<le> d_contents cur" and "cstr_at mem (d_contents cur - bottom a) line"
proof -
  have h: "heap_live a (d_contents cur) = Some (d_capacity cur)" "length (line @ [0 :: u8]) \<le> d_capacity cur" "cells a mem (d_contents cur) (length (line @ [0])) = line @ [0]"
    using line_heap_held [OF assms(1)] assms(2) by (simp_all add: held_def)
  have r: "heap_ready a (base + cost 1 cur)" "base + cost 1 cur \<le> length mem" using assms(1) by (simp_all add: line_heap_def cost_def)
  show "bottom a \<le> d_contents cur" using block_ends(1) [OF r(1) h(1)] .
  let ?o = "d_contents cur - bottom a"
  have fit: "?o + length line < length mem" using block_ends(2) [OF r(1) h(1)] r(2) h(2) by simp
  have c: "take (length line + 1) (drop ?o mem) = line @ [0]" using h(3) by (simp add: cells_def)
  have "take (length line) (take (length line + 1) (drop ?o mem)) = line" unfolding c by simp
  moreover have "mem ! (?o + length line) = take (length line + 1) (drop ?o mem) ! length line" using fit by simp
  then have "mem ! (?o + length line) = 0" unfolding c by simp
  ultimately show "cstr_at mem ?o line" using fit assms(3) by (simp add: cstr_at_def)
qed

lemma line_to_command:
  assumes s: "session L base n k0 line ks out s" and line: "line \<noteq> []" "length line < n" "0 \<notin> set line"
    and ws: "ws = pieces 32 True False [] line" and hi: "hi = base + 10 * n + 10 * (length line + 1) + 54 * length ws" "hi \<le> length (hmem (sh_kernel s))"
    and card: "card (dom L) + length ws < 253"
  shows "\<exists>cur k1 p cmd strs a m. APPEND_char 0 (curr_command s) (sh_kernel s) = Inr (cur, k1) \<and> heap_off (heap k1) (d_contents cur) = Inr p \<and>
    string_split (hmem k1) p 32 True (heap k1, hmem k1) = Inr (cmd, a, m) \<and> command L hi k0 cur cmd strs ws ks out (k1\<lparr>heap := a, hmem := m\<rparr>) \<and>
    length m = length (hmem (sh_kernel s)) \<and> 0 < d_capacity cur \<and> d_capacity cur \<le> 2 * n \<and> heap_live a (d_contents cur) = Some (d_capacity cur)"
proof -
  let ?k = "sh_kernel s"
  have s': "console ?k out" "ring_inv (kbd ?k)" "ring_abs (kbd ?k) = ks" "same_fs k0 ?k" and
    lh: "line_heap L base n (curr_command s) line (heap ?k) (hmem ?k)" using s by (simp_all add: session_def)
  obtain cur a1 m1 where 1: "APPEND 1 [0] (curr_command s) (heap ?k, hmem ?k) = Inr (cur, a1, m1)" "line_heap L base n cur (line @ [0]) a1 m1" "0 < d_capacity cur"
      "length m1 = length (hmem ?k)"
    using APPEND_line [OF lh line(2), of 0] by (auto simp: keeps_def)
  note c = line_cstr [OF 1(2,3) line(3)]
  let ?p = "d_contents cur - bottom a1"
  have l: "heap_ready a1 (base + cost 1 cur)" "length m1 \<le> 8192" "heap_live a1 = L(d_contents cur \<mapsto> d_capacity cur)" "d_contents cur \<notin> dom L" "finite (dom L)" "cost 1 cur \<le> 10 * n"
    using 1(2,3) by (simp_all add: line_heap_def with_block_of_def cost_def)
  have r: "heap_ready a1 (base + 10 * n)" by (rule heap_ready_mono [OF l(1)]) (use l(6) in simp)
  have fin: "card (dom (heap_live a1)) + length (pieces 32 True False [] line) < 254" using card l(3,4,5) ws by (simp add: card_insert_if)
  have fit: "base + 10 * n + 10 * (length line + 1) + 54 * length (pieces 32 True False [] line) \<le> length m1" using hi ws 1(4) by simp
  obtain cmd strs a m where 2: "string_split m1 ?p 32 True (a1, m1) = Inr (cmd, a, m)" "string_list a m cmd strs ws" "keeps (- dom (heap_live a1)) (a1, m1) (a, m)"
      "heap_ready a hi" "distinct (d_contents cmd # map d_contents strs)" "\<exists>n. heap_live a (d_contents cmd) = Some n \<and> 12 * length ws \<le> n"
      "dom (heap_live a) = dom (heap_live a1) \<union> insert (d_contents cmd) (d_contents ` set strs)" "dom (heap_live a1) \<inter> insert (d_contents cmd) (d_contents ` set strs) = {}"
    using string_split_ok [OF r c(2) line(1) fit l(2) fin] unfolding ws [symmetric] hi(1) [symmetric] by blast
  have "\<forall>q \<in> dom L. heap_live a q = L q"
  proof
    fix q assume "q \<in> dom L"
    then obtain y where y: "L q = Some y" "q \<noteq> d_contents cur" using l(4) by blast
    then have "heap_live a1 q = Some y" using l(3) by simp
    then show "heap_live a q = L q" using 2(3) y(1) unfolding keeps_def by fastforce
  qed
  moreover have lm: "length m = length m1" using 2(3) by (simp add: keeps_def)
  ultimately have "command_heap L hi cur cmd strs ws a m"
    unfolding command_heap_def command_blocks_def using 2 l card hi 1(4) ws pieces_nonempty by auto
  then have "command L hi k0 cur cmd strs ws ks out (?k\<lparr>heap := a, hmem := m\<rparr>)"
    using s' same_fs_step(3) [of k0 ?k] lm 1(4) by (simp add: command_def)
  moreover have "heap_live a (d_contents cur) = Some (d_capacity cur)" "d_capacity cur \<le> 2 * n"
    using 2(3) l(3) 1(2) unfolding keeps_def by (fastforce, simp add: line_heap_def)
  ultimately show ?thesis using 1(1,3,4) 2(1) c(1) lm
    by (intro exI [of _ cur] exI [of _ "?k\<lparr>heap := a1, hmem := m1\<rparr>"] exI [of _ ?p] exI [of _ cmd] exI [of _ strs] exI [of _ a] exI [of _ m]) (simp add: APPEND_char_def heap_off_def)
qed

section \<open>Words\<close>

lemma rd_le32_fits: "rd_le32 mem p = Inr v \<Longrightarrow> p + 3 < length mem"
  by (auto simp: rd_le32_def rd_Inr_iff)

lemma rd_string_fits: "rd_string mem p = Inr v \<Longrightarrow> p + 12 \<le> length mem"
  by (auto simp: rd_string_def dest!: rd_le32_fits)

lemma word_at_ok:
  assumes "command_heap L hi cur cmd strs ws (heap k) (hmem k)" and "i < length ws"
  shows "word_at k cmd i = Inr (d_contents (strs ! i) - bottom (heap k))" and "cstr_at (hmem k) (d_contents (strs ! i) - bottom (heap k)) (ws ! i)"
proof -
  have h: "heap_inv (heap k)" "length (hmem k) \<le> 8192" "string_list (heap k) (hmem k) cmd strs ws" using assms(1) by (simp_all add: command_heap_def heap_ready_def)
  have s: "bottom (heap k) \<le> d_contents cmd" "rd_string (hmem k) (d_contents cmd - bottom (heap k) + 12 * i) = Inr (strs ! i)" "bottom (heap k) \<le> d_contents (strs ! i)"
      "cstr_at (hmem k) (d_contents (strs ! i) - bottom (heap k)) (ws ! i)" using h(3) assms(2) unfolding string_list_def by blast+
  have "bottom (heap k) + 32768 \<le> 4294967296" using h(1) by (simp add: heap_inv_def)
  then have "d_contents cmd + 12 * i < 4294967296" using rd_string_fits [OF s(2)] h(2) by linarith
  moreover have "d_contents cmd + 12 * i - bottom (heap k) = d_contents cmd - bottom (heap k) + 12 * i" using s(1) by simp
  ultimately show "word_at k cmd i = Inr (d_contents (strs ! i) - bottom (heap k))" using s by (simp add: word_at_def heap_off_def)
  show "cstr_at (hmem k) (d_contents (strs ! i) - bottom (heap k)) (ws ! i)" by (rule s(4))
qed

lemma MATCH_ok:
  assumes "command_heap L hi cur cmd strs ws (heap k) (hmem k)" and "i < length ws" and "0 \<notin> set (cstr_of s)"
  shows "MATCH k cmd i s = Inr (ws ! i = cstr_of s)"
proof -
  have "cstr_at (lit s) 0 (cstr_of s)" using assms(3) by (simp add: cstr_at_def lit_def)
  from strcmp_cstr [OF word_at_ok(2) [OF assms(1,2)] this] show ?thesis using word_at_ok(1) [OF assms(1,2)] by (auto simp: MATCH_def)
qed

lemma redirect_none:
  assumes h: "command_heap L hi cur cmd strs ws (heap k) (hmem k)" and "cstr_of ''>'' \<notin> set (butlast ws)" and "i < length ws"
  shows "redirect_loop cmd i k = Inr (STDOUT, k)"
  using assms(3)
proof (induction "length ws - i" arbitrary: i)
  case (Suc d)
  have len: "d_len cmd = length ws" "length ws < 4294967296" using h by (auto simp: command_heap_def string_list_def)
  have w: "w32 (d_len cmd + 4294967295) = length ws - 1" using len Suc.prems by (cases ws) (simp_all add: w32_def mod_if)
  show ?case
  proof (cases "i < length ws - 1")
    case True
    have "ws ! i \<in> set (butlast ws)" using True by (metis length_butlast nth_butlast nth_mem)
    then have "ws ! i \<noteq> cstr_of ''>''" using assms(2) by metis
    moreover have "0 \<notin> set (cstr_of ''>'')" by (simp add: cstr_of_def)
    ultimately have "MATCH k cmd i ''>'' = Inr False" using MATCH_ok [OF h] True by simp
    then show ?thesis using Suc.hyps(1) [of "i + 1"] Suc.hyps(2) True w by (subst redirect_loop.simps) simp
  qed (subst redirect_loop.simps, simp add: w)
qed simp

section \<open>After a command\<close>

lemma rd_string_cong:
  assumes "take 12 (drop p mem') = take 12 (drop p mem)" and "length mem' = length mem"
  shows "rd_string mem' p = rd_string mem p"
proof -
  have "rd mem' (p + i) = rd mem (p + i)" if "i < 12" for i
  proof (cases "p + i < length mem")
    case True
    have "take 12 (drop p mem') ! i = take 12 (drop p mem) ! i" by (simp only: assms(1))
    then show ?thesis using that True assms(2) by simp
  qed (use assms(2) in simp)
  note cell = this
  have "rd_le32 mem' (p + j) = rd_le32 mem (p + j)" if "j + 3 < 12" for j
    using cell [of j] cell [of "j + 1"] cell [of "j + 2"] cell [of "j + 3"] that by (simp add: rd_le32_def add.assoc)
  from this [of 0] this [of 4] this [of 8] show ?thesis by (simp add: rd_string_def)
qed

text \<open>What freeing the list needs: its first string.\<close>

definition freeable :: "nat \<Rightarrow> dyn \<Rightarrow> dyn \<Rightarrow> AllocArray \<Rightarrow> u8 list \<Rightarrow> bool" where
  "freeable hi cmd s0 a mem \<longleftrightarrow> heap_ready a hi \<and> hi \<le> 8192 \<and> 0 < d_len cmd \<and> bottom a \<le> d_contents cmd \<and>
     rd_string mem (d_contents cmd - bottom a) = Inr s0 \<and> heap_live a (d_contents cmd) \<noteq> None \<and> heap_live a (d_contents s0) \<noteq> None \<and>
     d_contents cmd \<noteq> d_contents s0"

lemma command_freeable:
  assumes "command_heap L hi cur cmd strs ws a mem"
  shows "freeable hi cmd (strs ! 0) a mem"
proof -
  have h: "heap_ready a hi" "hi \<le> 8192" "string_list a mem cmd strs ws" "ws \<noteq> []" "distinct (command_blocks cur cmd strs)"
      "dom (heap_live a) = dom L \<union> set (command_blocks cur cmd strs)" using assms by (auto simp: command_heap_def)
  then obtain s0 ss where ss: "strs = s0 # ss" by (cases strs) (auto simp: string_list_def)
  have "rd_string mem (d_contents cmd - bottom a + 12 * 0) = Inr (strs ! 0)" using h(3,4) unfolding string_list_def by blast
  moreover have "d_contents cmd \<in> dom (heap_live a)" "d_contents s0 \<in> dom (heap_live a)" using h(6) ss by (simp_all add: command_blocks_def)
  ultimately show ?thesis using h ss by (auto simp: freeable_def string_list_def command_blocks_def)
qed

lemma freeable_kept:
  assumes f: "freeable hi cmd s0 a mem" and n: "heap_live a (d_contents cmd) = Some n" "12 \<le> n"
    and k: "heap_inv a'" "heap_live a' = heap_live a" "bottom a' = bottom a" "length mem' = length mem"
      "take n (drop (d_contents cmd - bottom a) mem') = take n (drop (d_contents cmd - bottom a) mem)"
  shows "freeable hi cmd s0 a' mem'"
proof -
  have "take 12 (take n (drop (d_contents cmd - bottom a) mem')) = take 12 (take n (drop (d_contents cmd - bottom a) mem))" by (simp only: k(5))
  then have "rd_string mem' (d_contents cmd - bottom a) = rd_string mem (d_contents cmd - bottom a)"
    using n(2) k(4) by (intro rd_string_cong) (simp_all add: min_absorb1)
  then show ?thesis using f k by (simp add: freeable_def heap_ready_def)
qed

lemma FREE_list_ok:
  assumes "freeable hi cmd s0 (heap k) (hmem k)"
  shows "\<exists>h. FREE_list cmd k = Inr (k\<lparr>heap := h, hmem := hmem k\<rparr>) \<and> heap_inv h \<and> heap_live h = (heap_live (heap k))(d_contents s0 := None, d_contents cmd := None) \<and> bottom h = bottom (heap k)"
  using free_string_list_first [of "heap k" hi cmd "hmem k" s0] assms by (auto simp: freeable_def FREE_list_def)

lemma console_lit:
  assumes "console k (cstr_of s @ out)" and "s \<noteq> []"
  shows "\<exists>tm sc. write_lit w 0 s (length s) k = Inr (k\<lparr>tty := tm, screen := sc\<rparr>) \<and> console (k\<lparr>tty := tm, screen := sc\<rparr>) out"
proof -
  have l: "length (cstr_of s) = length s" "cstr_of s \<noteq> []" using assms(2) by (simp_all add: cstr_of_def)
  have "take (length (cstr_of s)) (lit s) = cstr_of s" by (simp add: lit_def)
  from console_write [OF assms(1) this l(2), of w] obtain tm sc where
      "write_file w k 0 (lit s) (length s) = Inr (length s, k\<lparr>tty := tm, screen := sc\<rparr>)" "console (k\<lparr>tty := tm, screen := sc\<rparr>) out"
    unfolding l(1) by blast
  then show ?thesis by (intro exI [of _ tm] exI [of _ sc]) (simp add: write_lit_def)
qed

definition prompt :: "u8 list" where
  "prompt = cstr_of ''\<newline>$ ''"

lemma after_command_ok:
  assumes c: "console k (prompt @ out)" and f: "freeable hi cmd s0 (heap k) (hmem k)"
  shows "\<exists>k'. after_command w STDOUT 0 cmd k = Inr k' \<and> console k' out \<and> same_fs k k' \<and> kbd k' = kbd k \<and> heap_inv (heap k') \<and>
    heap_live (heap k') = (heap_live (heap k))(d_contents s0 := None, d_contents cmd := None) \<and> bottom (heap k') = bottom (heap k)"
proof -
  obtain h where h: "FREE_list cmd k = Inr (k\<lparr>heap := h, hmem := hmem k\<rparr>)" "heap_inv h" "heap_live h = (heap_live (heap k))(d_contents s0 := None, d_contents cmd := None)"
      "bottom h = bottom (heap k)"
    using FREE_list_ok [OF f] by blast
  let ?k = "k\<lparr>heap := h, hmem := hmem k\<rparr>"
  have c': "console ?k (cstr_of ''\<newline>$ '' @ out)" using c by (simp add: prompt_def)
  have l: "length ''\<newline>$ '' = 3" by simp
  obtain tm sc where "write_lit w 0 ''\<newline>$ '' 3 ?k = Inr (?k\<lparr>tty := tm, screen := sc\<rparr>)" "console (?k\<lparr>tty := tm, screen := sc\<rparr>) out"
    using console_lit [OF c', of w] unfolding l by blast
  then show ?thesis using h by (intro exI [of _ "?k\<lparr>tty := tm, screen := sc\<rparr>"]) (simp add: after_command_def STDOUT_def same_fs_def)
qed

section \<open>Creating files and directories\<close>

lemma tree_ok_cong:
  assumes "global_inode_table k' = global_inode_table k" "disk k' = disk k" "global_ibmap k' = global_ibmap k" "global_dbmap k' = global_dbmap k"
  shows "tree_ok k' dirs = tree_ok k dirs"
proof -
  have "directories k' = directories k" "maps_ok k' = maps_ok k" "blocks_ok k' = blocks_ok k"
    using assms by (simp_all add: directories_def type_of_def maps_ok_def blocks_ok_def with_block_def block_of_def fun_eq_iff inj_on_def)
  then show ?thesis using assms dir_of_cong [OF assms(1,2)] by (simp add: tree_ok_def)
qed

lemma tree_ok_same_fs: "same_fs k k' \<Longrightarrow> tree_ok k' dirs = tree_ok k dirs"
  by (rule tree_ok_cong) (simp_all add: same_fs_def)

lemma creatable_same_fs: "same_fs k k' \<Longrightarrow> creatable k' dirs cs nm d i b = creatable k dirs cs nm d i b"
  by (simp add: creatable_def leads_to_def directories_def type_of_def same_fs_def)

lemma tty_fd0_created:
  assumes t: "tty_fd0 k" and cr: "created k es nm ft d i b k'" and fd: "fd_entries k' = fd_entries k"
    and i: "i \<notin> bm_used (global_ibmap k)" and d: "d \<in> directories k"
  shows "tty_fd0 k'"
proof -
  let ?t = "inode_num (fd_entries k ! 0)"
  have t': "?t \<in> bm_used (global_ibmap k)" "file_type (global_inode_table k ! ?t) = 2" "?t < length (global_inode_table k)" using t by (simp_all add: tty_fd0_def Let_def)
  have "?t \<noteq> i" using t'(1) i by metis
  moreover have "?t \<noteq> d" using t'(2) d by (auto simp: directories_def type_of_def)
  ultimately show ?thesis using t cr fd by (simp add: tty_fd0_def created_def Let_def)
qed

lemma pieces_word: "32 \<notin> set w \<Longrightarrow> 34 \<notin> set w \<Longrightarrow> pieces 32 True False acc w = [acc @ w]"
  by (induction w arbitrary: acc) (auto simp: Let_def)

lemma pieces_two:
  assumes "32 \<notin> set w" "34 \<notin> set w" "32 \<notin> set v" "34 \<notin> set v"
  shows "pieces 32 True False acc (w @ 32 # v) = [acc @ w, v]"
  using assms(1,2) by (induction w arbitrary: acc) (auto simp: Let_def pieces_word [OF assms(3,4)])

text \<open>A command that creates: the tree grows by the new node, and the shell is ready for the next line.\<close>

lemma command_creates:
  assumes cm: "command L hi k0 cur cmd strs [verb, 47 # join_path cs @ nm] ks (prompt @ out) k"
    and ok: "tree_ok k0 dirs" and new: "creatable k0 dirs cs nm d i b" and room: "hi + 8 + 2 * length (47 # join_path cs @ nm) \<le> length (hmem k)"
  shows "\<exists>k1 k2. create_filetype k (hmem k) (d_contents (strs ! 1) - bottom (heap k)) ft False = Inr (0, k1) \<and> after_command w STDOUT 0 cmd k1 = Inr k2 \<and>
    created k0 (dirs d) nm ft d i b k2 \<and> console k2 out \<and> kbd k2 = kbd k \<and> fd_entries k2 = fd_entries k0 \<and> fd_bitmap k2 = fd_bitmap k0 \<and> same_layout k0 k2 \<and>
    heap_ready (heap k2) hi \<and> length (hmem k2) = length (hmem k) \<and> heap_live (heap k2) = (heap_live (heap k))(d_contents (strs ! 0) := None, d_contents cmd := None)"
proof -
  let ?p = "47 # join_path cs @ nm" and ?off = "d_contents (strs ! 1) - bottom (heap k)"
  have c: "console k (prompt @ out)" "ring_abs (kbd k) = ks" "same_fs k0 k" and ch: "command_heap L hi cur cmd strs [verb, ?p] (heap k) (hmem k)"
    using cm by (simp_all add: command_def)
  obtain n where n: "heap_live (heap k) (d_contents cmd) = Some n" "24 \<le> n" using ch by (auto simp: command_heap_def)
  have h: "heap_ready (heap k) hi" "heap_inv (heap k)" "length (hmem k) \<le> 8192" "finite (dom L)" "card (dom L) + 2 < 253" "length strs = 2"
      "dom (heap_live (heap k)) = dom L \<union> set (command_blocks cur cmd strs)"
    using ch by (simp_all add: command_heap_def heap_ready_def string_list_def)
  have "card (dom (heap_live (heap k))) \<le> card (dom L) + card (set (command_blocks cur cmd strs))" unfolding h(7) by (rule card_Un_le)
  also have "card (set (command_blocks cur cmd strs)) \<le> length (command_blocks cur cmd strs)" by (rule card_length)
  finally have card: "card (dom (heap_live (heap k))) < 255" using h(5,6) by (simp add: command_blocks_def)
  obtain dp fn h2 where pr: "path_room k (length ?p + 1) dp fn h2"
    using path_room_ready [OF h(1) _ _ h(3) card, of "length ?p + 1"] room by auto
  have cs: "cstr_at (hmem k) ?off ?p" using word_at_ok(2) [OF ch, of 1] by simp
  then have "length ?p < 4294967295" using h(3) by (simp add: cstr_at_def)
  then have arg: "path_arg k (hmem k) ?off ?p" using cs h(2) pr unfolding path_arg_def by blast
  have tk: "tree_ok k dirs" "creatable k dirs cs nm d i b" using ok new tree_ok_same_fs [OF c(3)] creatable_same_fs [OF c(3)] by simp_all
  have nm: "47 \<notin> set nm" using new by (simp add: creatable_def comp_ok_def)
  obtain k1 where k1: "create_filetype k (hmem k) ?off ft False = Inr (0, k1)" "created k (dirs d) nm ft d i b k1" "heap_kept k k1" "fd_entries k1 = fd_entries k" "fd_bitmap k1 = fd_bitmap k"
    using create_nofd_in_tree [OF tk arg, of ft] by blast
  note fr = created_frame [OF h(2) arg nm k1(1)]
  have f: "freeable hi cmd (strs ! 0) (heap k) (hmem k)" by (rule command_freeable [OF ch])
  then have "bottom (heap k) \<le> d_contents cmd" by (simp add: freeable_def)
  then have "freeable hi cmd (strs ! 0) (heap k1) (hmem k1)"
    using freeable_kept [OF f n(1), of "heap k1" "hmem k1"] n(2) k1(3) fr(4) fr(5) [OF n(1)] by (simp add: heap_kept_def)
  moreover have "tty_fd0 k1"
    using tty_fd0_created [OF _ k1(2,4)] c(1) tk(2) by (simp add: console_def creatable_def least_free_def)
  then have "console k1 (prompt @ out)" using c(1) fr(2,3) by (simp add: console_def)
  ultimately obtain k2 where k2: "after_command w STDOUT 0 cmd k1 = Inr k2" "console k2 out" "same_fs k1 k2" "kbd k2 = kbd k1" "heap_inv (heap k2)"
      "heap_live (heap k2) = (heap_live (heap k1))(d_contents (strs ! 0) := None, d_contents cmd := None)" "bottom (heap k2) = bottom (heap k1)"
    using after_command_ok by blast
  have "created k (dirs d) nm ft d i b k2" using created_cong [OF k1(2)] k2(3) by (simp add: same_fs_def)
  then have "created k0 (dirs d) nm ft d i b k2" using c(3) by (simp add: created_def same_fs_def)
  moreover have "fd_entries k2 = fd_entries k0" "fd_bitmap k2 = fd_bitmap k0" using k2(3) k1(4,5) c(3) by (simp_all add: same_fs_def)
  moreover have "same_layout k0 k2"
    using create_filetype_layout [OF k1(1)] c(3) k2(3) by (simp add: same_layout_def same_fs_def)
  moreover have live: "heap_live (heap k1) = heap_live (heap k)" "length (hmem k1) = length (hmem k)" using k1(3) by (simp_all add: heap_kept_def)
  then have "heap_ready (heap k2) hi" using h(1) k2(5-7) fr(4) by (auto simp: heap_ready_def)
  moreover have "kbd k2 = kbd k" "length (hmem k2) = length (hmem k)" using k2(3,4) fr(1) live(2) by (simp_all add: same_fs_def)
  ultimately show ?thesis using k1(1) k2(1,2,6) live(1) by (intro exI [of _ k1] exI [of _ k2]) simp
qed

lemma run_creating:
  assumes h: "command_heap L hi cur cmd strs [cstr_of verb, p] (heap k) (hmem k)"
    and v: "verb = ''touch'' \<and> ft = FILE_TYPE_NORMAL \<or> verb = ''mkdir'' \<and> ft = FILE_TYPE_DIR"
  shows "run_command w x STDOUT cmd k = with_code (create_filetype k (hmem k) (d_contents (strs ! 1) - bottom (heap k)) ft False)"
proof -
  have m: "MATCH k cmd 0 s = Inr (cstr_of verb = cstr_of s)" if "0 \<notin> set (cstr_of s)" for s using MATCH_ok [OF h, of 0 s] that by simp
  have wd: "word_at k cmd 1 = Inr (d_contents (strs ! 1) - bottom (heap k))" using word_at_ok(1) [OF h, of 1] by simp
  show ?thesis using v
  proof (elim disjE conjE)
    assume "verb = ''touch''" "ft = FILE_TYPE_NORMAL"
    then show ?thesis using m wd by (simp add: run_command_def exec_touch_def cstr_of_def)
  next
    assume "verb = ''mkdir''" "ft = FILE_TYPE_DIR"
    then show ?thesis using m wd by (simp add: run_command_def exec_mkdir_def cstr_of_def)
  qed
qed

lemma length_foldl_edit: "length (foldl edit line cs) \<le> length line + length cs"
proof (induction cs arbitrary: line)
  case (Cons c cs)
  show ?case using Cons.IH [of "edit line c"] length_edit [of line c] by simp
qed simp

lemma join_path_chars: "\<forall>x \<in> set cs. comp_ok x \<Longrightarrow> 0 \<notin> set (join_path cs)"
  by (induction cs) (auto simp: join_path_def comp_ok_def name_ok_def)

text \<open>After a command of two words the line is empty again, in the block it had; the second word is still on the heap.\<close>

lemma line_after_command:
  assumes ch: "command_heap L hi cur cmd strs [v, p] a mem" and cur: "heap_live a (d_contents cur) = Some (d_capacity cur)" "0 < d_capacity cur" "d_capacity cur \<le> 2 * n"
    and a': "heap_ready a' hi" "heap_live a' = (heap_live a)(d_contents (strs ! 0) := None, d_contents cmd := None)" "length mem' = length mem"
    and room: "hi + 10 * n \<le> length mem" "card (dom L) < 239"
  shows "\<exists>L'. line_heap L' hi n (cur\<lparr>d_len := 0\<rparr>) [] a' mem' \<and> dom L \<subseteq> dom L'"
proof -
  obtain s0 s1 where strs: "strs = [s0, s1]" using ch by (auto simp: command_heap_def string_list_def length_Suc_conv)
  have h: "length mem \<le> 8192" "distinct [d_contents cur, d_contents cmd, d_contents s0, d_contents s1]"
      "dom (heap_live a) = dom L \<union> {d_contents cur, d_contents cmd, d_contents s0, d_contents s1}" "dom L \<inter> {d_contents cur, d_contents cmd, d_contents s0, d_contents s1} = {}" "finite (dom L)"
    using ch strs by (simp_all add: command_heap_def command_blocks_def)
  let ?L = "(heap_live a')(d_contents cur := None)"
  have live: "heap_live a' (d_contents cur) = Some (d_capacity cur)" using a'(2) cur(1) h(2) strs by auto
  have D: "dom ?L = insert (d_contents s1) (dom L)" using a'(2) h(2-4) strs by auto
  have "heap_live a' = with_block_of ?L (cur\<lparr>d_len := 0\<rparr>)" using live cur(2) by (simp add: with_block_of_def fun_upd_idem)
  moreover have "heap_ready a' (hi + cost 1 (cur\<lparr>d_len := 0\<rparr>))" by (rule heap_ready_mono [OF a'(1)]) simp
  moreover have "card (dom ?L) < 240" unfolding D using room(2) h(5) by (simp add: card_insert_if)
  moreover have "held a' mem' 1 (cur\<lparr>d_len := 0\<rparr>) []" using live cur(2) by (simp add: held_def cells_def)
  ultimately have "line_heap ?L hi n (cur\<lparr>d_len := 0\<rparr>) [] a' mem'"
    unfolding line_heap_def using room(1) h(1,2,4,5) a'(3) cur(3) D by auto
  then show ?thesis using D by blast
qed

lemma end_of_line_creates:
  assumes s: "session L base n k0 (cstr_of verb @ 32 # 47 # join_path cs @ nm) ks (prompt @ out) s"
    and ok: "tree_ok k0 dirs" "creatable k0 dirs cs nm d i b"
    and v: "verb = ''touch'' \<and> ft = FILE_TYPE_NORMAL \<or> verb = ''mkdir'' \<and> ft = FILE_TYPE_DIR"
    and path: "32 \<notin> set (join_path cs @ nm)" "34 \<notin> set (join_path cs @ nm)" and n: "length (cstr_of verb @ 32 # 47 # join_path cs @ nm) < n"
    and room: "base + 22 * n + 120 \<le> length (hmem (sh_kernel s))"
  shows "\<exists>s'. end_of_line w x s = Inr (Inl s') \<and> created k0 (dirs d) nm ft d i b (sh_kernel s') \<and> console (sh_kernel s') out \<and>
    ring_abs (kbd (sh_kernel s')) = ks \<and> d_len (curr_command s') = 0 \<and> fd_entries (sh_kernel s') = fd_entries k0 \<and> fd_bitmap (sh_kernel s') = fd_bitmap k0 \<and> same_layout k0 (sh_kernel s') \<and>
    length (hmem (sh_kernel s')) = length (hmem (sh_kernel s)) \<and>
    (base + 30 * n + 108 \<le> length (hmem (sh_kernel s)) \<and> card (dom L) < 239 \<longrightarrow> (\<exists>L'. session L' (base + 20 * n + 108) n (sh_kernel s') [] ks out s'))"
proof -
  let ?p = "47 # join_path cs @ nm" let ?line = "cstr_of verb @ 32 # ?p"
  have vc: "32 \<notin> set (cstr_of verb)" "34 \<notin> set (cstr_of verb)" "0 \<notin> set (cstr_of verb)" using v by (auto simp: cstr_of_def)
  have ws: "[cstr_of verb, ?p] = pieces 32 True False [] ?line" using pieces_two [OF vc(1,2), of ?p "[]"] path by simp
  have z: "0 \<notin> set ?line" using vc(3) ok(2) join_path_chars [of cs] by (auto simp: creatable_def comp_ok_def name_ok_def)
  let ?hi = "base + 10 * n + 10 * (length ?line + 1) + 54 * length [cstr_of verb, ?p]"
  have lp: "length ?p < length ?line" by simp
  have hi: "?hi + 8 + 2 * length ?p \<le> length (hmem (sh_kernel s))" using room n lp by simp
  have card: "card (dom L) + length [cstr_of verb, ?p] < 253" and len: "d_len (curr_command s) = length ?line" using s by (simp_all add: session_def line_heap_def)
  obtain cur k1 p cmd strs a m where 1: "APPEND_char 0 (curr_command s) (sh_kernel s) = Inr (cur, k1)" "heap_off (heap k1) (d_contents cur) = Inr p"
      "string_split (hmem k1) p 32 True (heap k1, hmem k1) = Inr (cmd, a, m)" "command L ?hi k0 cur cmd strs [cstr_of verb, ?p] ks (prompt @ out) (k1\<lparr>heap := a, hmem := m\<rparr>)"
      and lm: "length m = length (hmem (sh_kernel s))" "0 < d_capacity cur" "d_capacity cur \<le> 2 * n" "heap_live a (d_contents cur) = Some (d_capacity cur)"
    using line_to_command [OF s _ n z ws refl _ card] hi by auto
  let ?k = "k1\<lparr>heap := a, hmem := m\<rparr>"
  have ch: "command_heap L ?hi cur cmd strs [cstr_of verb, ?p] (heap ?k) (hmem ?k)" using 1(4) by (simp add: command_def)
  have "cstr_of verb \<noteq> cstr_of ''>''" using v by (auto simp: cstr_of_def)
  then have rd: "redirect_loop cmd 0 ?k = Inr (STDOUT, ?k)" using redirect_none [OF ch, of 0] by simp
  obtain k2 k3 where 2: "create_filetype ?k (hmem ?k) (d_contents (strs ! 1) - bottom (heap ?k)) ft False = Inr (0, k2)" "after_command w STDOUT 0 cmd k2 = Inr k3"
      "created k0 (dirs d) nm ft d i b k3" "console k3 out" "kbd k3 = kbd ?k"
      "fd_entries k3 = fd_entries k0" "fd_bitmap k3 = fd_bitmap k0" "same_layout k0 k3" "heap_ready (heap k3) ?hi" "length (hmem k3) = length (hmem ?k)"
      "heap_live (heap k3) = (heap_live a)(d_contents (strs ! 0) := None, d_contents cmd := None)"
    using command_creates [OF 1(4) ok, of ft w] hi lm by auto
  have rc: "run_command w x STDOUT cmd ?k = Inr (Some (0, k2))" using run_creating [OF ch v, of w x] 2(1) by (simp add: with_code_def)
  let ?s = "s\<lparr>curr_command := cur\<lparr>d_len := 0\<rparr>, sh_kernel := k3\<rparr>"
  have "end_of_line w x s = Inr (Inl ?s)"
    using 1(1-3) rd rc 2(2) len by (simp add: end_of_line_def STDOUT_def)
  moreover have "\<exists>L'. session L' (base + 20 * n + 108) n k3 [] ks out ?s" if more: "base + 30 * n + 108 \<le> length (hmem (sh_kernel s))" "card (dom L) < 239"
  proof -
    have ge: "?hi \<le> base + 20 * n + 108" using n by simp
    have ch': "command_heap L (base + 20 * n + 108) cur cmd strs [cstr_of verb, ?p] a m"
      using ch heap_ready_mono [OF _ ge] more(1) lm(1) by (simp add: command_heap_def)
    have r: "heap_ready (heap k3) (base + 20 * n + 108)" by (rule heap_ready_mono [OF 2(9) ge])
    have fit: "base + 20 * n + 108 + 10 * n \<le> length m" "length (hmem k3) = length m" using more(1) lm(1) 2(10) by simp_all
    obtain L' where L': "line_heap L' (base + 20 * n + 108) n (cur\<lparr>d_len := 0\<rparr>) [] (heap k3) (hmem k3)" "dom L \<subseteq> dom L'"
      using line_after_command [OF ch' lm(4,2,3) r 2(11) fit(2,1) more(2)] by blast
    then show ?thesis using 2(4,5) 1(4) s by (intro exI [of _ L']) (auto simp: session_def command_def same_fs_refl)
  qed
  ultimately show ?thesis using 2(3-8,10) 1(4) lm(1) by (simp add: command_def)
qed

section \<open>Starting and leaving\<close>

lemma shell_starts:
  assumes c: "console k (cstr_of ''$ '' @ out)" and ring: "ring_inv (kbd k)" and r: "heap_ready (heap k) base" "base + 5 + 10 * n \<le> length (hmem k)" "length (hmem k) \<le> 8192"
    and card: "card (dom (heap_live (heap k))) < 239"
  shows "\<exists>wd k1 k2. APPEND_char 47 no_dyn k = Inr (wd, k1) \<and> write_lit w STDOUT ''$ '' 2 k1 = Inr k2 \<and> heap_live (heap k) (d_contents wd) = None \<and>
    session ((heap_live (heap k))(d_contents wd \<mapsto> 2)) (base + 5) n k [] (ring_abs (kbd k)) out
      \<lparr>curr_command = no_dyn, working_dir = wd, sh_shift = sh, sh_kernel = k2\<rparr> \<and> length (hmem k2) = length (hmem k)"
proof -
  have "base + 3 + 2 * 1 \<le> length (hmem k)" "card (dom (heap_live (heap k))) < 256" "d_capacity no_dyn = 0" using r(2) card by (simp_all add: no_dyn_def)
  then obtain p a m where 1: "APPEND 1 [47] no_dyn (heap k, hmem k) = Inr (\<lparr>d_len = 1, d_capacity = 2, d_contents = p\<rparr>, a, m)" "heap_ready a (base + 5)"
      "heap_live (heap k) p = None" "heap_live a = (heap_live (heap k))(p \<mapsto> 2)" "length m = length (hmem k)"
    using APPEND_first [OF r(1) _ r(3), of 1 no_dyn "[47]"] by (auto simp: keeps_def add.commute numeral_2_eq_2)
  let ?k1 = "k\<lparr>heap := a, hmem := m\<rparr>" and ?wd = "\<lparr>d_len = 1, d_capacity = 2, d_contents = p\<rparr>"
  have c1: "console ?k1 (cstr_of ''$ '' @ out)" using c by simp
  have l: "length ''$ '' = 2" by simp
  obtain tm sc where 2: "write_lit w 0 ''$ '' 2 ?k1 = Inr (?k1\<lparr>tty := tm, screen := sc\<rparr>)" "console (?k1\<lparr>tty := tm, screen := sc\<rparr>) out"
    using console_lit [OF c1, of w] unfolding l by blast
  have fin: "finite (dom (heap_live (heap k)))" using r(1) by (simp add: heap_ready_def)
  have "line_heap (heap_live a) (base + 5) n no_dyn [] a m"
    using 1 r card fin by (simp add: line_heap_def with_block_of_def held_def no_dyn_def cost_def card_insert_if)
  then have "session (heap_live a) (base + 5) n k [] (ring_abs (kbd k)) out \<lparr>curr_command = no_dyn, working_dir = ?wd, sh_shift = sh, sh_kernel = ?k1\<lparr>tty := tm, screen := sc\<rparr>\<rparr>"
    using 2(2) ring 1(4,5) by (simp add: session_def same_fs_def)
  then show ?thesis using 1 2(1) by (intro exI [of _ ?wd] exI [of _ ?k1] exI [of _ "?k1\<lparr>tty := tm, screen := sc\<rparr>"]) (simp add: APPEND_char_def STDOUT_def)
qed

lemma kfree_ready:
  assumes "heap_ready a hi" and "heap_live a p \<noteq> None"
  shows "\<exists>a'. kfree a p = Inr a' \<and> heap_ready a' hi \<and> heap_live a' = (heap_live a)(p := None) \<and> bottom a' = bottom a"
proof -
  have "heap_inv a" using assms(1) by (simp add: heap_ready_def)
  then obtain a' where "kfree a p = Inr a'" "heap_inv a'" "heap_live a' = (heap_live a)(p := None)" using kfree_live [of a p] assms(2) by blast
  then show ?thesis using kfree_bottom [of a p a'] assms(1) by (auto simp: heap_ready_def)
qed

lemma FREE_string_ok:
  assumes "freeable hi cmd s0 (heap k) (hmem k)" and "heap_live (heap k) (d_contents s) \<noteq> None" "d_contents s \<noteq> d_contents cmd" "d_contents s \<noteq> d_contents s0"
  shows "\<exists>h. FREE_string s k = Inr (k\<lparr>heap := h, hmem := hmem k\<rparr>) \<and> freeable hi cmd s0 h (hmem k) \<and> heap_live h = (heap_live (heap k))(d_contents s := None)"
  using kfree_ready [of "heap k" hi "d_contents s"] assms by (auto simp: freeable_def FREE_string_def free_string_def)

lemma end_of_line_exits:
  assumes s: "session L base n k0 (cstr_of ''exit'') ks out s" and n: "4 < n" and room: "base + 22 * n + 120 \<le> length (hmem (sh_kernel s))"
  shows "\<exists>k'. end_of_line w x s = Inr (Inr k') \<and> same_fs k0 k' \<and> console k' out \<and> heap_inv (heap k') \<and> heap_live (heap k') = L(d_contents (working_dir s) := None)"
proof -
  let ?line = "cstr_of ''exit''"
  have z: "?line \<noteq> []" "0 \<notin> set ?line" and ws: "[?line] = pieces 32 True False [] ?line" and l4: "length ?line = 4" by (simp_all add: cstr_of_def)
  let ?hi = "base + 10 * n + 10 * (length ?line + 1) + 54 * length [?line]"
  have hi: "?hi \<le> length (hmem (sh_kernel s))" using room l4 by simp
  have card: "card (dom L) + length [?line] < 253" and len: "d_len (curr_command s) = length ?line" and wd: "d_contents (working_dir s) \<in> dom L"
    using s by (simp_all add: session_def line_heap_def)
  obtain cur k1 p cmd strs a m where 1: "APPEND_char 0 (curr_command s) (sh_kernel s) = Inr (cur, k1)" "heap_off (heap k1) (d_contents cur) = Inr p"
      "string_split (hmem k1) p 32 True (heap k1, hmem k1) = Inr (cmd, a, m)" "command L ?hi k0 cur cmd strs [?line] ks out (k1\<lparr>heap := a, hmem := m\<rparr>)"
    using line_to_command [OF s z(1) _ z(2) ws refl hi card] n l4 by auto
  let ?k = "k1\<lparr>heap := a, hmem := m\<rparr>"
  have ch: "command_heap L ?hi cur cmd strs [?line] (heap ?k) (hmem ?k)" and sf: "same_fs k0 ?k" "console ?k out" using 1(4) by (simp_all add: command_def)
  have rd: "redirect_loop cmd 0 ?k = Inr (STDOUT, ?k)" using redirect_none [OF ch, of 0] by simp
  have rc: "run_command w x STDOUT cmd ?k = Inr None" using MATCH_ok [OF ch, of 0 "''exit''"] z(2) by (simp add: run_command_def)
  obtain s0 where s0: "strs = [s0]" using ch by (auto simp: command_heap_def string_list_def length_Suc_conv)
  have D: "distinct [d_contents cur, d_contents cmd, d_contents s0]" "dom (heap_live a) = dom L \<union> {d_contents cur, d_contents cmd, d_contents s0}"
      "dom L \<inter> {d_contents cur, d_contents cmd, d_contents s0} = {}" "\<forall>q \<in> dom L. heap_live a q = L q"
    using ch s0 by (simp_all add: command_heap_def command_blocks_def)
  have f: "freeable ?hi cmd s0 (heap ?k) (hmem ?k)" using command_freeable [OF ch] s0 by simp
  have "heap_live a (d_contents cur) \<noteq> None" using D(2) by blast
  then obtain h1 where 2: "FREE_string cur ?k = Inr (?k\<lparr>heap := h1, hmem := m\<rparr>)" "freeable ?hi cmd s0 h1 m" "heap_live h1 = (heap_live a)(d_contents cur := None)"
    using FREE_string_ok [OF f, of cur] D(1) by auto
  let ?k1 = "?k\<lparr>heap := h1, hmem := m\<rparr>"
  have "heap_live h1 (d_contents (working_dir s)) \<noteq> None" using 2(3) D(2,3) wd by auto
  moreover have "d_contents (working_dir s) \<noteq> d_contents cmd" "d_contents (working_dir s) \<noteq> d_contents s0" using D(3) wd by blast+
  ultimately obtain h2 where 3: "FREE_string (working_dir s) ?k1 = Inr (?k1\<lparr>heap := h2, hmem := m\<rparr>)" "freeable ?hi cmd s0 h2 m"
      "heap_live h2 = (heap_live h1)(d_contents (working_dir s) := None)"
    using FREE_string_ok [of ?hi cmd s0 ?k1 "working_dir s"] 2(2) by auto
  let ?k2 = "?k1\<lparr>heap := h2, hmem := m\<rparr>"
  obtain h3 where 4: "FREE_list cmd ?k2 = Inr (?k2\<lparr>heap := h3, hmem := m\<rparr>)" "heap_inv h3" "heap_live h3 = (heap_live h2)(d_contents s0 := None, d_contents cmd := None)"
    using FREE_list_ok [of ?hi cmd s0 ?k2] 3(2) by auto
  let ?B = "{d_contents cur, d_contents cmd, d_contents s0}"
  have "heap_live h3 q = (L(d_contents (working_dir s) := None)) q" for q
  proof -
    have e: "heap_live h3 q = (if q \<in> ?B \<or> q = d_contents (working_dir s) then None else heap_live a q)" by (simp add: 4(3) 3(3) 2(3))
    consider "q \<in> ?B" | "q \<notin> ?B" "q \<in> dom L" | "q \<notin> ?B" "q \<notin> dom L" by blast
    then show ?thesis
    proof cases
      case 1
      then have "L q = None" using D(3) by blast
      then show ?thesis using 1 unfolding e by simp
    next
      case 2
      then show ?thesis using D(4) unfolding e by simp
    next
      case 3
      then have "heap_live a q = None" "L q = None" using D(2) by blast+
      then show ?thesis unfolding e by simp
    qed
  qed
  then have "heap_live h3 = L(d_contents (working_dir s) := None)" ..
  moreover have "end_of_line w x s = Inr (Inr (?k2\<lparr>heap := h3, hmem := m\<rparr>))"
    using 1(1-3) rd rc 2(1) 3(1) 4(1) len l4 by (simp add: end_of_line_def STDOUT_def)
  ultimately show ?thesis using 4(2) sf by (simp add: same_fs_def)
qed

lemma rounds_return:
  assumes "rounds w x n s = Inr (Inr k)" and "\<forall>j \<ge> i. key_events x j = []"
  shows "loop_res (shell_step w x) (i, s) = Inr k"
  using assms
proof (induction n arbitrary: s i)
  case (Suc n)
  from Suc.prems obtain r where r: "shell_round w x s = Inr r" by auto
  show ?case
  proof (cases r)
    case (Inl s1)
    have "loop_res (shell_step w x) (i + 1, s1) = Inr k" using Suc.IH Suc.prems r Inl by simp
    then show ?thesis using r Inl Suc.prems(2) by (simp add: loop_res_unfold [of _ "(i, s)"] shell_step_def)
  qed (use Suc.prems r in \<open>simp add: loop_res_unfold [of _ "(i, s)"] shell_step_def\<close>)
qed simp

text \<open>The round that reads the end of the line.\<close>

lemma shell_round_enter:
  assumes s: "session L base n k0 line (10 # ks) ([10] @ out) s" and j: "length (junk (env w) 1) = 1"
  shows "\<exists>k1. shell_round w x s = end_of_line w x (s\<lparr>sh_kernel := k1\<rparr>) \<and> session L base n k0 line ks out (s\<lparr>sh_kernel := k1\<rparr>)"
proof -
  obtain k1 where 1: "read_file w (sh_kernel s) STDIN (junk (env w) 1) 1 = Inr (1, [10], k1)" "session L base n k0 line ks ([10] @ out) (s\<lparr>sh_kernel := k1\<rparr>)"
    using round_reads [OF s j] by blast
  obtain k2 where "write_file w k1 0 [10] 1 = Inr (1, k2)" "session L base n k0 line ks out (s\<lparr>sh_kernel := k2\<rparr>)"
    using session_write [OF 1(2), of "[10]" w] by auto
  then show ?thesis using 1(1) by (intro exI [of _ k2]) (simp add: shell_round_def STDOUT_def)
qed

lemma line_typed:
  assumes s: "session L base n k0 [] (tp @ 10 # ks) (echo [] tp @ [10] @ out) s" and j: "length (junk (env w) 1) = 1"
    and t: "10 \<notin> set tp" "length tp \<le> n"
  shows "\<exists>s1. rounds w x (length tp + 1) s = end_of_line w x s1 \<and> session L base n k0 (foldl edit [] tp) ks out s1 \<and> working_dir s1 = working_dir s"
proof -
  obtain s1 where s1: "rounds w x (length tp) s = Inr (Inl s1)" "session L base n k0 (foldl edit [] tp) (10 # ks) ([10] @ out) s1" "working_dir s1 = working_dir s"
    using shell_types [OF s j t(1)] t(2) by auto
  obtain k1 where "shell_round w x s1 = end_of_line w x (s1\<lparr>sh_kernel := k1\<rparr>)" "session L base n k0 (foldl edit [] tp) ks out (s1\<lparr>sh_kernel := k1\<rparr>)"
    using shell_round_enter [OF s1(2) j] by blast
  moreover have "rounds w x (length tp + 1) s = shell_round w x s1" unfolding rounds_add using s1(1)
    by (cases "shell_round w x s1") (auto split: sum.splits)
  ultimately show ?thesis using s1(3) by (intro exI [of _ "s1\<lparr>sh_kernel := k1\<rparr>"]) simp
qed

section \<open>A sample kernel\<close>

text \<open>A keyboard buffer that holds a text, and a disk with nothing but the special file \<open>tty\<close>, open as descriptor 0.\<close>

definition ring_of :: "u8 list \<Rightarrow> RingBuffer" where
  "ring_of tp = \<lparr>char_buffer = tp @ replicate (64 - length tp) 0, tty_fd = 0, in_index = length tp, out_index = 0\<rparr>"

lemma ring_of_abs: "length tp < 64 \<Longrightarrow> ring_inv (ring_of tp)" "length tp < 64 \<Longrightarrow> ring_abs (ring_of tp) = tp"
proof -
  assume l: "length tp < 64"
  then show "ring_inv (ring_of tp)" by (simp add: ring_of_def ring_inv_def)
  have "ring_size (ring_of tp) = length tp" using l by (simp add: ring_size_def ring_of_def)
  then show "ring_abs (ring_of tp) = tp" using l by (intro nth_equalityI) (auto simp: ring_abs_def ring_of_def nth_append)
qed

definition tty_tree :: "nat \<Rightarrow> dir_entries" where
  "tty_tree = add_node (\<lambda>_. []) 0 (cstr_of ''tty'') 1"

lemma sample_shell:
  obtains k where "tree_ok k tty_tree" and "creatable k tty_tree [] [97] 0 2 9" and "tty_fd0 k" and "tty k = zero_terminal"
    and "fst (screen k) = fst (screen root_kernel)" and "heap_ready (heap k) 0" and "heap_live (heap k) = (\<lambda>_. None)" and "length (hmem k) = 4096"
proof -
  let ?nm = "cstr_of ''tty''"
  have c: "comp_ok ?nm" "comp_ok [97]" by (simp_all add: comp_ok_def name_ok_def cstr_of_def)
  have arg: "path_arg root_kernel (47 # ?nm @ [0]) 0 (47 # join_path [] @ ?nm)"
    by (rule root_kernel_arg) (simp_all add: cstr_at_def join_path_def cstr_of_def)
  obtain k where k: "create_filetype root_kernel (47 # ?nm @ [0]) 0 2 False = Inr (0, k)" "created root_kernel [] ?nm 2 0 1 9 k" "heap_kept root_kernel k" "fd_entries k = fd_entries root_kernel"
    using create_nofd_in_tree [OF root_kernel_tree root_kernel_creatable [OF c(1)] arg, of 2] by auto
  note fr = created_frame [OF root_kernel_heap(1) arg _ k(1)]
  note tr = created_in_tree [OF root_kernel_tree root_kernel_creatable [OF c(1)] k(2)]
  let ?k = "k\<lparr>fd_entries := (fd_entries k)[0 := new_descriptor ?nm 1 0]\<rparr>"
  have tree: "tree_ok ?k tty_tree" using tr(1) tree_ok_cong [of ?k k] by (simp add: tty_tree_def)
  have used: "bm_used (global_ibmap ?k) = {0, 1}" "bm_used (global_dbmap ?k) = {..< 9}" "length (global_ibmap ?k) = 1024" "length (global_dbmap ?k) = 1024"
    using k(2) root_kernel_maps(1,2) root_kernel_table by (auto simp: created_def)
  have lf: "least_free (global_ibmap ?k) 2" unfolding least_free_def used(1,3) by (auto simp: less_2_cases_iff)
  have lb: "least_free (global_dbmap ?k) 9" unfolding least_free_def used(2,4) by simp
  have "0 \<in> directories ?k" using tree by (simp add: tree_ok_def)
  then have "creatable ?k tty_tree [] [97] 0 2 9" using lf lb c(2) by (simp add: creatable_def leads_to_def tty_tree_def add_node_def cstr_of_def)
  moreover have "tty_fd0 ?k"
    using k(2,4) used(1) by (simp add: tty_fd0_def created_def root_kernel_def new_descriptor_def new_inode_def cstr_at_def overlay_def cstr_of_def)
  moreover have "tty ?k = zero_terminal" "fst (screen ?k) = fst (screen root_kernel)" using fr(2,3) c(1) by (simp_all add: root_kernel_def comp_ok_def)
  moreover have "heap_ready (heap ?k) 0" "heap_live (heap ?k) = (\<lambda>_. None)" "length (hmem ?k) = 4096"
    using k(3) root_kernel_heap by (simp_all add: heap_kept_def heap_ready_def)
  ultimately show thesis using that tree by blast
qed

lemma root_screen [simp]: "screen_ok (fst (screen root_kernel))" "terminal_row (fst (screen root_kernel)) = 0"
  by (simp_all add: root_kernel_def screen_ok_def)

lemma console_sample:
  assumes "tty_fd0 k" and "tty k = zero_terminal" and "screen_ok (fst (screen k))" and "terminal_row (fst (screen k)) \<le> 1"
    and "fits new 0 0" and "line_count new < 20" and "length new < 1024"
  shows "console (k\<lparr>kbd := rb\<rparr>) new"
  unfolding console_kbd using assms by (simp add: console_def tty_room_def tty_text_def zero_terminal_def TERMINAL_BUFFER_SIZE_def)

definition sample_outside :: outside where
  "sample_outside = \<lparr>clock = (\<lambda>_. 0), ticks = (\<lambda>_. 0), key_events = (\<lambda>_. []), file_size_addr = 0xC0100000, call_program = (\<lambda>_ _ k. Inr k)\<rparr>"

lemma roomy_junk [simp]: "length (junk (env roomy_world) n) = n"
  by (simp add: roomy_world_def)

text \<open>A session on the sample kernel, with \<open>tp\<close> waiting in the keyboard's buffer.\<close>

lemma sample_session:
  assumes "length tp < 64" and "fits (cstr_of ''$ '' @ out) 0 0" and "line_count out < 20" and "length out < 1000" and "n \<le> 100"
  obtains L k s where "tree_ok k tty_tree" and "creatable k tty_tree [] [97] 0 2 9" and "session L 5 n k [] tp out s" and "length (hmem (sh_kernel s)) = 4096"
    and "card (dom L) < 239"
proof -
  obtain k where k: "tree_ok k tty_tree" "creatable k tty_tree [] [97] 0 2 9" "tty_fd0 k" "tty k = zero_terminal" "fst (screen k) = fst (screen root_kernel)"
      "heap_ready (heap k) 0" "heap_live (heap k) = (\<lambda>_. None)" "length (hmem k) = 4096"
    by (rule sample_shell)
  let ?k = "k\<lparr>kbd := ring_of tp\<rparr>"
  have "line_count (cstr_of ''$ '' @ out) < 20" "length (cstr_of ''$ '' @ out) < 1024" using assms(3,4) by (simp_all add: line_count_def cstr_of_def)
  then have c: "console ?k (cstr_of ''$ '' @ out)" using console_sample [OF k(3,4)] k(5) assms(2) by simp
  from shell_starts [OF c, of 0 n roomy_world False] obtain wd k2 where
      "session ((heap_live (heap ?k))(d_contents wd \<mapsto> 2)) 5 n ?k [] tp out \<lparr>curr_command = no_dyn, working_dir = wd, sh_shift = False, sh_kernel = k2\<rparr>"
      "length (hmem k2) = length (hmem ?k)"
    using ring_of_abs [OF assms(1)] k(6-8) assms(5) by auto
  moreover have "tree_ok ?k tty_tree" using k(1) tree_ok_cong [of ?k k] by simp
  moreover have "creatable ?k tty_tree [] [97] 0 2 9" using k(2) by (simp add: creatable_def leads_to_def directories_def type_of_def)
  moreover have "card (dom ((heap_live (heap ?k))(d_contents wd \<mapsto> 2))) < 239" using k(7) by simp
  ultimately show thesis using that k(8) by auto
qed

section \<open>Properties\<close>

text \<open>C18: The line editor. Whatever is typed before the end of the line, backspaces included, after one round per character the shell's command string
  holds exactly the edited line, the terminal has taken the echo, and the file system, the other blocks of the heap and the waiting characters behind are as before.\<close>

theorem shell_edits_line:
  assumes "session L base n k0 [] (tp @ ks) (echo [] tp @ out) s" and "length (junk (env w) 1) = 1" and "10 \<notin> set tp" and "length tp \<le> n"
  shows "\<exists>s'. rounds w x (length tp) s = Inr (Inl s') \<and> held (heap (sh_kernel s')) (hmem (sh_kernel s')) 1 (curr_command s') (foldl edit [] tp) \<and>
    d_len (curr_command s') = length (foldl edit [] tp) \<and> console (sh_kernel s') out \<and> ring_abs (kbd (sh_kernel s')) = ks \<and> same_fs k0 (sh_kernel s') \<and>
    (\<forall>q \<in> dom L. heap_live (heap (sh_kernel s')) q = L q)"
proof -
  obtain s' where s': "rounds w x (length tp) s = Inr (Inl s')" "session L base n k0 (foldl edit [] tp) ks out s'"
    using shell_types [OF assms(1-3)] assms(4) by auto
  then have "\<forall>q \<in> dom L. heap_live (heap (sh_kernel s')) q = L q" by (auto simp: session_def line_heap_def with_block_of_def)
  then show ?thesis using s' by (auto simp: session_def line_heap_def)
qed

theorem shell_edits_line_witness:
  "\<exists>s s'. rounds roomy_world sample_outside 5 s = Inr (Inl s') \<and> ring_abs (kbd (sh_kernel s)) = cstr_of ''lt'' @ [8] @ cstr_of ''s '' \<and>
     held (heap (sh_kernel s')) (hmem (sh_kernel s')) 1 (curr_command s') (cstr_of ''ls '')"
proof -
  let ?tp = "cstr_of ''lt'' @ [8] @ cstr_of ''s ''"
  obtain L k s where s: "session L 5 10 k [] ?tp (echo [] ?tp) s"
    by (rule sample_session [of ?tp "echo [] ?tp" 10]) (simp_all add: cstr_of_def edit_def line_count_def)
  have "foldl edit [] ?tp = cstr_of ''ls ''" "length ?tp = 5" "10 \<notin> set ?tp" by (simp_all add: cstr_of_def edit_def)
  moreover have "session L 5 10 k [] (?tp @ []) (echo [] ?tp @ []) s" using s by simp
  ultimately show ?thesis using shell_edits_line [of L 5 10 k ?tp "[]" "[]" s roomy_world sample_outside] s by (auto simp: session_def)
qed

text \<open>C6: From the keyboard to the disk. When the edited line is \<open>touch\<close> or \<open>mkdir\<close> with the path of a new name in an existing directory, the rounds up
  to the end of the line leave a disk that represents the old tree with exactly the new file or directory added; every path that led somewhere still
  leads there, the terminal shows the prompt, and the shell waits with an empty line.\<close>

theorem shell_creates:
  assumes ok: "tree_ok k0 dirs" "creatable k0 dirs cs nm d i b" and s: "session L base n k0 [] (tp @ 10 # ks) (echo [] tp @ [10] @ prompt @ out) s"
    and v: "verb = ''touch'' \<and> ft = FILE_TYPE_NORMAL \<or> verb = ''mkdir'' \<and> ft = FILE_TYPE_DIR"
    and line: "foldl edit [] tp = cstr_of verb @ 32 # 47 # join_path cs @ nm" "10 \<notin> set tp" "length tp < n"
    and path: "32 \<notin> set (join_path cs @ nm)" "34 \<notin> set (join_path cs @ nm)" and room: "base + 22 * n + 120 \<le> length (hmem (sh_kernel s))"
    and j: "length (junk (env w) 1) = 1"
  shows "\<exists>s'. rounds w x (length tp + 1) s = Inr (Inl s') \<and> tree_ok (sh_kernel s') (add_node dirs d nm i) \<and>
    leads_to (sh_kernel s') (add_node dirs d nm i) (cs @ [nm]) i \<and> type_of (sh_kernel s') i = ft \<and>
    (\<forall>cs' j. leads_to k0 dirs cs' j \<longrightarrow> leads_to (sh_kernel s') (add_node dirs d nm i) cs' j) \<and>
    console (sh_kernel s') out \<and> d_len (curr_command s') = 0 \<and> ring_abs (kbd (sh_kernel s')) = ks"
proof -
  obtain s1 where s1: "rounds w x (length tp + 1) s = end_of_line w x s1" "session L base n k0 (foldl edit [] tp) ks (prompt @ out) s1"
    using line_typed [OF s j line(2)] line(3) by auto
  have n: "length (cstr_of verb @ 32 # 47 # join_path cs @ nm) < n" using length_foldl_edit [of "[]" tp] line(1,3) by simp
  have room1: "base + 22 * n + 120 \<le> length (hmem (sh_kernel s1))" using room s s1(2) by (simp add: session_def same_fs_def)
  obtain s' where s': "end_of_line w x s1 = Inr (Inl s')" "created k0 (dirs d) nm ft d i b (sh_kernel s')" "console (sh_kernel s') out"
      "ring_abs (kbd (sh_kernel s')) = ks" "d_len (curr_command s') = 0"
    using end_of_line_creates [OF s1(2) [unfolded line(1)] ok v path n room1] by blast
  note tr = created_in_tree [OF ok s'(2)]
  show ?thesis using s1(1) s' tr by auto
qed

theorem shell_creates_witness:
  "\<exists>k s s'. tree_ok k tty_tree \<and> ring_abs (kbd (sh_kernel s)) = cstr_of ''touch /a'' @ [10] \<and> rounds roomy_world sample_outside 9 s = Inr (Inl s') \<and>
     tree_ok (sh_kernel s') (add_node tty_tree 0 [97] 2) \<and> type_of (sh_kernel s') 2 = FILE_TYPE_NORMAL"
proof -
  let ?tp = "cstr_of ''touch /a''" let ?out = "echo [] ?tp @ [10] @ prompt"
  obtain L k s where k: "tree_ok k tty_tree" "creatable k tty_tree [] [97] 0 2 9" and s: "session L 5 10 k [] (?tp @ [10]) ?out s" "length (hmem (sh_kernel s)) = 4096"
    by (rule sample_session [of "?tp @ [10]" ?out 10]) (simp_all add: cstr_of_def edit_def line_count_def prompt_def)
  have l: "foldl edit [] ?tp = cstr_of ''touch'' @ 32 # 47 # join_path [] @ [97]" "10 \<notin> set ?tp" "length ?tp < 10" "length ?tp + 1 = 9"
    by (simp_all add: cstr_of_def edit_def join_path_def)
  have j: "32 \<notin> set (join_path [] @ [97])" "34 \<notin> set (join_path [] @ [97])" by (simp_all add: join_path_def)
  have s0: "session L 5 10 k [] (?tp @ 10 # []) (echo [] ?tp @ [10] @ prompt @ []) s" using s(1) by simp
  have "\<exists>s'. rounds roomy_world sample_outside (length ?tp + 1) s = Inr (Inl s') \<and> tree_ok (sh_kernel s') (add_node tty_tree 0 [97] 2) \<and> type_of (sh_kernel s') 2 = FILE_TYPE_NORMAL"
    using shell_creates [OF k s0 _ l(1-3) j, of FILE_TYPE_NORMAL roomy_world sample_outside] s(2) by auto
  then show ?thesis using k(1) s(1) unfolding l(4) by (auto simp: session_def)
qed

text \<open>C19: The shell can be left, after any commands before. In any state of a session with an empty line, when \<open>exit\<close> is waiting in the keyboard's buffer, with any corrections
  and whatever is waiting behind it, and no more keys come in while it is read, the loop of the shell ends; the file system is as it was before the line, and the blocks of
  the heap are exactly those that were in use besides the line (among them the words of earlier commands, which the code never gives back) without the working directory.\<close>

theorem shell_exits:
  assumes s: "session L base n k0 [] (tp @ 10 # ks) (echo [] tp @ [10] @ out) s"
    and line: "foldl edit [] tp = cstr_of ''exit''" "10 \<notin> set tp" "length tp < n" "4 < n" and room: "base + 22 * n + 120 \<le> length (hmem (sh_kernel s))"
    and keys: "\<forall>j \<ge> i. key_events x j = []" and j: "length (junk (env w) 1) = 1"
  shows "\<exists>k'. loop_res (shell_step w x) (i, s) = Inr k' \<and> same_fs k0 k' \<and> console k' out \<and> heap_inv (heap k') \<and>
    heap_live (heap k') = L(d_contents (working_dir s) := None)"
proof -
  obtain s1 where s1: "rounds w x (length tp + 1) s = end_of_line w x s1" "session L base n k0 (cstr_of ''exit'') ks out s1" "working_dir s1 = working_dir s"
    using line_typed [OF s j line(2)] line(1,3) by auto
  have room1: "base + 22 * n + 120 \<le> length (hmem (sh_kernel s1))" using room s s1(2) by (simp add: session_def same_fs_def)
  obtain k' where k': "end_of_line w x s1 = Inr (Inr k')" "same_fs k0 k'" "console k' out" "heap_inv (heap k')" "heap_live (heap k') = L(d_contents (working_dir s) := None)"
    using end_of_line_exits [OF s1(2) line(4) room1] s1(3) by auto
  have "rounds w x (length tp + 1) s = Inr (Inr k')" using s1(1) k'(1) by (simp only:)
  then show ?thesis using rounds_return [OF _ keys] k'(2-5) by blast
qed

theorem shell_exits_witness:
  "\<exists>s k'. ring_abs (kbd (sh_kernel s)) = cstr_of ''exut'' @ [8, 8] @ cstr_of ''it'' @ [10] \<and> loop_res (shell_step roomy_world sample_outside) (0, s) = Inr k' \<and> heap_inv (heap k')"
proof -
  let ?tp = "cstr_of ''exut'' @ [8, 8] @ cstr_of ''it''" let ?out = "echo [] ?tp @ [10]"
  obtain L k s where s: "session L 5 10 k [] (?tp @ [10]) ?out s" "length (hmem (sh_kernel s)) = 4096"
    by (rule sample_session [of "?tp @ [10]" ?out 10]) (simp_all add: cstr_of_def edit_def line_count_def)
  have l: "foldl edit [] ?tp = cstr_of ''exit''" "10 \<notin> set ?tp" "length ?tp < 10" "(4 :: nat) < 10" by (simp_all add: cstr_of_def edit_def)
  have s0: "session L 5 10 k [] (?tp @ 10 # []) (echo [] ?tp @ [10] @ []) s" using s(1) by simp
  have "\<forall>j \<ge> 0. key_events sample_outside j = []" by (simp add: sample_outside_def)
  then have "\<exists>k'. loop_res (shell_step roomy_world sample_outside) (0, s) = Inr k' \<and> heap_inv (heap k')"
    using shell_exits [OF s0 l _ _ roomy_junk, of 0 sample_outside] s(2) by auto
  then show ?thesis using s(1) by (auto simp: session_def)
qed

end
