(* ===== verification/Shell_Commands.thy ===== *)
theory Shell_Commands
  imports Shell_Run
begin

text \<open>
  Commands of the shell (\<open>src/src/kernel.c\<close>): \<open>cat\<close> shows a file, and reads its own output when that is redirected; \<open>sget\<close> times out, or runs over its buffer;
  how long \<open>sleep\<close> waits.
\<close>

section \<open>Showing a file\<close>

text \<open>\<open>cat\<close> reads a file byte by byte. A read behind the block is possible: the size of a file may be more than its block holds.\<close>

lemma read_byte:
  assumes "plain_fd k r f" and "read_pos (fd_entries k ! r) = i" and "length cb = 1"
  shows "read_file w k (int r) cb 1 =
    (if file_size k f \<le> i then Inr (0, cb, k) else if 4096 \<le> i then Inl Out_of_bounds
     else Inr (1, [file_block k f ! i], fd_set k (int r) ((fd_entries k ! r)\<lparr>read_pos := i + 1\<rparr>)))"
proof -
  let ?e = "fd_entries k ! r"
  have p: "r < length (fd_entries k)" "inode_num ?e = f" "f < length (global_inode_table k)" "file_type (global_inode_table k ! f) \<noteq> 2" "length (file_block k f) = 4096"
    using assms(1) by (simp_all add: plain_fd_def file_block_def)
  have "?e\<lparr>read_pos := i\<rparr> = ?e" using assms(2) by auto
  then have same: "fd_set k (int r) (?e\<lparr>read_pos := i\<rparr>) = k" by (simp add: fd_set_def)
  obtain c where "cb = [c]" using assms(3) by (auto simp: length_Suc_conv)
  then have "read_loop (file_block k f) (file_size k f) 1 i 0 cb =
      (if file_size k f \<le> i then Inr (0, i, cb) else if 4096 \<le> i then Inl Out_of_bounds else Inr (1, i + 1, [file_block k f ! i]))"
    using p(5) by (auto simp: read_loop.simps rd_def wr_def)
  then show ?thesis using p assms(2) same by (auto simp: read_file_def fd_rd_def file_block_def file_size_def split: if_splits)
qed

lemma cat_loop_shows:
  assumes "plain_fd k r f" and "r \<noteq> 0" and "read_pos (fd_entries k ! r) = i" and "i \<le> file_size k f" and "file_size k f \<le> 4096"
    and "console k (drop i (take (file_size k f) (file_block k f)) @ out)" and "d_len cmd \<noteq> 3" and "length cb = 1"
  shows "\<exists>tm sc k'. loop_res (cat_step w STDOUT cmd (int r)) (cb, k) = Inr k' \<and>
    k' = k\<lparr>fd_entries := (fd_entries k)[r := (fd_entries k ! r)\<lparr>read_pos := file_size k f\<rparr>], tty := tm, screen := sc\<rparr> \<and>
    console k' out \<and> tty_text tm = tty_text (tty k) @ drop i (take (file_size k f) (file_block k f))"
  using assms
proof (induction "file_size k f - i" arbitrary: i cb k)
  case 0
  then have i: "i = file_size k f" by simp
  have "cat_step w STDOUT cmd (int r) (cb, k) = Inr (Inr k)" using read_byte [OF "0.prems"(1,3,8), of w] i by (simp add: cat_step_def)
  then have "loop_res (cat_step w STDOUT cmd (int r)) (cb, k) = Inr k" by (subst loop_res_unfold) simp
  moreover have "(fd_entries k ! r)\<lparr>read_pos := i\<rparr> = fd_entries k ! r" using "0.prems"(3) by auto
  then have "k = k\<lparr>fd_entries := (fd_entries k)[r := (fd_entries k ! r)\<lparr>read_pos := file_size k f\<rparr>], tty := tty k, screen := screen k\<rparr>" using i by simp
  ultimately show ?case using "0.prems"(6) i by (intro exI [of _ "tty k"] exI [of _ "screen k"] exI [of _ k]) simp
next
  case (Suc n)
  let ?c = "file_block k f ! i" and ?e = "fd_entries k ! r" and ?rest = "drop (Suc i) (take (file_size k f) (file_block k f))"
  let ?k1 = "fd_set k (int r) (?e\<lparr>read_pos := i + 1\<rparr>)"
  have p: "r < length (fd_entries k)" "length (file_block k f) = 4096" and i: "i < file_size k f" using Suc.prems(1) Suc.hyps(2) by (simp_all add: plain_fd_def file_block_def)
  have rest: "drop i (take (file_size k f) (file_block k f)) = [?c] @ ?rest"
    using Cons_nth_drop_Suc [of i "take (file_size k f) (file_block k f)"] i p(2) Suc.prems(5) by simp
  have "console ?k1 ([?c] @ ?rest @ out)" using Suc.prems(2,6) unfolding rest by (simp add: console_def tty_fd0_def fd_set_def)
  from console_write [OF this, of "[?c]" w] obtain tm sc where wr: "write_file w ?k1 0 [?c] 1 = Inr (1, ?k1\<lparr>tty := tm, screen := sc\<rparr>)"
      "console (?k1\<lparr>tty := tm, screen := sc\<rparr>) (?rest @ out)" "tty_text tm = tty_text (tty k) @ [?c]"
    by (auto simp: fd_set_def)
  let ?k2 = "?k1\<lparr>tty := tm, screen := sc\<rparr>"
  have rd: "read_file w k (int r) cb 1 = Inr (1, [?c], ?k1)" using read_byte [OF Suc.prems(1,3,8), of w] i Suc.prems(5) by simp
  have "cat_step w STDOUT cmd (int r) (cb, k) = Inr (Inl ([?c], ?k2))" using rd wr(1) Suc.prems(7) by (simp add: cat_step_def cat_char_def STDOUT_def)
  then have loop: "loop_res (cat_step w STDOUT cmd (int r)) (cb, k) = loop_res (cat_step w STDOUT cmd (int r)) ([?c], ?k2)" by (subst loop_res_unfold) simp
  have v: "file_size ?k2 f = file_size k f" "file_block ?k2 f = file_block k f" "fd_entries ?k2 = (fd_entries k)[r := ?e\<lparr>read_pos := i + 1\<rparr>]"
    by (simp_all add: file_size_def file_block_def read_block_def fd_set_def)
  have p2: "plain_fd ?k2 r f" "read_pos (fd_entries ?k2 ! r) = Suc i" using Suc.prems(1) p(1) by (simp_all add: plain_fd_def fd_set_def read_block_def)
  have "n = file_size ?k2 f - Suc i" using Suc.hyps(2) unfolding v(1) by linarith
  then have "\<exists>tm' sc' k'. loop_res (cat_step w STDOUT cmd (int r)) ([?c], ?k2) = Inr k' \<and>
      k' = ?k2\<lparr>fd_entries := (fd_entries ?k2)[r := (fd_entries ?k2 ! r)\<lparr>read_pos := file_size ?k2 f\<rparr>], tty := tm', screen := sc'\<rparr> \<and>
      console k' out \<and> tty_text tm' = tty_text (tty ?k2) @ drop (Suc i) (take (file_size ?k2 f) (file_block ?k2 f))"
    by (rule Suc.hyps(1)) (use p2 Suc.prems(2,5,7) i wr(2) v(1,2) in simp_all)
  then obtain tm' sc' k' where k': "loop_res (cat_step w STDOUT cmd (int r)) ([?c], ?k2) = Inr k'" "console k' out"
      "k' = ?k2\<lparr>fd_entries := (fd_entries ?k2)[r := (fd_entries ?k2 ! r)\<lparr>read_pos := file_size ?k2 f\<rparr>], tty := tm', screen := sc'\<rparr>"
      "tty_text tm' = tty_text tm @ ?rest" unfolding v(1,2) by auto
  have "k' = k\<lparr>fd_entries := (fd_entries k)[r := ?e\<lparr>read_pos := file_size k f\<rparr>], tty := tm', screen := sc'\<rparr>"
    unfolding k'(3) v(1,3) using p(1) by (simp add: fd_set_def)
  then show ?case using k'(1,2,4) wr(3) loop unfolding rest by (intro exI [of _ tm'] exI [of _ sc'] exI [of _ k']) simp
qed

text \<open>A \<open>cat\<close> whose output is the file it reads: every byte is written where it was read, and every write makes the file longer, so that the loop never sees its end.\<close>

definition copies_itself :: "kernel \<Rightarrow> nat \<Rightarrow> nat \<Rightarrow> nat \<Rightarrow> nat \<Rightarrow> bool" where
  "copies_itself k r o' f i \<longleftrightarrow> plain_fd k r f \<and> plain_fd k o' f \<and> r \<noteq> o' \<and> read_pos (fd_entries k ! r) = i \<and> write_pos (fd_entries k ! o') = i \<and>
     i < file_size k f \<and> i \<le> 4096 \<and> file_size k f + (4096 - i) < 4294967296"

lemma cat_step_itself:
  assumes c: "copies_itself k r o' f i" and i: "i < 4096" and cmd: "d_len cmd \<noteq> 3" and cb: "length cb = 1"
  shows "\<exists>k'. cat_step w (int o') cmd (int r) (cb, k) = Inr (Inl ([file_block k f ! i], k')) \<and> copies_itself k' r o' f (i + 1)"
proof -
  let ?c = "file_block k f ! i" let ?k1 = "fd_set k (int r) ((fd_entries k ! r)\<lparr>read_pos := i + 1\<rparr>)"
  have p: "plain_fd k r f" "plain_fd k o' f" "r \<noteq> o'" "read_pos (fd_entries k ! r) = i" "write_pos (fd_entries k ! o') = i" "i < file_size k f" "file_size k f + (4096 - i) < 4294967296"
    using c unfolding copies_itself_def by blast+
  have l: "r < length (fd_entries k)" "o' < length (fd_entries k)" "f < length (global_inode_table k)" "length (file_block k f) = 4096"
    using p(1,2) by (simp_all add: plain_fd_def file_block_def)
  have rd: "read_file w k (int r) cb 1 = Inr (1, [?c], ?k1)" using read_byte [OF p(1,4) cb, of w] p(6) i by simp
  have p1: "plain_fd ?k1 o' f" "file_size ?k1 f = file_size k f" "write_pos (fd_entries ?k1 ! o') = i" "file_block ?k1 f = file_block k f"
    using p(2,3,5) by (simp_all add: plain_fd_def fd_set_def file_size_def file_block_def read_block_def)
  have o1: "overlay i (take 1 [?c]) (file_block ?k1 f) = file_block k f" unfolding p1(4) using i l(4) by (intro nth_equalityI) (auto simp: nth_overlay, metis le_antisym less_Suc_eq_le)
  let ?k2 = "write_block (data_block_start (global_inode_table ?k1 ! f)) (file_block k f)
      (fd_set (?k1\<lparr>global_inode_table := (global_inode_table ?k1)[f := (global_inode_table ?k1 ! f)\<lparr>i_size := file_size ?k1 f + 1\<rparr>]\<rparr>)
        (int o') ((fd_entries ?k1 ! o')\<lparr>write_pos := i + 1\<rparr>))"
  have wr: "write_file w ?k1 (int o') [?c] 1 = Inr (1, ?k2)"
    using write_file_plain [OF p1(1) _ _ p1(3), of 1 "[?c]" w] p1(2) i p(7) unfolding o1 by simp
  have "copies_itself ?k2 r o' f (i + 1)"
    using p i l unfolding copies_itself_def
    by (simp add: plain_fd_def fd_set_def write_block_def file_size_def file_block_def read_block_def nth_list_update)
  then show ?thesis using rd wr cmd by (simp add: cat_step_def cat_char_def)
qed

lemma cat_loop_itself:
  assumes "copies_itself k r o' f i" and cmd: "d_len cmd \<noteq> 3" and "length cb = 1"
  shows "loop_res (cat_step w (int o') cmd (int r)) (cb, k) = Inl Out_of_bounds"
  using assms(1,3)
proof (induction "4096 - i" arbitrary: i cb k)
  case 0
  then have "plain_fd k r f" "read_pos (fd_entries k ! r) = i" "i < file_size k f" "4096 \<le> i" by (auto simp: copies_itself_def)
  then have "cat_step w (int o') cmd (int r) (cb, k) = Inl Out_of_bounds" using read_byte [of k r f i cb w] "0.prems"(2) by (simp add: cat_step_def)
  then show ?case by (subst loop_res_unfold) simp
next
  case (Suc n)
  then have i: "i < 4096" by linarith
  obtain k' where k': "cat_step w (int o') cmd (int r) (cb, k) = Inr (Inl ([file_block k f ! i], k'))" "copies_itself k' r o' f (i + 1)"
    using cat_step_itself [OF Suc.prems(1) i cmd Suc.prems(2)] by blast
  have "loop_res (cat_step w (int o') cmd (int r)) ([file_block k f ! i], k') = Inl Out_of_bounds"
    using Suc.hyps(1) [of "i + 1" k' "[file_block k f ! i]"] Suc.hyps(2) k'(2) by simp
  then show ?case using k'(1) by (subst loop_res_unfold) simp
qed

lemma close_frees:
  assumes "fd \<in> bm_used (fd_bitmap k)" and "length (fd_bitmap k) = 1" and "fd < 31"
  shows "\<exists>bm. close k (int fd) = Inr (- 1, k\<lparr>fd_bitmap := bm\<rparr>) \<and> bm_used bm = bm_used (fd_bitmap k) - {fd}"
proof -
  have u: "u32_of_int (int fd) = fd" using assms(3) by (simp add: u32_of_int_def)
  obtain bm where "dealloc_bitrange (fd_bitmap k) \<lparr>br_start = fd, br_length = 1\<rparr> = Inr bm" "bm_used bm = bm_used (fd_bitmap k) - br_set \<lparr>br_start = fd, br_length = 1\<rparr>"
    by (rule dealloc_bitrange_used [of "\<lparr>br_start = fd, br_length = 1\<rparr>" "fd_bitmap k"]) (use assms in simp_all)
  then show ?thesis by (intro exI [of _ bm]) (auto simp: close_def u br_set_def)
qed

text \<open>What \<open>cat\<close> has after it has opened its file: a descriptor at the start of it, and the console.\<close>

lemma cat_opens:
  assumes ok: "tree_ok k dirs" and p: "leads_to k dirs cs d" "d \<in> directories k" "\<forall>x \<in> set cs. comp_ok x" "comp_ok nm" and f: "map_of (dirs d) nm = Some f" "type_of k f = 1"
    and arg: "path_arg k (hmem k) off (47 # join_path cs @ nm)" and fd: "next_descriptor k fd"
  shows "\<exists>k1. open_file k (hmem k) off = Inr (int fd, k1) \<and> tree_ok k1 dirs \<and> plain_fd k1 fd f \<and> fd_entries k1 = (fd_entries k)[fd := new_descriptor nm f fd] \<and> fd < 31 \<and>
    fd \<notin> bm_used (fd_bitmap k) \<and> bm_used (fd_bitmap k1) = insert fd (bm_used (fd_bitmap k)) \<and> length (fd_bitmap k1) = 1 \<and> disk k1 = disk k \<and>
    global_inode_table k1 = global_inode_table k \<and> global_ibmap k1 = global_ibmap k \<and> heap_live (heap k1) = heap_live (heap k)"
proof -
  obtain k1 where k1: "open_file k (hmem k) off = Inr (int fd, k1)" "tree_ok k1 dirs" "global_ibmap k1 = global_ibmap k" "disk k1 = disk k"
      "global_inode_table k1 = global_inode_table k" "opened k nm f fd k1" "heap_kept k k1"
    using open_in_tree [OF ok p arg fd] f(1) by auto
  have nd: "fd \<notin> bm_used (fd_bitmap k)" "fd < 31" "length (fd_entries k) = 32" "length (fd_bitmap k) = 1" using fd by (auto simp: next_descriptor_def least_free_def)
  have f2: "f < 426" and m: "length (global_inode_table k) = 426" "\<And>c. length (disk k c) = 4096" using tree_entry_used(2) [OF ok p(2) f(1)] ok by (simp_all add: tree_ok_def maps_ok_def)
  have "plain_fd k1 fd f" using k1(4-6) nd f(2) f2 m by (simp add: opened_def plain_fd_def new_descriptor_def type_of_def read_block_def)
  then show ?thesis using k1 nd by (simp add: opened_def heap_kept_def)
qed

text \<open>For the instances below: descriptor 0 is the terminal, \<open>/a\<close> holds \<open>Hi\<close> and is open as descriptor 1, and a command with the word \<open>/a\<close> lies in the memory of the heap.\<close>

lemma two_bits: "bm_used [0xC0000000] = {0, 1}"
proof -
  have bits: "list_all (\<lambda>p. bit (0xC0000000 :: u32) (31 - p) = (p < 2)) [0 ..< 32]" by code_simp
  have "bm_bit [0xC0000000] p = (p < 2)" if "p < 32" for p using bspec [OF bits [unfolded list_all_iff set_upt], of p] that by (simp only: bm_bit_def) simp
  then have "bm_used [0xC0000000] = {..< 2}" by (auto simp: bm_used_def)
  then show ?thesis by (simp only: lessThan_nat_numeral) auto
qed

definition text_tree :: "nat \<Rightarrow> dir_entries" where
  "text_tree = add_node tty_tree 0 [97] 2"

lemma sample_text:
  obtains k where "tree_ok k text_tree" and "tty_fd0 k" and "tty k = zero_terminal" and "fst (screen k) = fst (screen root_kernel)" and "bm_used (fd_bitmap k) = {0, 1}"
    and "next_descriptor k 2" and "plain_fd k 1 2" and "write_pos (fd_entries k ! 1) = 0" and "type_of k 2 = 1" and "file_size k 2 = 2" and "take 2 (file_block k 2) = [72, 105]"
proof -
  obtain k where k: "tree_ok k tty_tree" "creatable k tty_tree [] [97] 0 2 9" "tty_fd0 k" "tty k = zero_terminal" "fst (screen k) = fst (screen root_kernel)"
      "heap_ready (heap k) 0" "heap_live (heap k) = (\<lambda>_. None)" "length (hmem k) = 4096"
    by (rule sample_shell)
  have inv: "heap_inv (heap k)" using k(6) by (simp add: heap_ready_def)
  have arg: "path_arg k [47, 97, 0] 0 (47 # join_path [] @ [97])"
    using path_room_empty [OF inv k(7), of 3] inv k(8) by (simp add: path_arg_def cstr_at_def join_path_def numeral_3_eq_3)
  obtain k1 where k1: "create_filetype k [47, 97, 0] 0 1 False = Inr (0, k1)" "created k (tty_tree 0) [97] 1 0 2 9 k1" "fd_entries k1 = fd_entries k"
    using create_nofd_in_tree [OF k(1,2) arg, of 1] by auto
  note fr = created_frame [OF inv arg _ k1(1)] and tr = created_in_tree [OF k(1,2) k1(2)]
  have new: "2 \<notin> bm_used (global_ibmap k)" "0 \<in> directories k" using k(2) by (auto simp: creatable_def least_free_def)
  let ?fds = "(replicate 32 (new_descriptor [] 0 0))[0 := fd_entries k ! 0, 1 := new_descriptor [97] 2 1]"
  let ?k = "k1\<lparr>fd_entries := ?fds, fd_bitmap := [0xC0000000]\<rparr>"
  have t: "tree_ok ?k text_tree" using tr(1) tree_ok_cong [of ?k k1] by (simp add: text_tree_def)
  have m: "length (global_inode_table k1) = 426" "\<And>c. length (disk k1 c) = 4096" using tr(1) by (simp_all add: tree_ok_def maps_ok_def)
  have p: "plain_fd ?k 1 2" using m tr(3) by (simp add: plain_fd_def new_descriptor_def type_of_def read_block_def)
  have v: "type_of ?k 2 = 1" "file_size ?k 2 = 0" "2 \<in> bm_used (global_ibmap ?k)" "write_pos (fd_entries ?k ! 1) = 0"
    using tr(3,5) k1(2) by (simp_all add: type_of_def file_size_def created_def new_descriptor_def)
  obtain k2 where k2: "write_file exact_world ?k (int 1) [72, 105] 2 = Inr (2, k2)" "tree_ok k2 text_tree"
    using write_file_tree_ok [OF t p v(3,1), of 2 "[72, 105]" 0 exact_world] v(2,4) by auto
  have x2: "k2 = write_block (block_of ?k 2) (overlay 0 [72, 105] (file_block ?k 2)) (fd_set (?k\<lparr>global_inode_table := (global_inode_table ?k)[2 := (global_inode_table ?k ! 2)\<lparr>i_size := 2\<rparr>]\<rparr>)
        (int 1) ((fd_entries ?k ! 1)\<lparr>write_pos := 2\<rparr>))"
    using k2(1) write_file_plain [OF p, of 2 "[72, 105]" 0 exact_world] v(2,4) by (simp add: block_of_def numeral_2_eq_2)
  let ?k3 = "k2\<lparr>fd_entries := ?fds\<rparr>"
  have "tty_fd0 k1" using tty_fd0_created [OF k(3) k1(2,3) new] .
  moreover have "file_type (global_inode_table k1 ! 2) \<noteq> 2" using tr(3) by (simp add: type_of_def)
  ultimately have "tty_fd0 ?k3" using k1(3) unfolding x2 by (cases "inode_num (fd_entries k ! 0) = 2") (simp_all add: tty_fd0_def write_block_def fd_set_def Let_def)
  moreover have "tree_ok ?k3 text_tree" using k2(2) tree_ok_cong [of ?k3 k2] by simp
  moreover have "next_descriptor ?k3 2" using two_bits unfolding x2 by (auto simp: next_descriptor_def least_free_def less_2_cases_iff write_block_def fd_set_def)
  moreover have b: "bm_used (fd_bitmap ?k3) = {0, 1}" "tty ?k3 = zero_terminal" "fst (screen ?k3) = fst (screen root_kernel)"
    using fr two_bits k(4,5) unfolding x2 by (simp_all add: write_block_def fd_set_def)
  moreover have "type_of ?k3 2 = 1" "file_size ?k3 2 = 2" "write_pos (fd_entries ?k3 ! 1) = 0" "plain_fd ?k3 1 2" "take 2 (file_block ?k3 2) = [72, 105]"
    using v(1) m p unfolding x2 by (simp_all add: type_of_def file_size_def write_block_def fd_set_def new_descriptor_def plain_fd_def read_block_def file_block_def block_of_def overlay_def)
  ultimately show thesis using that [of ?k3] by blast
qed

definition argument_memory :: "u8 list \<Rightarrow> u8 list" where
  "argument_memory p = replicate 3000 0 @ replicate 12 0 @ string_bytes \<lparr>d_len = length p + 1, d_capacity = 64, d_contents = 0x400000 + 3024\<rparr> @ p @ replicate (1072 - length p) 0"

lemma argument_memory_layout:
  assumes "length p < 64" and "0 \<notin> set p"
  shows "length (argument_memory p) = 4096" and "rd_string (argument_memory p) 3012 = Inr \<lparr>d_len = length p + 1, d_capacity = 64, d_contents = 0x400000 + 3024\<rparr>"
    and "cstr_at (argument_memory p) 3024 p"
proof -
  let ?s = "\<lparr>d_len = length p + 1, d_capacity = 64, d_contents = 0x400000 + 3024\<rparr>" and ?m = "argument_memory p"
  have l: "length (string_bytes ?s) = 12" by (simp add: string_bytes_def)
  have d: "drop 3012 ?m = string_bytes ?s @ p @ replicate (1072 - length p) 0" "drop 3024 ?m = p @ replicate (1072 - length p) 0"
    using l by (simp_all add: argument_memory_def)
  show len: "length ?m = 4096" using l assms(1) by (simp add: argument_memory_def)
  show "rd_string ?m 3012 = Inr ?s" by (rule rd_string_bytes) (use len d(1) l assms(1) in simp_all)
  have "?m ! (3024 + length p) = drop 3024 ?m ! length p" using len assms(1) by (subst nth_drop) simp_all
  then show "cstr_at ?m 3024 p" using len d(2) assms by (simp add: cstr_at_def nth_append)
qed

text \<open>A command of two words on a kernel whose heap is fresh, the second one a path.\<close>

definition sample_command :: dyn where
  "sample_command = \<lparr>d_len = 2, d_capacity = 2, d_contents = 0x400000 + 3000\<rparr>"

definition with_argument :: "kernel \<Rightarrow> u8 list \<Rightarrow> kernel" where
  "with_argument k p = k\<lparr>heap := fresh_heap 0x400000, hmem := argument_memory p\<rparr>"

lemma with_argument_reads:
  assumes "length p < 64" and "0 \<notin> set p"
  shows "word_at (with_argument k p) sample_command 1 = Inr 3024" and "path_arg (with_argument k p) (hmem (with_argument k p)) 3024 p"
proof -
  let ?k = "with_argument k p"
  note m = argument_memory_layout [OF assms]
  show "word_at ?k sample_command 1 = Inr 3024" using m(2) by (simp add: with_argument_def sample_command_def word_at_def heap_off_def fresh_heap_def w32_def)
  have h: "heap_inv (heap ?k)" "heap_live (heap ?k) = (\<lambda>_. None)" "length (hmem ?k) = 4096" using m(1) by (simp_all add: with_argument_def heap_inv_fresh)
  have "\<exists>dp fn h2. path_room ?k (length p + 1) dp fn h2" using assms(1) h(3) by (intro path_room_empty [OF h(1,2)]) simp_all
  then show "path_arg ?k (hmem ?k) 3024 p" using m(3) h(1) assms(1) by (simp add: path_arg_def with_argument_def)
qed

section \<open>Receiving a file\<close>

text \<open>Descriptor 1 is \<open>/dev/ttyS\<close>; \<open>line_poll\<close> is one look at the status of the line, \<open>polled\<close> the kernel after \<open>n\<close> of them.\<close>

definition serial_fd1 :: "kernel \<Rightarrow> bool" where
  "serial_fd1 k \<longleftrightarrow> 1 < length (fd_entries k) \<and> (let i = inode_num (fd_entries k ! 1) in
     i < length (global_inode_table k) \<and> file_type (global_inode_table k ! i) = 2 \<and> cstr_at (i_name (global_inode_table k ! i)) 0 (cstr_of ''ttyS''))"

definition line_poll :: "world \<Rightarrow> trace \<Rightarrow> trace" where
  "line_poll w t = snd (serial_received (hw w) t)"

definition quiet_line :: "world \<Rightarrow> bool" where
  "quiet_line w \<longleftrightarrow> (\<forall>t. fst (serial_received (hw w) t) = 0)"

definition polled :: "world \<Rightarrow> nat \<Rightarrow> kernel \<Rightarrow> kernel" where
  "polled w n k = k\<lparr>screen := (fst (screen k), (line_poll w ^^ n) (snd (screen k)))\<rparr>"

lemma polled_0 [simp]: "polled w 0 k = k"
  by (simp add: polled_def)

lemma polled_Suc: "polled w n (polled w 1 k) = polled w (Suc n) k"
  by (simp add: polled_def funpow_swap1)

lemma special_serial:
  assumes "cstr_at nm 0 (cstr_of ''ttyS'')"
  shows "special w 0 system_names rdng k nm buf cnt = handle w 1 rdng k buf cnt"
proof -
  have "cstr_at (cstr_of ''tty'' @ replicate 29 0) 0 (cstr_of ''tty'')" "cstr_at (cstr_of ''ttyS'' @ replicate 28 0) 0 (cstr_of ''ttyS'')"
    by (simp_all add: cstr_at_def cstr_of_def)
  from this [THEN strcmp_cstr, OF assms] show ?thesis by (auto simp: system_names_def cstr_of_def)
qed

lemma read_quiet_line:
  assumes "serial_fd1 k" and "quiet_line w"
  shows "read_file w k SERIAL cb 1 = Inr (0, cb, polled w 1 k)"
proof -
  obtain r t where r: "serial_received (hw w) (snd (screen k)) = (r, t)" by (cases "serial_received (hw w) (snd (screen k))")
  then have "r = 0" using assms(2) by (metis fst_conv quiet_line_def)
  then show ?thesis using assms(1) r special_serial
    by (simp add: SERIAL_def read_file_def serial_fd1_def fd_rd_def handle_def serial_handler_def polled_def line_poll_def Let_def)
qed

lemma sget_step_waits:
  assumes "serial_fd1 k" and "quiet_line w" and "\<not> in_message g" and "bytes_read g \<noteq> 4" and "\<not> base_time g + 500 < timer_now x k"
  shows "sget_step w x fd (g, k) = Inr (Inl (g, polled w 1 k))"
proof -
  have "loop_res (sget_header_step w) (g, k) = Inr (g, polled w 1 k)"
    using read_quiet_line [OF assms(1,2)] by (subst loop_res_unfold) (simp add: sget_header_step_def)
  moreover have "loop_res (sget_body_step w x fd) (g, k1) = Inr (False, g, k1)" for k1
    using assms(3) by (subst loop_res_unfold) (simp add: sget_body_step_def)
  ultimately show ?thesis using assms(3-5) by (simp add: sget_step_def sget_header_def)
qed

lemma sget_waits:
  assumes "serial_fd1 k" and q: "quiet_line w" and g: "\<not> in_message g" "bytes_read g \<noteq> 4"
    and "\<And>i. i < n \<Longrightarrow> \<not> base_time g + 500 < timer_now x (polled w i k)"
  shows "loop_res (sget_step w x fd) (g, k) = loop_res (sget_step w x fd) (g, polled w n k)"
  using assms(1,5)
proof (induction n arbitrary: k)
  case 0
  then show ?case by simp
next
  case (Suc n)
  have "sget_step w x fd (g, k) = Inr (Inl (g, polled w 1 k))"
    by (rule sget_step_waits [OF Suc.prems(1) q g]) (use Suc.prems(2) [of 0] in simp)
  moreover have "serial_fd1 (polled w 1 k)" using Suc.prems(1) by (simp add: serial_fd1_def polled_def)
  then have "loop_res (sget_step w x fd) (g, polled w 1 k) = loop_res (sget_step w x fd) (g, polled w (Suc n) k)"
    using Suc.IH [of "polled w 1 k"] Suc.prems(2) unfolding polled_Suc by simp
  ultimately show ?case by (subst loop_res_unfold) simp
qed

text \<open>The announcement: eight digits, three dots, a line feed and the terminator are one byte more than the array has.\<close>

lemma fmt_copy_unterminated: "0 \<notin> set (drop j src) \<Longrightarrow> fmt_copy src j b n = Inl Out_of_bounds"
proof (induction src j b n rule: fmt_copy.induct)
  case (1 src j b n)
  show ?case
  proof (cases "j < length src")
    case True
    then have c: "src ! j \<noteq> 0" "0 \<notin> set (drop (j + 1) src)" using "1.prems" by (auto simp: Cons_nth_drop_Suc [symmetric])
    then show ?thesis using "1.IH" [of "src ! j"] True by (subst fmt_copy.simps) (simp add: rd_def wr_def)
  qed (subst fmt_copy.simps, simp add: rd_def)
qed

lemma hex_nibble_nonzero: "hex_nibble w n \<noteq> 0"
proof -
  have "drop_bit n w AND 0xF \<le> 0xF" by (rule word_and_le1)
  then have "unat (drop_bit n w AND 0xF) < length nib_to_hex" by (simp add: word_le_nat_alt nib_to_hex_def)
  then have "hex_nibble w n \<in> set nib_to_hex" unfolding hex_nibble_def by (rule nth_mem)
  then show ?thesis by (auto simp: nib_to_hex_def)
qed

lemma announcement_overruns:
  assumes "length (junk e 9) = 9" and "length b = 12"
  shows "fmt e b (lit ''%x...\<newline>'') [Va_word v] = Inl Out_of_bounds"
proof -
  let ?h = "hex_list v 4" and ?z = "junk e 9 ! 8"
  have nz: "0 \<notin> set ?h" using hex_nibble_nonzero by (simp add: eval_nat_numeral)
  have "drop 8 (junk e 9) = [?z]" using assms(1) by (intro nth_equalityI) simp_all
  then have h: "buff_to_hexstring [v] (junk e 9) 0 4 = Inr (?h @ [?z])"
    using hex_words_overlay [of 0 4 0 "junk e 9" "[v]"] assms(1) by (simp add: buff_to_hexstring_def overlay_def)
  have l: "lit ''%x...\<newline>'' = [37, 120, 46, 46, 46, 10, 0]" by (simp add: lit_def cstr_of_def)
  show ?thesis
  proof (cases "?z = 0")
    case True
    then have "cstr_at (?h @ [?z]) 0 ?h" using nz by (simp add: cstr_at_def nth_append)
    then have "fmt_copy (?h @ [?z]) 0 b 0 = Inr (overlay 0 ?h b, 8)" using fmt_copy_cstr [of "?h @ [?z]" 0 ?h 0 b] assms(2) by simp
    then show ?thesis using h assms(2) unfolding l by (simp add: fmt_def fmt_loop.simps fmt_conv_def rd_def wr_def)
  next
    case False
    then have "fmt_copy (?h @ [?z]) 0 b 0 = Inl Out_of_bounds" using nz by (intro fmt_copy_unterminated) simp
    then show ?thesis using h unfolding l by (simp add: fmt_def fmt_loop.simps [of _ _ 0] fmt_conv_def rd_def)
  qed
qed

lemma sget_announce_fails: "\<forall>n. length (junk (env w) n) = n \<Longrightarrow> sget_announce w x k \<noteq> Inr k'"
  by (cases "write_lit w STDOUT ''beginning download file of size '' 33 k") (simp_all add: sget_announce_def announcement_overruns)

lemma header_loop_waits: "loop_res (sget_header_step w) (g, k) = Inr (g', k') \<Longrightarrow> \<not> in_message g \<Longrightarrow> \<not> in_message g'"
  using loop_res_rule [where f = "sget_header_step w" and P = "\<lambda>(g, k). \<not> in_message g" and Q = "\<lambda>(g, k). \<not> in_message g" and s = "(g, k)" and a = "(g', k')"]
  by (fastforce simp: sget_header_step_def split: if_splits)

lemma open_file_env: "open_file k path off = Inr (r, k') \<Longrightarrow> kbd k' = kbd k \<and> tty k' = tty k \<and> screen k' = screen k"
  by (auto simp: open_file_def Path_def free_path_def allocate_file_descriptor_def PUSH_ERROR_def same_env_def Let_def
      split: if_splits dest!: seek_directory_env search_dir_env)

definition waiting :: string where
  "waiting = ''waiting for serial port to initiate communication...\<newline>''"

lemma write_console:
  assumes "tty_fd0 k" and "tty_write buf n (tty k) (screen k) = Inr (r, tm, s)"
  shows "write_file w k STDOUT buf n = Inr (r, k\<lparr>tty := tm, screen := s\<rparr>)"
  using assms special_tty by (simp add: STDOUT_def write_file_def tty_fd0_def fd_rd_def handle_def Let_def)

text \<open>For the instance below: \<open>/tty\<close> and \<open>/ttyS\<close> exist and are open as descriptors 0 and 1.\<close>

definition device_tree :: "nat \<Rightarrow> dir_entries" where
  "device_tree = add_node tty_tree 0 (cstr_of ''ttyS'') 2"

lemma sample_devices:
  obtains k where "tree_ok k device_tree" and "tty_fd0 k" and "serial_fd1 k" and "bm_used (fd_bitmap k) = {0, 1}" and "next_descriptor k 2"
    and "tty k = zero_terminal" and "fst (screen k) = fst (screen root_kernel)"
proof -
  let ?nm = "cstr_of ''ttyS''"
  obtain k where k: "tree_ok k tty_tree" "creatable k tty_tree [] [97] 0 2 9" "tty_fd0 k" "tty k = zero_terminal" "fst (screen k) = fst (screen root_kernel)"
      "heap_ready (heap k) 0" "heap_live (heap k) = (\<lambda>_. None)" "length (hmem k) = 4096"
    by (rule sample_shell)
  have nm: "comp_ok ?nm" "47 \<notin> set ?nm" by (simp_all add: comp_ok_def name_ok_def cstr_of_def)
  have new: "creatable k tty_tree [] ?nm 0 2 9" using k(2) nm(1) by (simp add: creatable_def tty_tree_def add_node_def cstr_of_def)
  have inv: "heap_inv (heap k)" using k(6) by (simp add: heap_ready_def)
  have l: "length (47 # join_path [] @ ?nm) = 5" "cstr_at (47 # ?nm @ [0]) 0 (47 # join_path [] @ ?nm)" by (simp_all add: cstr_at_def join_path_def cstr_of_def)
  have "\<exists>dp fn h2. path_room k (5 + 1) dp fn h2" by (rule path_room_empty [OF inv k(7)]) (simp_all add: k(8))
  then have arg: "path_arg k (47 # ?nm @ [0]) 0 (47 # join_path [] @ ?nm)" unfolding path_arg_def l(1) using l(2) inv by simp
  obtain k1 where k1: "create_filetype k (47 # ?nm @ [0]) 0 2 False = Inr (0, k1)" "created k (tty_tree 0) ?nm 2 0 2 9 k1" "fd_entries k1 = fd_entries k"
    using create_nofd_in_tree [OF k(1) new arg, of 2] by auto
  note fr = created_frame [OF inv arg nm(2) k1(1)]
  note tr = created_in_tree [OF k(1) new k1(2)]
  let ?k = "k1\<lparr>fd_entries := (replicate 32 (new_descriptor [] 0 0))[0 := fd_entries k ! 0, 1 := new_descriptor ?nm 2 1], fd_bitmap := [0xC0000000]\<rparr>"
  note u = two_bits
  have n: "2 < length (global_inode_table k)" using k(1) by (simp add: tree_ok_def maps_ok_def)
  have "2 \<notin> bm_used (global_ibmap k)" "0 \<in> directories k" using new by (auto simp: creatable_def least_free_def)
  then have "tty_fd0 k1" using tty_fd0_created [OF k(3) k1(2,3)] by simp
  then have "tty_fd0 ?k" using k1(3) by (simp add: tty_fd0_def)
  moreover have "tree_ok ?k device_tree" using tr(1) tree_ok_cong [of ?k k1] by (simp add: device_tree_def)
  moreover have "serial_fd1 ?k" using k1(2) n by (simp add: serial_fd1_def created_def new_descriptor_def new_inode_def cstr_at_def overlay_def cstr_of_def)
  moreover have "next_descriptor ?k 2" using u by (auto simp: next_descriptor_def least_free_def less_2_cases_iff)
  ultimately show thesis using that [of ?k] u fr k(4,5) by simp
qed

lemma count_loop:
  fixes j :: nat
  assumes "j0 \<le> j" and "\<not> c j" and "\<And>m. j0 \<le> m \<Longrightarrow> m < j \<Longrightarrow> c m"
  shows "loop_res (\<lambda>j. if c j then Inr (Inl (j + 1)) else Inr (Inr (j + 1))) j0 = Inr (j + 1)"
  using assms by (induction "j - j0" arbitrary: j0) (subst loop_res_unfold, simp)+

section \<open>Properties\<close>

text \<open>C8: \<open>cat\<close> shows a file. Given the path of a normal file whose bytes the terminal can take, \<open>cat\<close> with the terminal as its output returns 0: the terminal's text has grown by exactly the
  bytes of the file, in order, the disk, the inodes and the tree are as they were, and the descriptor it opened and the blocks it took from the heap are free again.\<close>

theorem cat_shows_file:
  assumes ok: "tree_ok k dirs" and p: "leads_to k dirs cs d" "d \<in> directories k" "\<forall>x \<in> set cs. comp_ok x" "comp_ok nm" and f: "map_of (dirs d) nm = Some f" "type_of k f = FILE_TYPE_NORMAL"
    and cmd: "d_len cmd = 2" "word_at k cmd 1 = Inr off" and arg: "path_arg k (hmem k) off (47 # join_path cs @ nm)"
    and fd: "next_descriptor k fd" "0 \<in> bm_used (fd_bitmap k)" and size: "file_size k f \<le> 4096"
    and c: "console k (take (file_size k f) (file_block k f) @ out)" and j: "length (junk (env w) 1) = 1"
  shows "\<exists>k'. exec_cat w STDOUT cmd k = Inr (0, k') \<and> tty_text (tty k') = tty_text (tty k) @ take (file_size k f) (file_block k f) \<and> console k' out \<and>
    tree_ok k' dirs \<and> disk k' = disk k \<and> global_inode_table k' = global_inode_table k \<and> bm_used (fd_bitmap k') = bm_used (fd_bitmap k) \<and> heap_live (heap k') = heap_live (heap k)"
proof -
  have f1: "type_of k f = 1" using f(2) by (simp add: FILE_TYPE_NORMAL_def)
  obtain k1 where k1: "open_file k (hmem k) off = Inr (int fd, k1)" "tree_ok k1 dirs" "plain_fd k1 fd f" "fd_entries k1 = (fd_entries k)[fd := new_descriptor nm f fd]" "fd < 31"
      "fd \<notin> bm_used (fd_bitmap k)" "bm_used (fd_bitmap k1) = insert fd (bm_used (fd_bitmap k))" "length (fd_bitmap k1) = 1" "disk k1 = disk k"
      "global_inode_table k1 = global_inode_table k" "global_ibmap k1 = global_ibmap k" "heap_live (heap k1) = heap_live (heap k)"
    using cat_opens [OF ok p f(1) f1 arg fd(1)] by blast
  have env: "tty k1 = tty k" "screen k1 = screen k" using open_file_env [OF k1(1)] by simp_all
  have ne: "fd \<noteq> 0" using k1(6) fd(2) by metis
  have same: "file_size k1 f = file_size k f" "file_block k1 f = file_block k f" using k1(9,10) by (simp_all add: file_size_def file_block_def read_block_def)
  have c1: "console k1 (drop 0 (take (file_size k1 f) (file_block k1 f)) @ out)" using c ne k1(4,10,11) env unfolding same by (simp add: console_def tty_fd0_def)
  have rp: "read_pos (fd_entries k1 ! fd) = 0" using k1(3,4) by (simp add: plain_fd_def new_descriptor_def)
  have cm: "d_len cmd \<noteq> 3" "file_size k1 f \<le> 4096" using cmd(1) size same(1) by simp_all
  obtain tm sc k2 where k2: "loop_res (cat_step w STDOUT cmd (int fd)) (junk (env w) 1, k1) = Inr k2" "console k2 out" "tty_text tm = tty_text (tty k1) @ take (file_size k f) (file_block k f)"
      "k2 = k1\<lparr>fd_entries := (fd_entries k1)[fd := (fd_entries k1 ! fd)\<lparr>read_pos := file_size k1 f\<rparr>], tty := tm, screen := sc\<rparr>"
    using cat_loop_shows [OF k1(3) ne rp _ cm(2) c1 cm(1) j, of w] unfolding same by auto
  have v: "fd_bitmap k2 = fd_bitmap k1" "tty k2 = tm" unfolding k2(4) by simp_all
  obtain bm where cls: "close k2 (int fd) = Inr (- 1, k2\<lparr>fd_bitmap := bm\<rparr>)" "bm_used bm = bm_used (fd_bitmap k2) - {fd}"
    using close_frees [of fd k2] k1(5,7,8) v(1) by auto
  let ?k' = "k2\<lparr>fd_bitmap := bm\<rparr>"
  have "word_at k cmd (w32 (d_len cmd + 4294967295)) = Inr off" using cmd by (simp add: w32_def)
  then have "exec_cat w STDOUT cmd k = Inr (0, ?k')" using k1(1) k2(1) cls(1) by (simp add: exec_cat_def)
  moreover have "tree_ok ?k' dirs" using k1(2) tree_ok_cong [of ?k' k1] unfolding k2(4) by simp
  moreover have "console ?k' out" using k2(2) by (simp add: console_def tty_fd0_def)
  moreover have "disk ?k' = disk k" "global_inode_table ?k' = global_inode_table k" "heap_live (heap ?k') = heap_live (heap k)" unfolding k2(4) using k1(9,10,12) by simp_all
  moreover have "bm_used (fd_bitmap ?k') = bm_used (fd_bitmap k)" using cls(2) v(1) k1(6,7) by simp
  moreover have "tty_text (tty ?k') = tty_text (tty k) @ take (file_size k f) (file_block k f)" using k2(3) v(2) env(1) by simp
  ultimately show ?thesis by blast
qed

theorem cat_shows_file_witness:
  "\<exists>k k'. exec_cat roomy_world STDOUT sample_command k = Inr (0, k') \<and> tty_text (tty k') = tty_text (tty k) @ [72, 105]"
proof -
  obtain k0 where k0: "tree_ok k0 text_tree" "tty_fd0 k0" "tty k0 = zero_terminal" "fst (screen k0) = fst (screen root_kernel)" "bm_used (fd_bitmap k0) = {0, 1}"
      "next_descriptor k0 2" "type_of k0 2 = 1" "file_size k0 2 = 2" "take 2 (file_block k0 2) = [72, 105]"
    by (rule sample_text)
  let ?k = "with_argument k0 (47 # join_path [] @ [97])"
  have v: "file_size ?k = file_size k0" "file_block ?k = file_block k0" "type_of ?k = type_of k0" "fd_bitmap ?k = fd_bitmap k0" "next_descriptor ?k 2" "tty_fd0 ?k"
    using k0(2,6) by (auto simp: file_size_def file_block_def type_of_def read_block_def with_argument_def next_descriptor_def tty_fd0_def)
  have w: "word_at ?k sample_command 1 = Inr 3024" and arg: "path_arg ?k (hmem ?k) 3024 (47 # join_path [] @ [97])"
    using with_argument_reads [of "47 # join_path [] @ [97]" k0] by (simp_all add: join_path_def)
  have t: "tree_ok ?k text_tree" using k0(1) tree_ok_cong [of ?k k0] by (simp add: with_argument_def)
  have d: "leads_to ?k text_tree [] 0" "0 \<in> directories ?k" "comp_ok [97]" "map_of (text_tree 0) [97] = Some 2"
    using t by (simp_all add: leads_to_def tree_ok_def comp_ok_def name_ok_def text_tree_def tty_tree_def add_node_def cstr_of_def)
  have c: "console ?k ([72, 105] @ [])" using console_sample [OF v(6), of "[72, 105]" "kbd ?k"] k0(3,4) by (simp add: with_argument_def line_count_def)
  have "d_len sample_command = 2" by (simp add: sample_command_def)
  then have "\<exists>k'. exec_cat roomy_world STDOUT sample_command ?k = Inr (0, k') \<and> tty_text (tty k') = tty_text (tty ?k) @ [72, 105]"
    using cat_shows_file [OF t d(1,2) _ d(3,4) _ _ w arg v(5), of "[]" roomy_world] c k0(5,7-9) v by (auto simp: FILE_TYPE_NORMAL_def)
  then show ?thesis by blast
qed

text \<open>C9: \<open>cat\<close> with a redirection. The shell runs \<open>cat a > b\<close> with four words and an open descriptor of \<open>b\<close> as the output, and \<open>cat\<close> opens the last of the words: it reads \<open>b\<close>
  itself. When \<open>b\<close> is empty nothing is copied and it stays empty; otherwise every byte read is written back to \<open>b\<close> and makes it longer, the end is never seen,
  and the copy leaves the buffer of the block.\<close>

theorem cat_redirected_reads_its_output:
  assumes ok: "tree_ok k dirs" and p: "leads_to k dirs cs d" "d \<in> directories k" "\<forall>x \<in> set cs. comp_ok x" "comp_ok nm" and f: "map_of (dirs d) nm = Some f" "type_of k f = FILE_TYPE_NORMAL"
    and cmd: "d_len cmd = 4" "word_at k cmd 3 = Inr off" and arg: "path_arg k (hmem k) off (47 # join_path cs @ nm)" and fd: "next_descriptor k fd"
    and out: "plain_fd k od f" "od \<in> bm_used (fd_bitmap k)" "write_pos (fd_entries k ! od) = 0" and size: "file_size k f + 4096 < 4294967296" and j: "length (junk (env w) 1) = 1"
  shows "if file_size k f = 0 then \<exists>k'. exec_cat w (int od) cmd k = Inr (0, k') \<and> tree_ok k' dirs \<and> disk k' = disk k \<and> file_size k' f = 0
    else exec_cat w (int od) cmd k = Inl Out_of_bounds"
proof -
  have f1: "type_of k f = 1" using f(2) by (simp add: FILE_TYPE_NORMAL_def)
  obtain k1 where k1: "open_file k (hmem k) off = Inr (int fd, k1)" "tree_ok k1 dirs" "plain_fd k1 fd f" "fd_entries k1 = (fd_entries k)[fd := new_descriptor nm f fd]" "fd < 31"
      "fd \<notin> bm_used (fd_bitmap k)" "bm_used (fd_bitmap k1) = insert fd (bm_used (fd_bitmap k))" "length (fd_bitmap k1) = 1" "disk k1 = disk k"
      "global_inode_table k1 = global_inode_table k"
    using cat_opens [OF ok p f(1) f1 arg fd] by blast
  have ne: "fd \<noteq> od" using k1(6) out(2) by metis
  have same: "file_size k1 f = file_size k f" using k1(10) by (simp add: file_size_def)
  have rp: "read_pos (fd_entries k1 ! fd) = 0" using k1(3,4) by (simp add: plain_fd_def new_descriptor_def)
  have op: "plain_fd k1 od f" "write_pos (fd_entries k1 ! od) = 0" using out(1,3) ne k1(4,9,10) by (simp_all add: plain_fd_def read_block_def)
  have cm: "d_len cmd \<noteq> 3" "word_at k cmd (w32 (d_len cmd + 4294967295)) = Inr off" using cmd by (simp_all add: w32_def)
  show ?thesis
  proof (cases "file_size k f = 0")
    case True
    have "cat_step w (int od) cmd (int fd) (junk (env w) 1, k1) = Inr (Inr k1)" using read_byte [OF k1(3) rp j, of w] True same by (simp add: cat_step_def)
    then have loop: "loop_res (cat_step w (int od) cmd (int fd)) (junk (env w) 1, k1) = Inr k1" by (subst loop_res_unfold) simp
    obtain bm where "close k1 (int fd) = Inr (- 1, k1\<lparr>fd_bitmap := bm\<rparr>)" using close_frees [of fd k1] k1(5,7,8) by auto
    then have "exec_cat w (int od) cmd k = Inr (0, k1\<lparr>fd_bitmap := bm\<rparr>)" using cm(2) k1(1) loop by (simp add: exec_cat_def)
    moreover have "tree_ok (k1\<lparr>fd_bitmap := bm\<rparr>) dirs" using k1(2) tree_ok_cong [of "k1\<lparr>fd_bitmap := bm\<rparr>" k1] by simp
    ultimately show ?thesis using True same k1(9) by (simp add: file_size_def)
  next
    case False
    have "copies_itself k1 fd od f 0" using k1(3) op ne rp False size same by (simp add: copies_itself_def)
    then show ?thesis using cat_loop_itself [OF _ cm(1) j, of k1 fd od f 0 w] cm(2) k1(1) False by (simp add: exec_cat_def)
  qed
qed

theorem cat_redirected_reads_its_output_witness:
  "\<exists>k. file_size k 2 = 2 \<and> exec_cat roomy_world 1 \<lparr>d_len = 4, d_capacity = 4, d_contents = 0x400000 + 2976\<rparr> k = Inl Out_of_bounds"
proof -
  obtain k0 where k0: "tree_ok k0 text_tree" "bm_used (fd_bitmap k0) = {0, 1}" "next_descriptor k0 2" "plain_fd k0 1 2" "write_pos (fd_entries k0 ! 1) = 0" "type_of k0 2 = 1" "file_size k0 2 = 2"
    by (rule sample_text)
  let ?k = "with_argument k0 (47 # join_path [] @ [97])" and ?c = "\<lparr>d_len = 4, d_capacity = 4, d_contents = 0x400000 + 2976\<rparr>"
  have v: "file_size ?k = file_size k0" "type_of ?k = type_of k0" "fd_bitmap ?k = fd_bitmap k0" "fd_entries ?k = fd_entries k0" "next_descriptor ?k 2" "plain_fd ?k 1 2"
    using k0(3,4) by (auto simp: file_size_def type_of_def with_argument_def next_descriptor_def plain_fd_def read_block_def)
  have w: "word_at ?k sample_command 1 = Inr 3024" and arg: "path_arg ?k (hmem ?k) 3024 (47 # join_path [] @ [97])"
    using with_argument_reads [of "47 # join_path [] @ [97]" k0] by (simp_all add: join_path_def)
  have w3: "word_at ?k ?c 3 = Inr 3024" using w by (simp add: word_at_def sample_command_def)
  have t: "tree_ok ?k text_tree" using k0(1) tree_ok_cong [of ?k k0] by (simp add: with_argument_def)
  have d: "leads_to ?k text_tree [] 0" "0 \<in> directories ?k" "comp_ok [97]" "map_of (text_tree 0) [97] = Some 2"
    using t by (simp_all add: leads_to_def tree_ok_def comp_ok_def name_ok_def text_tree_def tty_tree_def add_node_def cstr_of_def)
  have "exec_cat roomy_world (int 1) ?c ?k = Inl Out_of_bounds"
    using cat_redirected_reads_its_output [OF t d(1,2) _ d(3,4) _ _ w3 arg v(5,6), of roomy_world] k0(2,5-7) v by (simp add: FILE_TYPE_NORMAL_def)
  then show ?thesis using k0(7) v(1) by (intro exI [of _ ?k]) simp
qed

text \<open>C20: \<open>sget\<close> does not wait forever. On a serial line that stays silent, once the timer has moved on by more than 500 ticks \<open>sget\<close> returns -1 with its message,
  its descriptor is free again, and neither the disk nor the tree has changed.\<close>

theorem sget_times_out:
  assumes ok: "tree_ok k dirs" and p: "leads_to k dirs cs d" "d \<in> directories k" "\<forall>x \<in> set cs. comp_ok x" "comp_ok nm" and f: "map_of (dirs d) nm = Some f"
    and cmd: "word_at k cmd 1 = Inr off" and arg: "path_arg k (hmem k) off (47 # join_path cs @ nm)" and fd: "next_descriptor k fd"
    and dev: "tty_fd0 k" "serial_fd1 k" "{0, 1} \<subseteq> bm_used (fd_bitmap k)"
    and shown: "tty_write (lit ''waiting for serial port to initiate communication...\<newline>'') 54 (tty k) (screen k) = Inr (54, tm, v, t)"
    and quiet: "quiet_line w" and late: "clock x t + 500 < clock x ((line_poll w ^^ n) t)"
  shows "\<exists>k'. exec_sget w x cmd k = Inr (- 1, k') \<and> error_msg k' = ''src/kernel.c:148: error:sget timed out, couldn't complete transfer\<newline>'' \<and>
    tree_ok k' dirs \<and> disk k' = disk k \<and> bm_used (fd_bitmap k') = bm_used (fd_bitmap k)"
proof -
  obtain k1 where k1: "open_file k (hmem k) off = Inr (int fd, k1)" "tree_ok k1 dirs" "disk k1 = disk k" "global_inode_table k1 = global_inode_table k"
      "global_ibmap k1 = global_ibmap k" "opened k nm f fd k1"
    using open_in_tree [OF ok p arg fd] f by auto
  have o: "fd_entries k1 = (fd_entries k)[fd := new_descriptor nm f fd]" "bm_used (fd_bitmap k1) = insert fd (bm_used (fd_bitmap k))" "length (fd_bitmap k1) = length (fd_bitmap k)"
    using k1(6) by (simp_all add: opened_def)
  have nd: "fd \<notin> bm_used (fd_bitmap k)" "fd < 31" "length (fd_bitmap k) = 1" using fd by (auto simp: next_descriptor_def least_free_def)
  have "0 \<in> bm_used (fd_bitmap k)" "1 \<in> bm_used (fd_bitmap k)" using dev(3) by simp_all
  then have ne: "fd \<noteq> 0" "fd \<noteq> 1" using nd(1) by metis+
  have env: "tty k1 = tty k" "screen k1 = screen k" using open_file_env [OF k1(1)] by simp_all
  have dev1: "tty_fd0 k1" "serial_fd1 k1" using dev(1,2) k1(4,5) o(1) ne by (simp_all add: tty_fd0_def serial_fd1_def)
  let ?k2 = "k1\<lparr>tty := tm, screen := (v, t)\<rparr>" and ?L = "sget_step w x (int fd)"
  have wr: "write_lit w STDOUT waiting 54 k1 = Inr ?k2" using write_console [OF dev1(1)] shown env by (simp add: write_lit_def waiting_def)
  let ?g = "\<lparr>in_message = False, base_time = timer_now x ?k2, bytes_read = 0, size_bytes = [0, 0, 0, 0], sg_char = junk (env w) 1\<rparr>"
  have run: "exec_sget w x cmd k = loop_res ?L (?g, ?k2)" using cmd k1(1) wr by (simp add: exec_sget_def waiting_def)
  let ?P = "\<lambda>i. base_time ?g + 500 < timer_now x (polled w i ?k2)"
  have "?P n" using late by (simp add: timer_now_def polled_def)
  then obtain m where m: "?P m" "\<And>i. i < m \<Longrightarrow> \<not> ?P i" using LeastI [of ?P] not_less_Least by metis
  let ?k3 = "PUSH_ERROR ''src/kernel.c:148: error:sget timed out, couldn't complete transfer\<newline>'' (polled w m ?k2)"
  obtain bm where bm: "close ?k3 (int fd) = Inr (- 1, ?k3\<lparr>fd_bitmap := bm\<rparr>)" "bm_used bm = bm_used (fd_bitmap k1) - {fd}"
    using close_frees [of fd ?k3] o(2,3) nd by (auto simp: PUSH_ERROR_def polled_def)
  have "?L (?g, polled w m ?k2) = Inr (Inr (- 1, ?k3\<lparr>fd_bitmap := bm\<rparr>))" using m(1) bm(1) by (simp add: sget_step_def)
  then have "loop_res ?L (?g, polled w m ?k2) = Inr (- 1, ?k3\<lparr>fd_bitmap := bm\<rparr>)" by (subst loop_res_unfold) simp
  moreover have "serial_fd1 ?k2" using dev1(2) by (simp add: serial_fd1_def)
  then have "loop_res ?L (?g, ?k2) = loop_res ?L (?g, polled w m ?k2)" using m(2) by (intro sget_waits [OF _ quiet]) simp_all
  ultimately have "exec_sget w x cmd k = Inr (- 1, ?k3\<lparr>fd_bitmap := bm\<rparr>)" using run by simp
  moreover have "tree_ok (?k3\<lparr>fd_bitmap := bm\<rparr>) dirs" using k1(2) tree_ok_cong [of "?k3\<lparr>fd_bitmap := bm\<rparr>" k1] by (simp add: PUSH_ERROR_def polled_def)
  ultimately show ?thesis using bm(2) o(2) nd(1) k1(3) by (intro exI [of _ "?k3\<lparr>fd_bitmap := bm\<rparr>"]) (simp add: PUSH_ERROR_def polled_def)
qed

theorem sget_times_out_witness:
  "\<exists>x k k'. exec_sget roomy_world x sample_command k = Inr (- 1, k') \<and> disk k' = disk k"
proof -
  obtain k0 where k0: "tree_ok k0 device_tree" "tty_fd0 k0" "serial_fd1 k0" "bm_used (fd_bitmap k0) = {0, 1}" "next_descriptor k0 2" "tty k0 = zero_terminal"
      "fst (screen k0) = fst (screen root_kernel)"
    by (rule sample_devices)
  let ?p = "47 # join_path [] @ cstr_of ''tty''"
  let ?k = "with_argument k0 ?p"
  have same: "fd_entries ?k = fd_entries k0" "fd_bitmap ?k = fd_bitmap k0" "global_inode_table ?k = global_inode_table k0" "global_ibmap ?k = global_ibmap k0" "tty ?k = tty k0" "screen ?k = screen k0"
    by (simp_all add: with_argument_def)
  have w: "word_at ?k sample_command 1 = Inr 3024" and arg: "path_arg ?k (hmem ?k) 3024 ?p"
    using with_argument_reads [of ?p k0] by (simp_all add: join_path_def cstr_of_def)
  have t: "tree_ok ?k device_tree" using k0(1) tree_ok_cong [of ?k k0] by (simp add: with_argument_def)
  have d: "leads_to ?k device_tree [] 0" "0 \<in> directories ?k" using t by (simp_all add: leads_to_def tree_ok_def)
  have nm: "comp_ok (cstr_of ''tty'')" "map_of (device_tree 0) (cstr_of ''tty'') = Some 1" by (simp_all add: comp_ok_def name_ok_def device_tree_def tty_tree_def add_node_def cstr_of_def)
  have fds: "next_descriptor ?k 2" "tty_fd0 ?k" "serial_fd1 ?k" "{0, 1} \<subseteq> bm_used (fd_bitmap ?k)"
    using k0(2-5) same by (simp_all add: next_descriptor_def tty_fd0_def serial_fd1_def)
  obtain v0 t0 where sc: "screen ?k = (v0, t0)" by (cases "screen ?k")
  let ?a = "lit waiting"
  have la: "length ?a = 54" "take (length ?a) ?a = ?a" "?a \<noteq> []" by (simp_all add: waiting_def lit_def cstr_of_def)
  have v0: "fst (screen k0) = v0" using sc unfolding same(6) by simp
  have "tty_room (tty ?k) v0 (?a @ [])"
    unfolding same(5) using k0(6,7) v0 by (simp add: tty_room_def tty_text_def zero_terminal_def TERMINAL_BUFFER_SIZE_def waiting_def lit_def cstr_of_def line_count_def)
  then obtain tm v t1 where shown: "tty_write ?a 54 (tty ?k) (screen ?k) = Inr (54, tm, v, t1)" using tty_write_room [OF _ la(2,3), of "tty ?k" v0 "[]" t0] sc la(1) by auto
  let ?x = "sample_outside\<lparr>clock := \<lambda>t. word_of_nat (length t - length t1)\<rparr>"
  have len: "length ((line_poll roomy_world ^^ n) t1) = n + length t1" for n
    by (induction n) (simp_all add: line_poll_def serial_received_def inb_def Let_def)
  have q: "quiet_line roomy_world" by (simp add: quiet_line_def serial_received_def inb_def roomy_world_def exact_world_def Let_def)
  have "length ((line_poll roomy_world ^^ 501) t1) - length t1 = 501" using len [of 501] by linarith
  then have late: "clock ?x t1 + 500 < clock ?x ((line_poll roomy_world ^^ 501) t1)" by simp
  show ?thesis using sget_times_out [OF t d _ nm w arg fds shown [unfolded waiting_def] q late] by auto
qed

text \<open>C26: No download completes inside its memory. Whatever the serial line, the timer and the file system do, \<open>sget\<close> never returns 0: the only way into the message
  announces the size in an array of 12 bytes, which the text does not fit.\<close>

theorem sget_never_completes:
  assumes "\<forall>n. length (junk (env w) n) = n"
  shows "exec_sget w x cmd k \<noteq> Inr (0, k')"
proof
  assume "exec_sget w x cmd k = Inr (0, k')"
  then obtain fd g k1 where start: "loop_res (sget_step w x fd) (g, k1) = Inr (0, k')" "\<not> in_message g"
    by (auto simp: exec_sget_def split: if_splits)
  have head: "\<not> in_message g2" if "sget_header w x (g1, k1) = Inr (g2, k2)" "\<not> in_message g1" for g1 g2 k1 k2
    using that sget_announce_fails [OF assms] header_loop_waits by (fastforce simp: sget_header_def split: if_splits)
  have body: "\<not> fin \<and> g2 = g1" if "loop_res (sget_body_step w x fd) (g1, k1) = Inr (fin, g2, k2)" "\<not> in_message g1" for g1 g2 k1 k2 fin
    using that by (subst (asm) loop_res_unfold) (simp add: sget_body_step_def)
  have "case (0 :: int, k') of (r, k) \<Rightarrow> r \<noteq> 0"
  proof (rule loop_res_rule [OF _ _ _ start(1), where P = "\<lambda>(g, k). \<not> in_message g"])
    show "case (g, k1) of (g, k) \<Rightarrow> \<not> in_message g" using start(2) by simp
  qed (use head body in \<open>fastforce simp: sget_step_def split: if_splits\<close>)+
  then show False by simp
qed

theorem sget_never_completes_witness: "\<nexists>k k'. exec_sget roomy_world sample_outside sample_command k = Inr (0, k')"
  using sget_never_completes [of roomy_world] by simp

text \<open>C27: How long \<open>sleep\<close> waits. With a timer that never goes back and gets far enough, \<open>sleep\<close> returns; while the sum of the timer and the ticks to wait
  fits 32 bits it returns at the first look at which that many ticks have passed, and from then on, the sum being one of 32 bits, at the very first look.\<close>

theorem sleep_duration:
  assumes mono: "\<forall>j. ticks x j \<le> ticks x (j + 1)" and reach: "i < r" "unat (ticks x i) + unat n \<le> unat (ticks x r)"
  shows "\<exists>j > i. sleep x n i = Inr (j + 1) \<and>
    (if unat (ticks x i) + unat n < 2 ^ 32
     then unat (ticks x i) + unat n \<le> unat (ticks x j) \<and> (\<forall>m. i < m \<and> m < j \<longrightarrow> unat (ticks x m) < unat (ticks x i) + unat n)
     else j = i + 1)"
proof -
  let ?T = "ucast ((ucast (ticks x i) :: u32) + n) :: u64" and ?s = "unat (ticks x i) + unat n"
  have T: "unat ?T = ?s mod 2 ^ 32" by (simp add: unat_word_ariths(1) unsigned_ucast_eq take_bit_nat_def mod_add_left_eq)
  have run: "sleep x n i = Inr (j + 1)" if "i < j" "\<not> ticks x j < ?T" "\<And>m. i < m \<Longrightarrow> m < j \<Longrightarrow> ticks x m < ?T" for j
    using count_loop [of "i + 1" j "\<lambda>m. ticks x m < ?T"] that by (simp add: sleep_def Let_def)
  show ?thesis
  proof (cases "?s < 2 ^ 32")
    case True
    then have t: "ticks x m < ?T \<longleftrightarrow> unat (ticks x m) < ?s" for m using T by (simp add: word_less_nat_alt)
    let ?P = "\<lambda>j. i < j \<and> ?s \<le> unat (ticks x j)"
    have "?P (LEAST j. ?P j)" by (rule LeastI [of ?P r]) (use reach in simp)
    moreover have "unat (ticks x m) < ?s" if "i < m" "m < (LEAST j. ?P j)" for m using not_less_Least [OF that(2)] that(1) by simp
    ultimately show ?thesis using run [of "LEAST j. ?P j"] True t by (intro exI [of _ "LEAST j. ?P j"]) auto
  next
    case False
    then have "?s mod 2 ^ 32 = (?s - 2 ^ 32) mod 2 ^ 32" by (intro le_mod_geq) simp
    also have "\<dots> \<le> ?s - 2 ^ 32" by (rule mod_less_eq_dividend)
    also have "\<dots> \<le> unat (ticks x i)" using unsigned_less [of n, where 'a = nat] by simp
    finally have "?s mod 2 ^ 32 \<le> unat (ticks x i)" .
    moreover have "unat (ticks x i) \<le> unat (ticks x (i + 1))" using mono by (simp add: word_le_nat_alt)
    ultimately have "\<not> ticks x (i + 1) < ?T" unfolding word_less_nat_alt T by linarith
    then have "sleep x n i = Inr (i + 1 + 1)" by (intro run) simp_all
    then show ?thesis using False by (intro exI [of _ "i + 1"]) simp
  qed
qed

theorem sleep_duration_witness: "sleep (sample_outside\<lparr>ticks := \<lambda>j. word_of_nat (min j 10)\<rparr>) 3 0 = Inr 4"
proof -
  let ?x = "sample_outside\<lparr>ticks := \<lambda>j. word_of_nat (min j 10)\<rparr>"
  have u: "unat (ticks ?x j) = min j 10" for j by (simp add: unat_of_nat)
  have "\<forall>j. ticks ?x j \<le> ticks ?x (j + 1)" unfolding word_le_nat_alt u by auto
  then obtain j where j: "0 < j" "sleep ?x 3 0 = Inr (j + 1)" "3 \<le> min j 10" "\<forall>m. 0 < m \<and> m < j \<longrightarrow> min m 10 < 3"
    using sleep_duration [of ?x 0 3 3] unfolding u by (auto simp del: min_less_iff_disj)
  have "\<not> 3 < j" using j(4) [rule_format, of 3] by auto
  then have "j = 3" using j(3) by simp
  then show ?thesis using j(2) by simp
qed

end
