(* ===== verification/Listing.thy ===== *)
theory Listing
  imports Shell_Commands
begin

text \<open>
  The listing of a directory: \<open>str_list_dir\<close> in \<open>src/src/fs.c\<close> and the command \<open>ls\<close> in \<open>src/src/kernel.c\<close>, which shows it. The text is built in a
  block with 32 bytes for each entry and one for the end; a listing that needs more leaves the block.
\<close>

section \<open>The text of a listing\<close>

text \<open>One line for each entry, the path and the name; the line feeds are between the lines.\<close>

fun list_text :: "u8 list \<Rightarrow> bool \<Rightarrow> dir_entries \<Rightarrow> u8 list" where
  "list_text s first [] = []"
| "list_text s first (e # es) = (if first then [] else [10]) @ s @ fst e @ list_text s False es"

definition listing :: "u8 list \<Rightarrow> dir_entries \<Rightarrow> u8 list" where
  "listing s es = list_text s True es"

lemma list_text_chars: "0 \<notin> set s \<Longrightarrow> \<forall>e \<in> set es. 0 \<notin> set (fst e) \<Longrightarrow> 0 \<notin> set (list_text s first es)"
  by (induction s first es rule: list_text.induct) auto

lemma strcat_no_room:
  "cstr_at src s t \<Longrightarrow> d \<le> length dst \<Longrightarrow> length dst \<le> d + length t \<Longrightarrow> strcat src s dst d = Inl Out_of_bounds"
  using strcpy_loop_no_room [of src s t 0 dst d] by (simp add: strcat_def)

text \<open>One round of the loop: a line is added, if it fits with the null byte behind it.\<close>

definition list_line :: "u8 list \<Rightarrow> u8 list \<Rightarrow> nat \<Rightarrow> nat \<Rightarrow> u8 list \<Rightarrow> nat \<Rightarrow> (u8 list \<times> nat) res" where
  "list_line blk path off i buf p =
     obind (if 0 < i then obind (wr buf p 10) (\<lambda>b. Inr (b, p + 1)) else Inr (buf, p)) (\<lambda>(b0, p0).
     obind (strcat path off b0 p0) (\<lambda>(a, b1).
     obind (strcat blk (DIR_ENTRY_BYTES * i) b1 (p0 + a)) (\<lambda>(b, b2). Inr (b2, p0 + a + b))))"

lemma str_list_loop_line:
  "str_list_loop blk path off n i buf p =
     (if i < n then obind (list_line blk path off i buf p) (\<lambda>(b, q). str_list_loop blk path off n (i + 1) b q) else Inr (buf, p))"
  by (subst str_list_loop.simps) (auto simp: list_line_def obind_assoc split_def intro!: obind_cong)

lemma list_line_fits:
  assumes path: "cstr_at path off s" and nm: "cstr_at blk (36 * i) t" and line: "line = (if i = 0 then [] else [10]) @ s @ t" and room: "p + length line < length buf"
  shows "\<exists>b. list_line blk path off i buf p = Inr (b, p + length line) \<and> length b = length buf \<and> take p b = take p buf \<and> take (length line) (drop p b) = line"
proof -
  let ?b0 = "if 0 < i then buf[p := 10] else buf" and ?p0 = "if 0 < i then p + 1 else p"
  let ?b1 = "overlay ?p0 (s @ [0]) ?b0" let ?b2 = "overlay (?p0 + length s) (t @ [0]) ?b1"
  have l: "length ?b0 = length buf" "length line = (if 0 < i then 1 else 0) + length s + length t" using line by auto
  have "strcat path off ?b0 ?p0 = Inr (length s, ?b1)" "strcat blk (36 * i) ?b1 (?p0 + length s) = Inr (length t, ?b2)"
    by (rule strcat_cstr; use path nm l room in \<open>auto\<close>)+
  then have "list_line blk path off i buf p = Inr (?b2, p + length line)"
    using l(2) room by (auto simp: list_line_def DIR_ENTRY_BYTES_def)
  moreover have "length ?b2 = length buf" using l room by auto
  moreover have "take p ?b2 = take p buf" using l room by (intro nth_equalityI) (auto simp: nth_overlay)
  moreover have "take (length line) (drop p ?b2) = line"
    using l room by (intro nth_equalityI) (auto simp: line nth_overlay nth_append nth_Cons')
  ultimately show ?thesis by blast
qed

lemma list_line_no_room:
  assumes path: "cstr_at path off s" and nm: "cstr_at blk (36 * i) t" and room: "length buf \<le> p + length ((if i = 0 then [] else [10]) @ s @ t)" "p \<le> length buf"
  shows "list_line blk path off i buf p = Inl Out_of_bounds"
proof -
  let ?b0 = "if 0 < i then buf[p := 10] else buf" and ?p0 = "if 0 < i then p + 1 else p"
  have "0 < i \<and> length buf \<le> p \<or> ?p0 \<le> length ?b0" using room(2) by (cases "0 < i") auto
  then consider "0 < i" "length buf \<le> p" | "?p0 \<le> length ?b0" "length ?b0 \<le> ?p0 + length s" | "?p0 \<le> length ?b0" "?p0 + length s < length ?b0"
    using leI by blast
  then show ?thesis
  proof cases
    case 1
    then show ?thesis by (simp add: list_line_def wr_def)
  next
    case 2
    then have "strcat path off ?b0 ?p0 = Inl Out_of_bounds" by (intro strcat_no_room [OF path])
    then show ?thesis using 2 by (auto simp: list_line_def wr_def split: if_splits)
  next
    case 3
    let ?b1 = "overlay ?p0 (s @ [0]) ?b0"
    have 1: "strcat path off ?b0 ?p0 = Inr (length s, ?b1)" by (rule strcat_cstr [OF path 3(2)])
    have "strcat blk (36 * i) ?b1 (?p0 + length s) = Inl Out_of_bounds" by (rule strcat_no_room [OF nm]) (use 3 room in \<open>auto split: if_splits\<close>)
    then show ?thesis using 1 3 by (auto simp: list_line_def wr_def DIR_ENTRY_BYTES_def split: if_splits)
  qed
qed

text \<open>The loop writes the text of the remaining entries, or leaves the array.\<close>

definition adds_text :: "(u8 list \<times> nat) res \<Rightarrow> u8 list \<Rightarrow> u8 list \<Rightarrow> nat \<Rightarrow> bool" where
  "adds_text r t buf p \<longleftrightarrow>
     (if p + length t < length buf then \<exists>b. r = Inr (b, p + length t) \<and> length b = length buf \<and> take p b = take p buf \<and> take (length t) (drop p b) = t
      else r = Inl Out_of_bounds)"

lemma adds_text_append:
  assumes b: "length b = length buf" "take p b = take p buf" "take (length t) (drop p b) = t" and r: "adds_text r u b (p + length t)"
  shows "adds_text r (t @ u) buf p"
proof (cases "p + length t + length u < length b")
  case True
  then obtain c where c: "r = Inr (c, p + length t + length u)" "length c = length b" "take (p + length t) c = take (p + length t) b" "take (length u) (drop (p + length t) c) = u"
    using r by (auto simp: adds_text_def)
  have "take p c = take p buf" using arg_cong [OF c(3), of "take p"] b(2) by (simp add: min_def)
  moreover have "take (length t) (drop p c) = t" using arg_cong [OF c(3), of "drop p"] b(3) by (simp add: drop_take)
  then have "take (length (t @ u)) (drop p c) = t @ u" using c(4) by (simp add: take_add add.commute)
  ultimately show ?thesis using True b(1) c(1,2) by (auto simp: adds_text_def add.assoc)
qed (use r b(1) in \<open>auto simp: adds_text_def\<close>)

lemma str_list_loop_text:
  assumes path: "cstr_at path off s" and rep: "dir_rep blk es" and "i \<le> length es" and "p < length buf"
  shows "adds_text (str_list_loop blk path off (length es) i buf p) (list_text s (i = 0) (drop i es)) buf p"
  using assms(3,4)
proof (induction "length es - i" arbitrary: i buf p)
  case 0
  then show ?case by (simp add: str_list_loop_line [of _ _ _ _ i] adds_text_def)
next
  case (Suc n)
  then have i: "i < length es" by linarith
  define line where "line = (if i = 0 then [] else [10]) @ s @ fst (es ! i)"
  have t: "list_text s (i = 0) (drop i es) = line @ list_text s (Suc i = 0) (drop (Suc i) es)" using i by (simp add: Cons_nth_drop_Suc [symmetric] line_def)
  have nm: "cstr_at blk (36 * i) (fst (es ! i))" by (rule dir_rep_entry(1) [OF rep i])
  show ?case
  proof (cases "p + length line < length buf")
    case False
    have "list_line blk path off i buf p = Inl Out_of_bounds" by (rule list_line_no_room [OF path nm]) (use False Suc.prems(2) in \<open>simp_all add: line_def\<close>)
    then show ?thesis unfolding t using False i by (simp add: str_list_loop_line [of _ _ _ _ i] adds_text_def)
  next
    case True
    obtain b where b: "list_line blk path off i buf p = Inr (b, p + length line)" "length b = length buf" "take p b = take p buf" "take (length line) (drop p b) = line"
      using list_line_fits [OF path nm line_def True] by blast
    have "str_list_loop blk path off (length es) i buf p = str_list_loop blk path off (length es) (Suc i) b (p + length line)"
      using b(1) i by (simp add: str_list_loop_line [of _ _ _ _ i])
    moreover have "adds_text (str_list_loop blk path off (length es) (Suc i) b (p + length line)) (list_text s (Suc i = 0) (drop (Suc i) es)) b (p + length line)"
      by (rule Suc.hyps(1)) (use Suc.hyps(2) i True b(2) in simp_all)
    ultimately show ?thesis unfolding t using adds_text_append [OF b(2-4)] by simp
  qed
qed

section \<open>Listing a directory of the tree\<close>

lemma files_of_directory:
  assumes "tree_ok k dirs" and "d \<in> directories k"
  shows "dir_rep (read_block k (block_of k d)) (dirs d)" and "files_contained (global_inode_table k ! d) = length (dirs d)" and "d < 426" and "length (global_inode_table k) = 426"
    and "length (dirs d) \<le> 113" and "\<forall>e \<in> set (dirs d). 0 \<notin> set (fst e)"
proof -
  have d: "dir_of k d (dirs d)" using assms by (simp add: tree_ok_def)
  show r: "dir_rep (read_block k (block_of k d)) (dirs d)" using d by (simp add: dir_of_def block_of_def)
  show "files_contained (global_inode_table k ! d) = length (dirs d)" using d by (intro files_contained_dir) (simp add: dir_of_def)
  show "d < 426" "length (global_inode_table k) = 426" using assms by (auto simp: tree_ok_def maps_ok_def directories_def)
  show "length (dirs d) \<le> 113" using d by (rule dir_of_length)
  show "\<forall>e \<in> set (dirs d). 0 \<notin> set (fst e)"
  proof
    fix e assume "e \<in> set (dirs d)"
    then obtain i where "i < length (dirs d)" "e = dirs d ! i" by (metis in_set_conv_nth)
    then show "0 \<notin> set (fst e)" using dir_rep_entry(1) [OF r] by (simp add: cstr_at_def)
  qed
qed

lemma seek_directory_found:
  assumes ok: "tree_ok k dirs" and p: "leads_to k dirs cs d" "d \<in> directories k" "\<forall>x \<in> set cs. comp_ok x" and c: "cstr_at path off (47 # join_path cs)"
  shows "seek_directory k path off = Inr (int d, k)"
proof -
  have d: "d < 426" "length (global_inode_table k) = 426" using files_of_directory(3,4) [OF ok p(2)] by simp_all
  have "resolve dirs 0 cs = Some d" "path_ok k dirs 0 cs" using p(1) in_tree_path_ok [OF ok, of 0 cs] by (simp_all add: leads_to_def)
  moreover have "file_type (global_inode_table k ! d) = 0" using p(2) by (simp add: directories_def type_of_def)
  ultimately show ?thesis using seek_directory_resolves [OF c p(3), of k dirs] d by (simp add: s32_def)
qed

lemma str_list_dir_text:
  assumes ok: "tree_ok k dirs" and p: "leads_to k dirs cs d" "d \<in> directories k" "\<forall>x \<in> set cs. comp_ok x" and c: "cstr_at path off (47 # join_path cs)"
    and h: "heap_ready (heap k) hi" "hi + 4 + 32 * length (dirs d) \<le> length (hmem k)" "length (hmem k) \<le> 8192" "card (dom (heap_live (heap k))) < 256"
  defines "txt \<equiv> listing (47 # join_path cs) (dirs d)"
  shows "if length txt \<le> 32 * length (dirs d)
    then \<exists>a h' m. str_list_dir k path off = Inr (Some a, k\<lparr>heap := h', hmem := m\<rparr>) \<and> bottom h' = bottom (heap k) \<and> bottom (heap k) \<le> a \<and> cstr_at m (a - bottom (heap k)) txt \<and>
      length m = length (hmem k) \<and> (\<exists>hi. heap_ready h' hi) \<and> heap_live (heap k) a = None \<and> heap_live h' = (heap_live (heap k))(a \<mapsto> 32 * length (dirs d) + 1)
    else str_list_dir k path off = Inl Out_of_bounds"
proof -
  let ?n = "length (dirs d)" let ?sz = "?n * 32 + 1"
  note F = files_of_directory [OF ok p(2)]
  obtain a h' where a: "kmalloc (heap k) ?sz = Inr (a, h')" "heap_ready h' (hi + 3 + ?sz)" "bottom h' = bottom (heap k)" "heap_live (heap k) a = None"
      "heap_live h' = (heap_live (heap k))(a \<mapsto> ?sz)" "bottom (heap k) \<le> a" "a + ?sz \<le> bottom (heap k) + (hi + 3 + ?sz)"
    using kmalloc_ready [OF h(1), of ?sz] h(2-4) by auto
  let ?o = "a - bottom (heap k)" let ?buf = "take ?sz (drop ?o (hmem k))"
  let ?r = "str_list_loop (read_block k (block_of k d)) path off ?n 0 ?buf 0"
  have o: "?o + ?sz \<le> length (hmem k)" and off: "heap_off h' a = Inr ?o" using a(3,6,7) h(2) by (simp_all add: heap_off_def)
  have len: "length ?buf = ?sz" using o by simp
  have sd: "str_list_dir k path off = obind ?r (\<lambda>(m, q). obind (wr m q 0) (\<lambda>m'. Inr (Some a, k\<lparr>heap := h', hmem := overlay ?o m' (hmem k)\<rparr>)))"
    using seek_directory_found [OF ok p c] F(2-5) a(1) off o
    by (simp add: str_list_dir_def u32_of_int_def block_of_def Let_def not_less)
  have z: "0 \<notin> set txt" unfolding txt_def listing_def using c F(6) by (intro list_text_chars) (simp_all add: cstr_at_def)
  have r: "adds_text ?r txt ?buf 0"
    using str_list_loop_text [OF c F(1), of 0 0 ?buf] len by (simp add: txt_def listing_def)
  show ?thesis
  proof (cases "length txt \<le> 32 * ?n")
    case True
    then obtain b where b: "?r = Inr (b, length txt)" "length b = ?sz" "take (length txt) b = txt" using r unfolding adds_text_def len by auto
    let ?m = "overlay ?o (b[length txt := 0]) (hmem k)"
    have "cstr_at (b[length txt := 0]) 0 txt" using b(2,3) True z by (simp add: cstr_at_def)
    then have "cstr_at ?m ?o txt" using o b(2) True by (auto simp: cstr_at_def nth_overlay intro!: nth_equalityI) (simp add: list_eq_iff_nth_eq)
    moreover have "str_list_dir k path off = Inr (Some a, k\<lparr>heap := h', hmem := ?m\<rparr>)" using sd b(1,2) True by simp
    moreover have "length ?m = length (hmem k)" "\<exists>hi. heap_ready h' hi" "heap_live h' = (heap_live (heap k))(a \<mapsto> 32 * ?n + 1)" using a(2,5) o b(2) by (auto simp: mult.commute)
    ultimately show ?thesis using a(3,4,6) True by (simp only: if_True) blast
  next
    case False
    then have "?r = Inl Out_of_bounds" using r unfolding adds_text_def len by simp
    then show ?thesis using sd False by simp
  qed
qed

text \<open>\<open>ls\<close> and the console: the listing is shown, and the block it was in is given back.\<close>

lemma listing_nonempty: "es \<noteq> [] \<Longrightarrow> listing (47 # s) es \<noteq> []"
  by (cases es) (simp_all add: listing_def)

lemma exec_ls_shows:
  assumes sd: "str_list_dir k (hmem k) p = Inr (Some a, k\<lparr>heap := h', hmem := m\<rparr>)" "bottom h' = bottom (heap k)" "bottom (heap k) \<le> a" "cstr_at m (a - bottom (heap k)) t"
      "heap_ready h' hi" "heap_live (heap k) a = None" "heap_live h' = (heap_live (heap k))(a \<mapsto> n)"
    and c: "console k (t @ out)" "t \<noteq> []" and w: "word_at k cmd 1 = Inr p" and len: "length m = length (hmem k)"
  shows "\<exists>k'. exec_ls w STDOUT cmd k = Inr (0, k') \<and> tty_text (tty k') = tty_text (tty k) @ t \<and> console k' out \<and> same_fs k k' \<and> kbd k' = kbd k \<and>
    heap_inv (heap k') \<and> heap_live (heap k') = heap_live (heap k)"
proof -
  let ?k = "k\<lparr>heap := h', hmem := m\<rparr>" and ?o = "a - bottom (heap k)"
  have c1: "console ?k (t @ out)" "take (length t) (drop ?o m) = t" using c(1) sd(4) by (simp_all add: cstr_at_def)
  obtain tm s where wf: "write_file w ?k 0 (drop ?o m) (length t) = Inr (length t, ?k\<lparr>tty := tm, screen := s\<rparr>)" "console (?k\<lparr>tty := tm, screen := s\<rparr>) out" "tty_text tm = tty_text (tty k) @ t"
    using console_write [OF c1 c(2), of w] by auto
  obtain h2 where h2: "kfree h' a = Inr h2" "heap_ready h2 hi" "heap_live h2 = (heap_live h')(a := None)" using kfree_ready [OF sd(5), of a] sd(7) by auto
  let ?k' = "?k\<lparr>tty := tm, screen := s, heap := h2\<rparr>"
  have "exec_ls w STDOUT cmd k = Inr (0, ?k')" using w sd(1-4) wf(1) h2(1) by (simp add: exec_ls_def heap_off_def STDOUT_def)
  moreover have "heap_live h2 = heap_live (heap k)" using h2(3) sd(6,7) by (simp add: fun_upd_idem)
  moreover have "console ?k' out" using wf(2) by (simp add: console_def tty_fd0_def)
  ultimately show ?thesis using wf(3) h2(2) len by (intro exI [of _ ?k']) (simp add: same_fs_def heap_ready_def)
qed

section \<open>Properties\<close>

text \<open>C10: \<open>ls\<close> shows a directory. Given the path of a directory of the tree, with its last slash, \<open>ls\<close> adds to the terminal exactly one line for each entry, the
  path and the name, in the order of the directory, returns 0, gives its block back to the heap and changes nothing else, when the lines fit 32 bytes for each entry; when
  they do not, it writes past the end of the block it allocated for them.\<close>

theorem ls_lists_directory:
  assumes ok: "tree_ok k dirs" and p: "leads_to k dirs cs d" "d \<in> directories k" "\<forall>x \<in> set cs. comp_ok x"
    and cmd: "word_at k cmd 1 = Inr p" "cstr_at (hmem k) p (47 # join_path cs)"
    and h: "heap_ready (heap k) hi" "hi + 4 + 32 * length (dirs d) \<le> length (hmem k)" "length (hmem k) \<le> 8192" "card (dom (heap_live (heap k))) < 256"
    and c: "console k (listing (47 # join_path cs) (dirs d) @ out)" "dirs d \<noteq> []"
  shows "if length (listing (47 # join_path cs) (dirs d)) \<le> 32 * length (dirs d)
    then \<exists>k'. exec_ls w STDOUT cmd k = Inr (0, k') \<and> tty_text (tty k') = tty_text (tty k) @ listing (47 # join_path cs) (dirs d) \<and> console k' out \<and> same_fs k k' \<and> kbd k' = kbd k \<and>
      heap_inv (heap k') \<and> heap_live (heap k') = heap_live (heap k)
    else exec_ls w STDOUT cmd k = Inl Out_of_bounds"
proof (cases "length (listing (47 # join_path cs) (dirs d)) \<le> 32 * length (dirs d)")
  case True
  let ?t = "listing (47 # join_path cs) (dirs d)"
  obtain a h' m hi' where "str_list_dir k (hmem k) p = Inr (Some a, k\<lparr>heap := h', hmem := m\<rparr>)" "bottom h' = bottom (heap k)" "bottom (heap k) \<le> a" "cstr_at m (a - bottom (heap k)) ?t"
      "heap_ready h' hi'" "heap_live (heap k) a = None" "heap_live h' = (heap_live (heap k))(a \<mapsto> 32 * length (dirs d) + 1)" "length m = length (hmem k)"
    using str_list_dir_text [OF ok p cmd(2) h] True by auto
  then show ?thesis using exec_ls_shows [OF _ _ _ _ _ _ _ c(1) listing_nonempty [OF c(2)] cmd(1)] True by simp
next
  case False
  then have "str_list_dir k (hmem k) p = Inl Out_of_bounds" using str_list_dir_text [OF ok p cmd(2) h] by simp
  then show ?thesis using False cmd(1) by (simp add: exec_ls_def)
qed

theorem ls_lists_directory_witness:
  "\<exists>k k'. exec_ls roomy_world STDOUT sample_command k = Inr (0, k') \<and> tty_text (tty k') = tty_text (tty k) @ cstr_of ''/tty''"
proof -
  obtain k where k: "tree_ok k tty_tree" "tty_fd0 k" "tty k = zero_terminal" "fst (screen k) = fst (screen root_kernel)" by (rule sample_shell)
  let ?k = "with_argument k (47 # join_path [])"
  have t: "tree_ok ?k tty_tree" using k(1) tree_ok_cong [of ?k k] by (simp add: with_argument_def)
  have d: "leads_to ?k tty_tree [] 0" "0 \<in> directories ?k" "tty_tree 0 = [(cstr_of ''tty'', 1)]" using t by (simp_all add: leads_to_def tree_ok_def tty_tree_def add_node_def)
  have l: "listing (47 # join_path []) (tty_tree 0) = cstr_of ''/tty''" unfolding d(3) by (simp add: listing_def join_path_def cstr_of_def)
  have w: "word_at ?k sample_command 1 = Inr 3024" "cstr_at (hmem ?k) 3024 (47 # join_path [])"
    using with_argument_reads [of "47 # join_path []" k] by (simp_all add: join_path_def path_arg_def)
  have m: "length (hmem ?k) = 4096" using argument_memory_layout(1) [of "47 # join_path []"] by (simp add: with_argument_def join_path_def)
  have h: "heap_ready (heap ?k) 0" "heap_live (heap ?k) = (\<lambda>_. None)" using heap_inv_fresh [of "0x400000"] by (simp_all add: with_argument_def heap_ready_def)
  have "tty_fd0 ?k" using k(2) by (simp add: with_argument_def tty_fd0_def)
  then have c: "console ?k (cstr_of ''/tty'' @ [])"
    using console_sample [of ?k "cstr_of ''/tty''" "kbd ?k"] k(3,4) by (simp add: with_argument_def line_count_def cstr_of_def)
  have len: "length (cstr_of ''/tty'') \<le> 32 * length (tty_tree 0)" "tty_tree 0 \<noteq> []" unfolding d(3) by (simp_all add: cstr_of_def)
  have "\<exists>k'. exec_ls roomy_world STDOUT sample_command ?k = Inr (0, k') \<and> tty_text (tty k') = tty_text (tty ?k) @ cstr_of ''/tty''"
    using ls_lists_directory [OF t d(1,2) _ w h(1), of "[]" roomy_world] m h(2) c len unfolding l by (auto simp: d(3))
  then show ?thesis by blast
qed

end
