(* ===== verification/Removing.thy ===== *)
theory Removing
  imports Shell_Run
begin

text \<open>
  The command \<open>rm\<close> in \<open>src/src/kernel.c\<close>, from the keyboard's buffer to the disk. \<open>unlink\<close> writes one byte past the array it is declared with; where there is
  memory for that byte, after \<open>touch\<close> or \<open>mkdir\<close> and \<open>rm\<close> of the same path the disk represents the tree it represented before, with the same inodes and the same blocks in use.
\<close>

section \<open>What deleting leaves alone\<close>

lemma unlink_frame:
  assumes "unlink w k path off = Inr (r, k')"
  shows "same_env k k'" and "fd_entries k' = fd_entries k"
proof -
  have seek: "same_env k k1 \<and> fd_entries k1 = fd_entries k" if "seek_directory k mem o1 = Inr (q, k1)" for k mem o1 q k1
    using seek_directory_env [OF that] that by (auto simp: seek_directory_def PUSH_ERROR_def split: if_splits option.splits)
  have search: "same_env k k1 \<and> fd_entries k1 = fd_entries k" if "search_dir k e mem o1 = Inr (q, k1)" for k e mem o1 q k1
    using search_dir_env [OF that] that by (auto simp: search_dir_def PUSH_ERROR_def Let_def split: if_splits option.splits)
  have gone: "same_env k k1 \<and> fd_entries k1 = fd_entries k" if "unlink_file_in_dir k e f = Inr k1" for k e f k1
    using that by (auto simp: unlink_file_in_dir_def same_env_def write_block_def Let_def)
  have "same_env k k' \<and> fd_entries k' = fd_entries k"
    using assms by (auto simp: unlink_def same_env_def PUSH_ERROR_def split: if_splits dest!: seek search gone)
  then show "same_env k k'" "fd_entries k' = fd_entries k" by simp_all
qed

lemma tty_fd0_removed:
  assumes t: "tty_fd0 k" and rm: "removed k es d f k'" and fd: "fd_entries k' = fd_entries k" and d: "d \<in> directories k" and f: "type_of k f \<noteq> 2"
  shows "tty_fd0 k'"
proof -
  let ?t = "inode_num (fd_entries k ! 0)"
  have t': "?t \<in> bm_used (global_ibmap k)" "file_type (global_inode_table k ! ?t) = 2" using t by (simp_all add: tty_fd0_def Let_def)
  have "?t \<noteq> f" using t'(2) f by (auto simp: type_of_def)
  moreover have "?t \<noteq> d" using t'(2) d by (auto simp: directories_def type_of_def)
  ultimately show ?thesis using t rm fd by (simp add: tty_fd0_def removed_def Let_def)
qed

lemma removed_cong:
  assumes "removed k es d f k1" and "global_inode_table k2 = global_inode_table k1" and "disk k2 = disk k1"
    and "global_ibmap k2 = global_ibmap k1" and "global_dbmap k2 = global_dbmap k1"
  shows "removed k es d f k2"
  using assms dir_of_cong [OF assms(2,3)] by (simp add: removed_def)

section \<open>The command\<close>

text \<open>\<open>removable\<close>: the path leads to a directory that is not completely full, which has the name, of something with a data block.\<close>

definition removable :: "kernel \<Rightarrow> (nat \<Rightarrow> dir_entries) \<Rightarrow> u8 list list \<Rightarrow> u8 list \<Rightarrow> nat \<Rightarrow> nat \<Rightarrow> bool" where
  "removable k dirs cs nm d f \<longleftrightarrow> leads_to k dirs cs d \<and> d \<in> directories k \<and> (\<forall>x \<in> set cs. comp_ok x) \<and> comp_ok nm \<and>
     map_of (dirs d) nm = Some f \<and> type_of k f \<noteq> 2 \<and> length (dirs d) < 113"

text \<open>\<open>spare_byte\<close>: more memory has been set aside for the array of \<open>unlink\<close> than the \<open>strlen(path)\<close> bytes it is declared with.\<close>

definition spare_byte :: "world \<Rightarrow> u8 list \<Rightarrow> bool" where
  "spare_byte w p \<longleftrightarrow> length p < vla (env w) (length p)"

lemma removable_same_fs: "same_fs k k' \<Longrightarrow> removable k' dirs cs nm d f = removable k dirs cs nm d f"
  by (simp add: removable_def leads_to_def directories_def type_of_def same_fs_def)

lemma unlink_removes:
  assumes ok: "tree_ok k dirs" and rm: "removable k dirs cs nm d f" and c: "cstr_at path off (47 # join_path cs @ nm)"
    and w: "\<forall>n. length (junk (env w) n) = n" "spare_byte w (47 # join_path cs @ nm)"
  shows "\<exists>k'. unlink w k path off = Inr (0, k') \<and> removed k (dirs d) d f k'"
proof -
  have r: "leads_to k dirs cs d" "d \<in> directories k" "\<forall>x \<in> set cs. comp_ok x" "47 \<notin> set nm" "length nm < 32" "map_of (dirs d) nm = Some f" "type_of k f \<noteq> 2" "length (dirs d) < 113"
    using rm by (simp_all add: removable_def comp_ok_def name_ok_def)
  have "f \<in> with_block k" using tree_entry_used(1) [OF ok r(2,6)] r(7) by (simp add: with_block_def)
  then have b: "block_of k f \<in> bm_used (global_dbmap k)" using ok by (auto simp: tree_ok_def blocks_ok_def)
  show ?thesis using unlink_ok [OF ok c r(4,5,3,1,2,6,8) b] w unfolding spare_byte_def by blast
qed

lemma command_removes:
  assumes cm: "command L hi k0 cur cmd strs [verb, 47 # join_path cs @ nm] ks (prompt @ out) k"
    and ok: "tree_ok k0 dirs" and rm: "removable k0 dirs cs nm d f" and w: "\<forall>n. length (junk (env w) n) = n" "spare_byte w (47 # join_path cs @ nm)"
  shows "\<exists>k1 k2. unlink w k (hmem k) (d_contents (strs ! 1) - bottom (heap k)) = Inr (0, k1) \<and> after_command w STDOUT 0 cmd k1 = Inr k2 \<and>
    removed k0 (dirs d) d f k2 \<and> console k2 out \<and> kbd k2 = kbd k"
proof -
  let ?off = "d_contents (strs ! 1) - bottom (heap k)"
  have c: "console k (prompt @ out)" "same_fs k0 k" and ch: "command_heap L hi cur cmd strs [verb, 47 # join_path cs @ nm] (heap k) (hmem k)"
    using cm by (simp_all add: command_def)
  have tk: "tree_ok k dirs" "removable k dirs cs nm d f" using ok rm tree_ok_same_fs [OF c(2)] removable_same_fs [OF c(2)] by simp_all
  have cs: "cstr_at (hmem k) ?off (47 # join_path cs @ nm)" using word_at_ok(2) [OF ch, of 1] by simp
  obtain k1 where k1: "unlink w k (hmem k) ?off = Inr (0, k1)" "removed k (dirs d) d f k1" using unlink_removes [OF tk cs w] by blast
  note fr = unlink_frame [OF k1(1)]
  have "tty_fd0 k1" using tty_fd0_removed [OF _ k1(2) fr(2)] c(1) tk(2) by (simp add: console_def removable_def)
  then have "console k1 (prompt @ out)" using c(1) fr(1) by (simp add: console_def same_env_def)
  moreover have "freeable hi cmd (strs ! 0) (heap k1) (hmem k1)" using command_freeable [OF ch] fr(1) by (simp add: same_env_def)
  ultimately obtain k2 where k2: "after_command w STDOUT 0 cmd k1 = Inr k2" "console k2 out" "same_fs k1 k2" "kbd k2 = kbd k1"
    using after_command_ok by blast
  have "removed k (dirs d) d f k2" using removed_cong [OF k1(2)] k2(3) by (simp add: same_fs_def)
  then have "removed k0 (dirs d) d f k2" using c(2) by (simp add: removed_def same_fs_def block_of_def)
  then show ?thesis using k1(1) k2(1,2,4) fr(1) by (auto simp: same_env_def)
qed

text \<open>The end of the line \<open>rm p\<close> is \<open>unlink\<close> on its second word, and what follows a command.\<close>

lemma end_of_line_rm:
  assumes s: "session L base n k0 (cstr_of ''rm'' @ 32 # 47 # join_path cs @ nm) ks out s" and z: "0 \<notin> set (join_path cs @ nm)"
    and path: "32 \<notin> set (join_path cs @ nm)" "34 \<notin> set (join_path cs @ nm)" and n: "length (cstr_of ''rm'' @ 32 # 47 # join_path cs @ nm) < n"
    and room: "base + 22 * n + 120 \<le> length (hmem (sh_kernel s))"
  shows "\<exists>hi cur cmd strs k. command L hi k0 cur cmd strs [cstr_of ''rm'', 47 # join_path cs @ nm] ks out k \<and>
    end_of_line w x s = obind (unlink w k (hmem k) (d_contents (strs ! 1) - bottom (heap k))) (\<lambda>(code, k2).
      obind (after_command w STDOUT code cmd k2) (\<lambda>k3. Inr (Inl (s\<lparr>curr_command := cur\<lparr>d_len := 0\<rparr>, sh_kernel := k3\<rparr>))))"
proof -
  let ?p = "47 # join_path cs @ nm" let ?line = "cstr_of ''rm'' @ 32 # ?p"
  have vc: "32 \<notin> set (cstr_of ''rm'')" "34 \<notin> set (cstr_of ''rm'')" "0 \<notin> set (cstr_of ''rm'')" "cstr_of ''rm'' \<noteq> cstr_of ''>''" by (simp_all add: cstr_of_def)
  have ws: "[cstr_of ''rm'', ?p] = pieces 32 True False [] ?line" using pieces_two [OF vc(1,2), of ?p "[]"] path by simp
  have z': "0 \<notin> set ?line" using vc(3) z by auto
  let ?hi = "base + 10 * n + 10 * (length ?line + 1) + 54 * length [cstr_of ''rm'', ?p]"
  have hi: "?hi \<le> length (hmem (sh_kernel s))" using room n by simp
  have card: "card (dom L) + length [cstr_of ''rm'', ?p] < 253" and len: "d_len (curr_command s) = length ?line" using s by (simp_all add: session_def line_heap_def)
  obtain cur k1 p cmd strs a m where 1: "APPEND_char 0 (curr_command s) (sh_kernel s) = Inr (cur, k1)" "heap_off (heap k1) (d_contents cur) = Inr p"
      "string_split (hmem k1) p 32 True (heap k1, hmem k1) = Inr (cmd, a, m)" "command L ?hi k0 cur cmd strs [cstr_of ''rm'', ?p] ks out (k1\<lparr>heap := a, hmem := m\<rparr>)"
    using line_to_command [OF s _ n z' ws refl hi card] by auto
  let ?k = "k1\<lparr>heap := a, hmem := m\<rparr>" let ?off = "d_contents (strs ! 1) - bottom (heap ?k)"
  have ch: "command_heap L ?hi cur cmd strs [cstr_of ''rm'', ?p] (heap ?k) (hmem ?k)" using 1(4) by (simp add: command_def)
  have rd: "redirect_loop cmd 0 ?k = Inr (STDOUT, ?k)" using redirect_none [OF ch, of 0] vc(4) by simp
  have match: "MATCH ?k cmd 0 v = Inr (cstr_of ''rm'' = cstr_of v)" if "0 \<notin> set (cstr_of v)" for v using MATCH_ok [OF ch, of 0 v] that by simp
  have "word_at ?k cmd 1 = Inr ?off" using word_at_ok(1) [OF ch, of 1] by simp
  then have rc: "run_command w x STDOUT cmd ?k = with_code (unlink w ?k (hmem ?k) ?off)" using match by (simp add: run_command_def exec_rm_def cstr_of_def)
  have "end_of_line w x s = obind (unlink w ?k (hmem ?k) ?off) (\<lambda>(code, k2).
      obind (after_command w STDOUT code cmd k2) (\<lambda>k3. Inr (Inl (s\<lparr>curr_command := cur\<lparr>d_len := 0\<rparr>, sh_kernel := k3\<rparr>))))"
    using 1(1-3) rd rc len by (simp add: end_of_line_def STDOUT_def with_code_def obind_assoc split_def)
  then show ?thesis using 1(4) by blast
qed

lemma end_of_line_removes:
  assumes s: "session L base n k0 (cstr_of ''rm'' @ 32 # 47 # join_path cs @ nm) ks (prompt @ out) s"
    and ok: "tree_ok k0 dirs" "removable k0 dirs cs nm d f" and w: "\<forall>n. length (junk (env w) n) = n"
    and path: "32 \<notin> set (join_path cs @ nm)" "34 \<notin> set (join_path cs @ nm)" and n: "length (cstr_of ''rm'' @ 32 # 47 # join_path cs @ nm) < n"
    and room: "base + 22 * n + 120 \<le> length (hmem (sh_kernel s))"
  shows "if spare_byte w (47 # join_path cs @ nm)
    then \<exists>s'. end_of_line w x s = Inr (Inl s') \<and> removed k0 (dirs d) d f (sh_kernel s') \<and> console (sh_kernel s') out \<and>
      ring_abs (kbd (sh_kernel s')) = ks \<and> d_len (curr_command s') = 0
    else end_of_line w x s = Inl Out_of_bounds"
proof -
  have z: "0 \<notin> set (join_path cs @ nm)" using ok(2) join_path_chars [of cs] by (auto simp: removable_def comp_ok_def name_ok_def)
  obtain hi cur cmd strs k where 1: "command L hi k0 cur cmd strs [cstr_of ''rm'', 47 # join_path cs @ nm] ks (prompt @ out) k"
      "end_of_line w x s = obind (unlink w k (hmem k) (d_contents (strs ! 1) - bottom (heap k))) (\<lambda>(code, k2).
        obind (after_command w STDOUT code cmd k2) (\<lambda>k3. Inr (Inl (s\<lparr>curr_command := cur\<lparr>d_len := 0\<rparr>, sh_kernel := k3\<rparr>))))"
    using end_of_line_rm [OF s z path n room] by blast
  show ?thesis
  proof (cases "spare_byte w (47 # join_path cs @ nm)")
    case True
    obtain k2 k3 where 2: "unlink w k (hmem k) (d_contents (strs ! 1) - bottom (heap k)) = Inr (0, k2)" "after_command w STDOUT 0 cmd k2 = Inr k3"
        "removed k0 (dirs d) d f k3" "console k3 out" "kbd k3 = kbd k"
      using command_removes [OF 1(1) ok w True] by blast
    have "ring_abs (kbd k) = ks" using 1(1) by (simp add: command_def)
    then show ?thesis using True 1(2) 2 by simp
  next
    case False
    have "command_heap L hi cur cmd strs [cstr_of ''rm'', 47 # join_path cs @ nm] (heap k) (hmem k)" using 1(1) by (simp add: command_def)
    from word_at_ok(2) [OF this, of 1] have "cstr_at (hmem k) (d_contents (strs ! 1) - bottom (heap k)) (47 # join_path cs @ nm)" by simp
    from unlink_overruns_path_buffer [OF this, of w k] show ?thesis using False w 1(2) by (simp add: spare_byte_def not_less)
  qed
qed

section \<open>Making and deleting\<close>

text \<open>The tree of a kernel is determined on the directories only.\<close>

lemma tree_ok_dirs_cong:
  assumes "\<forall>j \<in> directories k. dirs' j = dirs j"
  shows "tree_ok k dirs' = tree_ok k dirs"
  using assms by (simp add: tree_ok_def names_ok_def cong: ball_cong)

lemma remove_ino_last: "n \<notin> snd ` set es \<Longrightarrow> remove_ino n (es @ [(nm, n)]) = es"
  by (induction es) auto

text \<open>What \<open>rm\<close> of a node just made gives back: the tree, the maps, the inodes and the blocks of all other nodes.\<close>

definition restored :: "kernel \<Rightarrow> (nat \<Rightarrow> dir_entries) \<Rightarrow> kernel \<Rightarrow> bool" where
  "restored k dirs k' \<longleftrightarrow> tree_ok k' dirs \<and> bm_used (global_ibmap k') = bm_used (global_ibmap k) \<and> bm_used (global_dbmap k') = bm_used (global_dbmap k) \<and>
     (\<forall>j \<in> bm_used (global_ibmap k). global_inode_table k' ! j = global_inode_table k ! j) \<and>
     (\<forall>j \<in> with_block k - directories k. read_block k' (block_of k j) = read_block k (block_of k j)) \<and>
     (\<forall>cs j. leads_to k' dirs cs j = leads_to k dirs cs j)"

lemma created_removed_restored:
  assumes ok: "tree_ok k dirs" and new: "creatable k dirs cs nm d i b" and cr: "created k (dirs d) nm ft d i b k1" and ft: "ft \<noteq> 2"
    and rm: "removed k1 (add_node dirs d nm i d) d i k'"
  shows "restored k dirs k'"
proof -
  have m: "maps_ok k" "blocks_ok k" and dir: "dir_of k d (dirs d)" using ok new by (simp_all add: tree_ok_def creatable_def)
  have n: "i \<notin> bm_used (global_ibmap k)" "b \<notin> bm_used (global_dbmap k)" "d \<in> directories k" "i < 426"
    using new by (simp_all add: creatable_def least_free_def)
  have len: "length (global_inode_table k) = 426" "d < 426" using m(1) dir by (simp_all add: maps_ok_def dir_of_def)
  note node = created_inodes [OF cr, unfolded len(1), OF n(4) len(2)]
  have id: "i \<noteq> d" and es: "add_node dirs d nm i d = dirs d @ [(nm, i)]" using cr by (simp_all add: created_def add_node_def)
  have U: "bm_used (global_ibmap k') = bm_used (global_ibmap k)" "bm_used (global_dbmap k') = bm_used (global_dbmap k)"
    using cr rm n(1,2) ft node(2) by (simp_all add: created_def removed_def)
  have size: "i_size (global_inode_table k ! d) = 36 * length (dirs d)" using dir by (simp add: dir_of_def)
  have tab: "global_inode_table k' ! j = global_inode_table k ! j" if "j \<noteq> i" for j
    using that cr rm size len id unfolding es by (cases "j = d") (simp_all add: created_def removed_def)
  have T: "\<forall>j \<in> bm_used (global_ibmap k). global_inode_table k' ! j = global_inode_table k ! j" using tab n(1) by metis
  then have D: "directories k' = directories k" using U(1) by (auto simp: directories_def type_of_def)
  have "names_ok (directories k) (bm_used (global_ibmap k)) dirs" using ok by (simp add: tree_ok_def)
  then have "i \<notin> snd ` set (dirs d)" using n(1,3) by (auto simp: names_ok_def)
  then have "del_node (add_node dirs d nm i) d i = dirs(i := [])" using id by (auto simp: del_node_def add_node_def remove_ino_last fun_eq_iff)
  moreover have "tree_ok k' (del_node (add_node dirs d nm i) d i)"
    using removed_tree_ok [OF created_in_tree(1) [OF ok new cr] _ id [symmetric] _ _ rm] node(1) node(4) [of d] cr n(3) id ft
    by (auto simp: directories_def created_def es)
  moreover have "i \<notin> directories k'" using D n(1) by (auto simp: directories_def)
  ultimately have "tree_ok k' dirs" using tree_ok_dirs_cong [of k' "dirs(i := [])" dirs] by auto
  moreover have "read_block k' (block_of k j) = read_block k (block_of k j)" if j: "j \<in> with_block k - directories k" for j
  proof -
    have "j \<noteq> d" "d \<in> with_block k" using j n(3) directories_with_block by auto
    then have "disk_block (block_of k j) \<noteq> disk_block (block_of k d)" using distinct_blocks [OF m] j by blast
    then show ?thesis using cr rm node(5) [of d] id by (simp add: read_block_def created_def removed_def block_of_def)
  qed
  ultimately show ?thesis using U T D by (simp add: restored_def leads_to_def)
qed

lemma created_removable:
  assumes ok: "tree_ok k dirs" "creatable k dirs cs nm d i b" "length (dirs d) < 112" and cr: "created k (dirs d) nm ft d i b k'" and ft: "ft \<noteq> 2"
  shows "removable k' (add_node dirs d nm i) cs nm d i"
proof -
  have n: "leads_to k dirs cs d" "d \<in> directories k" "map_of (dirs d) nm = None" "i < 426" "(\<forall>x \<in> set cs. comp_ok x) \<and> comp_ok nm" using ok(2) by (simp_all add: creatable_def)
  have len: "length (global_inode_table k) = 426" "d < 426" using ok(1) n(2) by (auto simp: tree_ok_def maps_ok_def directories_def)
  note node = created_inodes [OF cr, unfolded len(1), OF n(4) len(2)]
  have id: "i \<noteq> d" using cr by (simp add: created_def)
  have "d \<in> directories k'" using n(2) node(4) [of d] cr id by (simp add: directories_def created_def)
  then show ?thesis using created_in_tree(3) [OF ok(1,2) cr] created_in_tree(4) [OF ok(1,2) cr n(1)] n(3,5) ft id ok(3)
    by (simp add: removable_def add_node_def map_add_def)
qed

section \<open>Properties\<close>

text \<open>C7: What \<open>touch\<close> or \<open>mkdir\<close> makes, \<open>rm\<close> unmakes, if its array for the path holds. When the lines \<open>touch p\<close> (or \<open>mkdir p\<close>) and \<open>rm p\<close> are typed, with any corrections, for the path
  of a new name in an existing directory, there are two outcomes. With exactly the \<open>strlen(path)\<close> bytes that the array of \<open>unlink\<close> is declared with, the second line writes past the array.
  Where more memory has been set aside for the array, the rounds up to the end of the second line leave a disk that represents the tree of before: the same
  inodes and blocks are in use, the inodes and the contents of all other files are the same, the same paths lead to the same nodes, and the terminal and the keyboard's buffer are ready
  for the next line.\<close>

theorem shell_removes_what_it_created:
  assumes ok: "tree_ok k0 dirs" "creatable k0 dirs cs nm d i b" "length (dirs d) < 112"
    and s: "session L base n k0 [] (tp @ 10 # tq @ 10 # ks) (echo [] tp @ [10] @ prompt @ echo [] tq @ [10] @ prompt @ out) s"
    and v: "verb = ''touch'' \<and> ft = FILE_TYPE_NORMAL \<or> verb = ''mkdir'' \<and> ft = FILE_TYPE_DIR"
    and line: "foldl edit [] tp = cstr_of verb @ 32 # 47 # join_path cs @ nm" "10 \<notin> set tp" "length tp < n"
    and line2: "foldl edit [] tq = cstr_of ''rm'' @ 32 # 47 # join_path cs @ nm" "10 \<notin> set tq" "length tq < n"
    and path: "32 \<notin> set (join_path cs @ nm)" "34 \<notin> set (join_path cs @ nm)"
    and room: "base + 42 * n + 228 \<le> length (hmem (sh_kernel s))" "card (dom L) < 239" and w: "\<forall>n. length (junk (env w) n) = n"
  shows "if spare_byte w (47 # join_path cs @ nm)
    then \<exists>s'. rounds w x (length tp + 1 + (length tq + 1)) s = Inr (Inl s') \<and> restored k0 dirs (sh_kernel s') \<and>
      console (sh_kernel s') out \<and> d_len (curr_command s') = 0 \<and> ring_abs (kbd (sh_kernel s')) = ks
    else rounds w x (length tp + 1 + (length tq + 1)) s = Inl Out_of_bounds"
proof -
  let ?out = "echo [] tq @ [10] @ prompt @ out" and ?base = "base + 20 * n + 108"
  have j: "length (junk (env w) 1) = 1" using w by simp
  have n: "length (cstr_of verb @ 32 # 47 # join_path cs @ nm) < n" "length (cstr_of ''rm'' @ 32 # 47 # join_path cs @ nm) < n"
    using length_foldl_edit [of "[]" tp] length_foldl_edit [of "[]" tq] line(1,3) line2(1,3) by simp_all
  obtain s1 where s1: "rounds w x (length tp + 1) s = end_of_line w x s1" "session L base n k0 (foldl edit [] tp) (tq @ 10 # ks) (prompt @ ?out) s1"
    using line_typed [OF s j line(2)] line(3) by auto
  have r1: "length (hmem (sh_kernel s1)) = length (hmem (sh_kernel s))" using s s1(2) by (simp add: session_def same_fs_def)
  have room1: "base + 22 * n + 120 \<le> length (hmem (sh_kernel s1))" using room(1) r1 by simp
  obtain s2 L' where s2: "end_of_line w x s1 = Inr (Inl s2)" "created k0 (dirs d) nm ft d i b (sh_kernel s2)" "length (hmem (sh_kernel s2)) = length (hmem (sh_kernel s))"
      "session L' ?base n (sh_kernel s2) [] (tq @ 10 # ks) ?out s2"
    using end_of_line_creates [OF s1(2) [unfolded line(1)] ok(1,2) v path n(1) room1, of w x] room r1 by auto
  note tr = created_in_tree [OF ok(1,2) s2(2)]
  have ft: "ft \<noteq> 2" using v by (auto simp: FILE_TYPE_NORMAL_def FILE_TYPE_DIR_def)
  have rm: "removable (sh_kernel s2) (add_node dirs d nm i) cs nm d i" using created_removable [OF ok s2(2) ft] .
  obtain s3 where s3: "rounds w x (length tq + 1) s2 = end_of_line w x s3" "session L' ?base n (sh_kernel s2) (foldl edit [] tq) ks (prompt @ out) s3"
    using line_typed [OF s2(4) j line2(2)] line2(3) by auto
  have room3: "?base + 22 * n + 120 \<le> length (hmem (sh_kernel s3))" using room(1) s2(3) s3(2) by (simp add: session_def same_fs_def)
  note e = end_of_line_removes [OF s3(2) [unfolded line2(1)] tr(1) rm w path n(2) room3, of x]
  have run: "rounds w x (length tp + 1 + (length tq + 1)) s = end_of_line w x s3" unfolding rounds_add [of _ _ "length tp + 1"] s1(1) s2(1) using s3(1) by simp
  show ?thesis
  proof (cases "spare_byte w (47 # join_path cs @ nm)")
    case True
    then show ?thesis using e run created_removed_restored [OF ok(1,2) s2(2) ft] by auto
  qed (use e run in simp)
qed

theorem shell_removes_what_it_created_witness:
  "\<exists>k s s'. ring_abs (kbd (sh_kernel s)) = cstr_of ''touch /a'' @ 10 # cstr_of ''rm /a'' @ [10] \<and> rounds roomy_world sample_outside 15 s = Inr (Inl s') \<and>
     restored k tty_tree (sh_kernel s') \<and> rounds exact_world sample_outside 15 s = Inl Out_of_bounds"
proof -
  let ?tp = "cstr_of ''touch /a''" let ?tq = "cstr_of ''rm /a''" let ?out = "echo [] ?tp @ [10] @ prompt @ echo [] ?tq @ [10] @ prompt"
  obtain L k s where k: "tree_ok k tty_tree" "creatable k tty_tree [] [97] 0 2 9" and s: "session L 5 10 k [] (?tp @ 10 # ?tq @ [10]) ?out s" "length (hmem (sh_kernel s)) = 4096" "card (dom L) < 239"
    by (rule sample_session [of "?tp @ 10 # ?tq @ [10]" ?out 10]) (simp_all add: cstr_of_def edit_def line_count_def prompt_def)
  have l: "foldl edit [] ?tp = cstr_of ''touch'' @ 32 # 47 # join_path [] @ [97]" "10 \<notin> set ?tp" "length ?tp < 10"
      "foldl edit [] ?tq = cstr_of ''rm'' @ 32 # 47 # join_path [] @ [97]" "10 \<notin> set ?tq" "length ?tq < 10"
    by (simp_all add: cstr_of_def edit_def join_path_def)
  have j: "32 \<notin> set (join_path [] @ [97])" "34 \<notin> set (join_path [] @ [97])" "length (tty_tree 0) < 112" by (simp_all add: join_path_def tty_tree_def add_node_def)
  have w: "\<forall>n. length (junk (env roomy_world) n) = n" "spare_byte roomy_world (47 # join_path [] @ [97])" "\<forall>n. length (junk (env exact_world) n) = n" "\<not> spare_byte exact_world (47 # join_path [] @ [97])"
    by (simp_all add: spare_byte_def roomy_world_def exact_world_def)
  have s0: "session L 5 10 k [] (?tp @ 10 # ?tq @ 10 # []) (echo [] ?tp @ [10] @ prompt @ echo [] ?tq @ [10] @ prompt @ []) s" using s(1) by simp
  have n15: "length ?tp + 1 + (length ?tq + 1) = 15" by (simp add: cstr_of_def)
  have room: "5 + 42 * 10 + 228 \<le> length (hmem (sh_kernel s))" using s(2) by simp
  have "\<exists>s'. rounds roomy_world sample_outside 15 s = Inr (Inl s') \<and> restored k tty_tree (sh_kernel s')"
    using shell_removes_what_it_created [OF k j(3) s0 _ l j(1,2) room s(3) w(1), of FILE_TYPE_NORMAL sample_outside] w(2) unfolding n15 by auto
  moreover have "rounds exact_world sample_outside 15 s = Inl Out_of_bounds"
    using shell_removes_what_it_created [OF k j(3) s0 _ l j(1,2) room s(3) w(3), of FILE_TYPE_NORMAL sample_outside] w(4) unfolding n15 by auto
  ultimately show ?thesis using s(1) by (auto simp: session_def)
qed

end
