(* ===== verification/Boot.thy ===== *)
theory Boot
  imports Shell_Run Fs_Mount Interrupts Paging
begin

text \<open>
  \<open>main\<close> and the handler of the system call (\<open>src/src/kernel.c\<close>): the components put together, from the tables the boot code leaves to
  the shutdown.

  The states are the page tables, the interrupt tables and the kernel; the port accesses and the keyboard's buffer are in both of the latter, and
  \<open>main\<close> hands them over when it installs the interrupts. What a read of address 0 gives follows from the page tables. Key interrupts are served from
  the shell on: before, interrupts are disabled.
\<close>

section \<open>Definitions\<close>

text \<open>The page at address 0, if there is one.\<close>

definition page_zero :: "mmu \<Rightarrow> u8 list option" where
  "page_zero m = map_option (\<lambda>f. words_bytes (map (frames m f) [0 ..< PAGE_ENTRIES])) (walk m False 0)"

definition syscall_handler :: "environ \<Rightarrow> mmu \<Rightarrow> u32 \<Rightarrow> Registers \<Rightarrow> vga \<times> trace \<Rightarrow> (vga \<times> trace) res" where
  "syscall_handler e m arguments r s =
     obind (vread m arguments) (\<lambda>val.
     obind (kprintf e (lit ''Value: 0x%x\<newline>'') [Va_word val] s) (\<lambda>s1.
       kprintf e (lit ''call id: 0x%x\<newline>'') [Va_word (err_code r)] s1))"

definition main :: "linker \<Rightarrow> world \<Rightarrow> outside \<Rightarrow> mmu \<times> machine \<times> kernel \<Rightarrow> (mmu \<times> machine \<times> kernel) res" where
  "main ln w x = (\<lambda>(m, mc, k).
     obind (initialize_allocator m (heap k)) (\<lambda>(m1, kernel_allocator).
     obind (initialize_terminal (terminal_buffer (fst (screen k)))) (\<lambda>v.
     let w1 = w\<lparr>null_page := page_zero m1\<rparr> in
     obind (initalize_file_system w1 (k\<lparr>heap := kernel_allocator, screen := (v, snd (screen k))\<rparr>) False) (\<lambda>(_, k1).
     obind (install_interrupts ln (mc\<lparr>keyboard_input_buffer := kbd k1, ports := snd (screen k1)\<rparr>)) (\<lambda>mc1.
     obind (shell w1 x (shift_pressed mc1) (k1\<lparr>kbd := keyboard_input_buffer mc1, screen := (fst (screen k1), ports mc1)\<rparr>)) (\<lambda>(_, k2).
     obind (shutdown w1 k2) (\<lambda>k3. Inr (m1, mc1, k3))))))))"

section \<open>The keyboard\<close>

lemma serve_keys_fill:
  assumes "ring_inv (kbd (sh_kernel s))" and "length (ring_abs (kbd (sh_kernel s))) + length (typed (sh_shift s) scs) \<le> 63"
  shows "\<exists>sh rb. serve_keys scs s = Inr (s\<lparr>sh_shift := sh, sh_kernel := (sh_kernel s)\<lparr>kbd := rb\<rparr>\<rparr>) \<and> ring_inv rb \<and>
    ring_abs rb = ring_abs (kbd (sh_kernel s)) @ typed (sh_shift s) scs"
  using assms
proof (induction scs arbitrary: s)
  case Nil
  then show ?case by (auto intro!: exI [of _ "sh_shift s"] exI [of _ "kbd (sh_kernel s)"])
next
  case (Cons sc scs)
  let ?rb = "kbd (sh_kernel s)"
  obtain sh c where d: "decode (sh_shift s) sc = (sh, c)" by fastforce
  have "\<exists>rb. keyboard_key (sh_shift s) ?rb sc = Inr (sh, rb) \<and> ring_inv rb \<and> ring_abs rb @ typed sh scs = ring_abs ?rb @ typed (sh_shift s) (sc # scs)"
  proof (cases c)
    case None
    then show ?thesis using Cons.prems(1) d by (simp add: keyboard_key_decode)
  next
    case (Some ch)
    then have "ring_size ?rb < 63" using Cons.prems(2) d by simp
    from ring_put_room [OF Cons.prems(1) this, of ch] show ?thesis using Some d by (auto simp: keyboard_key_decode)
  qed
  then obtain rb where rb: "keyboard_key (sh_shift s) ?rb sc = Inr (sh, rb)" "ring_inv rb" "ring_abs rb @ typed sh scs = ring_abs ?rb @ typed (sh_shift s) (sc # scs)" by blast
  let ?s = "s\<lparr>sh_shift := sh, sh_kernel := (sh_kernel s)\<lparr>kbd := rb\<rparr>\<rparr>"
  have "length (ring_abs rb @ typed sh scs) \<le> 63" unfolding rb(3) using Cons.prems(2) by simp
  then show ?case using Cons.IH [of ?s] rb(1,2) unfolding rb(3) [symmetric] by auto
qed

lemma session_served:
  assumes "session L base n k0 [] [] out s" and "length (typed (sh_shift s) scs) \<le> 63"
  shows "\<exists>s'. serve_keys scs s = Inr s' \<and> session L base n k0 [] (typed (sh_shift s) scs) out s' \<and> sh_kernel s' = (sh_kernel s)\<lparr>kbd := kbd (sh_kernel s')\<rparr> \<and> working_dir s' = working_dir s"
proof -
  have r: "ring_inv (kbd (sh_kernel s))" "ring_abs (kbd (sh_kernel s)) = []" using assms(1) by (simp_all add: session_def)
  obtain sh rb where "serve_keys scs s = Inr (s\<lparr>sh_shift := sh, sh_kernel := (sh_kernel s)\<lparr>kbd := rb\<rparr>\<rparr>)" "ring_inv rb" "ring_abs rb = typed (sh_shift s) scs"
    using serve_keys_fill [OF r(1), of scs] r(2) assms(2) by auto
  moreover have "session L base n k0 [] (ring_abs rb) out (s\<lparr>sh_shift := sh, sh_kernel := (sh_kernel s)\<lparr>kbd := rb\<rparr>\<rparr>)" if "ring_inv rb"
    using assms(1) that same_fs_step(1) by (simp add: session_def)
  ultimately show ?thesis by (intro exI [of _ "s\<lparr>sh_shift := sh, sh_kernel := (sh_kernel s)\<lparr>kbd := rb\<rparr>\<rparr>"]) simp
qed

lemma served_then_rounds:
  assumes "serve_keys (key_events x 0) s = Inr s'" and "rounds w x n s' = Inr (Inr k)" and "\<forall>j \<ge> 1. key_events x j = []"
  shows "loop_res (shell_step w x) (0, s) = Inr k"
proof (cases n)
  case (Suc n')
  obtain r where r: "shell_round w x s' = Inr r" using assms(2) Suc by auto
  show ?thesis
  proof (cases r)
    case (Inl s1)
    have "loop_res (shell_step w x) (1, s1) = Inr k" by (rule rounds_return [of _ _ n']) (use assms(2,3) Suc r Inl in simp_all)
    then show ?thesis using r Inl assms(1) by (simp add: loop_res_unfold [of _ "(0, s)"] shell_step_def)
  qed (use assms(1,2) Suc r in \<open>simp add: loop_res_unfold [of _ "(0, s)"] shell_step_def\<close>)
qed (use assms(2) in simp)

section \<open>A session with one command\<close>

text \<open>A line that creates a node, then \<open>exit\<close>: what the shell is given at its start and what it leaves.\<close>

definition creating_keys :: "string \<Rightarrow> u8 \<Rightarrow> u8 list list \<Rightarrow> u8 list \<Rightarrow> u8 list \<Rightarrow> u8 list \<Rightarrow> nat \<Rightarrow> bool" where
  "creating_keys verb ft cs nm tp tq n \<longleftrightarrow> (verb = ''touch'' \<and> ft = FILE_TYPE_NORMAL \<or> verb = ''mkdir'' \<and> ft = FILE_TYPE_DIR) \<and>
     foldl edit [] tp = cstr_of verb @ 32 # 47 # join_path cs @ nm \<and> 10 \<notin> set tp \<and> 32 \<notin> set (join_path cs @ nm) \<and> 34 \<notin> set (join_path cs @ nm) \<and>
     foldl edit [] tq = cstr_of ''exit'' \<and> 10 \<notin> set tq \<and> length tp + length tq \<le> 61 \<and> n = length tp + length tq"

definition shown :: "u8 list \<Rightarrow> u8 list \<Rightarrow> u8 list" where
  "shown tp tq = echo [] tp @ [10] @ prompt @ echo [] tq @ [10]"

lemma shell_creates_exits:
  assumes c: "console k (cstr_of ''$ '' @ shown tp tq)" and ring: "ring_inv (kbd k)" "ring_abs (kbd k) = []"
    and keys: "typed sh (key_events x 0) = tp @ [10] @ tq @ [10]" "\<forall>j \<ge> 1. key_events x j = []" and t: "creating_keys verb ft cs nm tp tq n"
    and ok: "tree_ok k dirs" "creatable k dirs cs nm d i b"
    and h: "heap_ready (heap k) 0" "heap_live (heap k) = (\<lambda>_. None)" "length (hmem k) = 4096" and j: "length (junk (env w) 1) = 1"
  shows "\<exists>k'. shell w x sh k = Inr (0, k') \<and> created k (dirs d) nm ft d i b k' \<and> same_layout k k' \<and> fd_bitmap k' = fd_bitmap k \<and> fd_entries k' = fd_entries k \<and> console k' []"
proof -
  have e: "foldl edit [] tp = cstr_of verb @ 32 # 47 # join_path cs @ nm" "10 \<notin> set tp" "foldl edit [] tq = cstr_of ''exit''" "10 \<notin> set tq" "length tp + length tq \<le> 61"
      "n = length tp + length tq" "32 \<notin> set (join_path cs @ nm)" "34 \<notin> set (join_path cs @ nm)" "verb = ''touch'' \<and> ft = FILE_TYPE_NORMAL \<or> verb = ''mkdir'' \<and> ft = FILE_TYPE_DIR"
    using t by (simp_all add: creating_keys_def)
  have "length (foldl edit [] tp) \<le> length tp" "length (foldl edit [] tq) \<le> length tq" using length_foldl_edit [of "[]" tp] length_foldl_edit [of "[]" tq] by simp_all
  then have lens: "4 \<le> length tq" "length (cstr_of verb @ 32 # 47 # join_path cs @ nm) < n" "length tp \<le> n" "length tq \<le> n" "4 < n" "n \<le> 61"
    using e by (auto simp: cstr_of_def)
  have hn: "0 + 5 + 10 * n \<le> length (hmem k)" "length (hmem k) \<le> 8192" "card (dom (heap_live (heap k))) < 239" using h lens by simp_all
  obtain wd k1 k2 where st: "APPEND_char 47 no_dyn k = Inr (wd, k1)" "write_lit w STDOUT ''$ '' 2 k1 = Inr k2"
      "session ((heap_live (heap k))(d_contents wd \<mapsto> 2)) 5 n k [] [] (shown tp tq) \<lparr>curr_command = no_dyn, working_dir = wd, sh_shift = sh, sh_kernel = k2\<rparr>" "length (hmem k2) = 4096"
    using shell_starts [OF c ring(1) h(1) hn, of w sh] ring(2) h(3) by auto
  let ?s = "\<lparr>curr_command = no_dyn, working_dir = wd, sh_shift = sh, sh_kernel = k2\<rparr>" and ?L = "(heap_live (heap k))(d_contents wd \<mapsto> 2)"
  have L: "card (dom ?L) < 239" using h(2) by simp
  obtain s1 where s1: "serve_keys (key_events x 0) ?s = Inr s1" "session ?L 5 n k [] (tp @ 10 # tq @ [10]) (echo [] tp @ [10] @ prompt @ echo [] tq @ [10]) s1" "length (hmem (sh_kernel s1)) = 4096"
  proof -
    have "length (typed (sh_shift ?s) (key_events x 0)) \<le> 63" using keys(1) e(5) by simp
    from session_served [OF st(3) this] obtain s' where s': "serve_keys (key_events x 0) ?s = Inr s'" "session ?L 5 n k [] (typed sh (key_events x 0)) (shown tp tq) s'"
        "sh_kernel s' = k2\<lparr>kbd := kbd (sh_kernel s')\<rparr>" by auto
    have "hmem (sh_kernel s') = hmem k2" by (subst s'(3)) simp
    then show thesis using that [OF s'(1)] s'(2) st(4) keys(1) by (simp add: shown_def)
  qed
  obtain s2 where s2: "rounds w x (length tp + 1) s1 = end_of_line w x s2" "session ?L 5 n k (cstr_of verb @ 32 # 47 # join_path cs @ nm) (tq @ [10]) (prompt @ echo [] tq @ [10]) s2"
    using line_typed [OF s1(2) j e(2) lens(3)] e(1) by auto
  have lm2: "length (hmem (sh_kernel s2)) = 4096" using s2(2) h(3) by (simp add: session_def same_fs_def)
  have room: "5 + 22 * n + 120 \<le> length (hmem (sh_kernel s2))" "5 + 30 * n + 108 \<le> length (hmem (sh_kernel s2))" using lm2 lens(6) by simp_all
  obtain s3 L' where s3: "end_of_line w x s2 = Inr (Inl s3)" "created k (dirs d) nm ft d i b (sh_kernel s3)" "fd_entries (sh_kernel s3) = fd_entries k" "fd_bitmap (sh_kernel s3) = fd_bitmap k"
      "same_layout k (sh_kernel s3)" "session L' (5 + 20 * n + 108) n (sh_kernel s3) [] (tq @ 10 # []) (echo [] tq @ [10] @ []) s3"
    using end_of_line_creates [OF s2(2) ok e(9,7,8) lens(2) room(1), of w x] room(2) L by auto
  obtain s4 where s4: "rounds w x (length tq + 1) s3 = end_of_line w x s4" "session L' (5 + 20 * n + 108) n (sh_kernel s3) (cstr_of ''exit'') [] [] s4"
    using line_typed [OF s3(6) j e(4) lens(4)] e(3) by auto
  have lm3: "length (hmem (sh_kernel s4)) = 4096" using s4(2) s3(6) lm2 end_of_line_creates [OF s2(2) ok e(9,7,8) lens(2) room(1), of w x] s3(1) by (auto simp: session_def same_fs_def)
  have room4: "5 + 20 * n + 108 + 22 * n + 120 \<le> length (hmem (sh_kernel s4))" using lm3 lens(6) by simp
  obtain k' where k': "end_of_line w x s4 = Inr (Inr k')" "same_fs (sh_kernel s3) k'" "console k' []"
    using end_of_line_exits [OF s4(2) lens(5) room4] by blast
  have "rounds w x (length tp + 1 + (length tq + 1)) s1 = Inr (Inr k')" unfolding rounds_add [of w x "length tp + 1"] s2(1) s3(1) using s4(1) k'(1) by simp
  then have "loop_res (shell_step w x) (0, ?s) = Inr k'" by (rule served_then_rounds [OF s1(1) _ keys(2)])
  then have "shell w x sh k = Inr (0, k')" using st(1,2) by (simp add: shell_def)
  moreover have "created k (dirs d) nm ft d i b k'" using created_cong [OF s3(2)] k'(2) by (simp add: same_fs_def)
  moreover have "same_layout k k'" using s3(5) k'(2) by (simp add: same_layout_def same_fs_def)
  ultimately show ?thesis using s3(3,4) k'(2,3) by (intro exI [of _ k']) (simp add: same_fs_def)
qed

section \<open>The disk between two sessions\<close>

text \<open>The metadata and the tree of a kernel that may be shut down: the data blocks are behind the metadata.\<close>

definition sound :: "kernel \<Rightarrow> (nat \<Rightarrow> dir_entries) \<Rightarrow> bool" where
  "sound k dirs \<longleftrightarrow> metadata_ok k \<and> tree_ok k dirs \<and> {..< 8} \<subseteq> bm_used (global_dbmap k) \<and> (\<forall>i \<in> with_block k. 8 \<le> block_of k i)"

definition is_tty :: "kernel \<Rightarrow> nat \<Rightarrow> bool" where
  "is_tty k t \<longleftrightarrow> type_of k t = 2 \<and> cstr_at (i_name (global_inode_table k ! t)) 0 (cstr_of ''tty'')"

text \<open>The disk \<open>dk\<close> is what shutting down the kernel \<open>k\<close> leaves; its tree is \<open>dirs\<close>, and the special files are in it.\<close>

definition stored :: "world \<Rightarrow> kernel \<Rightarrow> (nat \<Rightarrow> dir_entries) \<Rightarrow> (nat \<Rightarrow> u8 list) \<Rightarrow> bool" where
  "stored w k dirs dk \<longleftrightarrow> world_ok w \<and> sound k dirs \<and> (\<exists>dev t0 t1. special_files k dirs dev t0 t1 \<and> is_tty k t0) \<and> dk = disk (sync_metadata w k)"

lemma created_metadata_ok:
  assumes ok: "metadata_ok k" and lay: "same_layout k k'" and cr: "created k es nm ft d i b k'" and l: "length es < 113" "length nm < 32" "b < 4294967296" "d < 426"
  shows "metadata_ok k'"
proof -
  let ?s = "global_super k" and ?s' = "global_super k'"
  have e: "?s'\<lparr>used_inodes := 0\<rparr> = ?s\<lparr>used_inodes := 0\<rparr>" and u: "used_inodes ?s < 4294967296 \<longrightarrow> used_inodes ?s' < 4294967296" "table_tail k' = table_tail k"
    using lay by (simp_all add: same_layout_def)
  have f: "format_indicator ?s' = format_indicator ?s" "disk_size ?s' = disk_size ?s" "sector_count ?s' = sector_count ?s" "block_count ?s' = block_count ?s"
      "i_bmap_start ?s' = i_bmap_start ?s" "d_bmap_start ?s' = d_bmap_start ?s" "inode_table_start ?s' = inode_table_start ?s" "data_start ?s' = data_start ?s"
    using arg_cong [OF e, of format_indicator] arg_cong [OF e, of disk_size] arg_cong [OF e, of sector_count] arg_cong [OF e, of block_count]
      arg_cong [OF e, of i_bmap_start] arg_cong [OF e, of d_bmap_start] arg_cong [OF e, of inode_table_start] arg_cong [OF e, of data_start] by simp_all
  let ?new = "new_inode nm ft b d" and ?dir = "(global_inode_table k ! d)\<lparr>i_size := 36 * Suc (length es)\<rparr>"
  have tab: "global_inode_table k' = (global_inode_table k)[i := ?new, d := ?dir]" and len: "length (global_ibmap k') = length (global_ibmap k)" "length (global_dbmap k') = length (global_dbmap k)"
    using cr by (simp_all add: created_def)
  have m: "\<forall>ino \<in> set (global_inode_table k). inode_ok ino" "length (global_inode_table k) = 426" using ok by (simp_all add: metadata_ok_def)
  have "inode_ok ?new" "inode_ok ?dir" using l m nth_mem [of d "global_inode_table k"] by (simp_all add: inode_ok_def new_inode_def)
  then have "\<forall>ino \<in> set (global_inode_table k'). inode_ok ino"
    unfolding tab using m(1) by (auto dest!: set_update_subset_insert [THEN subsetD])
  then show ?thesis using ok f u len tab m(2) by (simp add: metadata_ok_def super_ok_def)
qed

lemma created_sound:
  assumes ok: "sound k dirs" and new: "creatable k dirs cs nm d i b" and cr: "created k (dirs d) nm ft d i b k'" and lay: "same_layout k k'"
  shows "sound k' (add_node dirs d nm i)"
proof -
  have s: "metadata_ok k" "tree_ok k dirs" "{..< 8} \<subseteq> bm_used (global_dbmap k)" "\<forall>j \<in> with_block k. 8 \<le> block_of k j" using ok by (simp_all add: sound_def)
  have n: "d \<in> directories k" "length (dirs d) < 113" "i < 426" "b \<notin> bm_used (global_dbmap k)" "b + 1 < 32 * length (global_dbmap k)" "length nm < 32"
    using new by (simp_all add: creatable_def least_free_def comp_ok_def name_ok_def)
  have d: "d < 426" "length (global_inode_table k) = 426" using n(1) s(1,2) by (auto simp: directories_def tree_ok_def maps_ok_def metadata_ok_def)
  have b: "b < 32768" using n(5) s(1) by (simp add: metadata_ok_def)
  have meta: "metadata_ok k'" by (rule created_metadata_ok [OF s(1) lay cr n(2,6)]) (use d b in simp_all)
  note I = created_inodes [OF cr, unfolded d(2), OF n(3) d(1)]
  have "8 \<le> b" using n(4) s(3) by (meson lessThan_iff not_le subsetD)
  then have "8 \<le> block_of k' j" if "j \<in> with_block k'" for j
    using that s(4) I cr by (cases "j = i") (auto simp: with_block_def created_def)
  moreover have "{..< 8} \<subseteq> bm_used (global_dbmap k')" using s(3) cr by (auto simp: created_def)
  ultimately show ?thesis using meta created_in_tree(1) [OF s(2) new cr] by (simp add: sound_def)
qed

lemma created_special_files:
  assumes ok: "tree_ok k dirs" and new: "creatable k dirs cs nm d i b" and cr: "created k (dirs d) nm ft d i b k'" and sp: "special_files k dirs dev t0 t1" "is_tty k t0"
  shows "special_files k' (add_node dirs d nm i) dev t0 t1" and "is_tty k' t0"
proof -
  have n: "d \<in> directories k" "i < 426" "i \<notin> bm_used (global_ibmap k)" using new by (simp_all add: creatable_def least_free_def)
  have d: "d < 426" "length (global_inode_table k) = 426" using n(1) ok by (auto simp: directories_def tree_ok_def maps_ok_def)
  note I = created_inodes [OF cr, unfolded d(2), OF n(2) d(1)]
  have s: "leads_to k dirs [cstr_of ''dev''] dev" "dev \<in> directories k" "map_of (dirs dev) (cstr_of ''tty'') = Some t0" "map_of (dirs dev) (cstr_of ''ttyS'') = Some t1"
    using sp(1) by (simp_all add: special_files_def)
  have ne: "dev \<noteq> i" using s(2) n(3) by (auto simp: directories_def)
  have "dev \<in> directories k'" using s(2) I(4) [OF ne] cr by (simp add: directories_def created_def)
  then show "special_files k' (add_node dirs d nm i) dev t0 t1"
    using s ne created_in_tree(4) [OF ok new cr s(1)] by (auto simp: special_files_def add_node_def map_add_def)
  have t: "t0 \<in> bm_used (global_ibmap k)" by (rule tree_entry_used(1) [OF ok s(2,3)])
  have "t0 \<noteq> i" using t n(3) by metis
  moreover have "t0 \<noteq> d" using sp(2) n(1) by (auto simp: is_tty_def directories_def)
  ultimately show "is_tty k' t0" using sp(2) I(4,6) by (simp add: is_tty_def)
qed

lemma sync_disk_lengths:
  assumes "metadata_ok k" and "world_ok w" and "\<forall>c. length (disk k c) = 4096"
  shows "\<forall>c. length (disk (sync_metadata w k) c) = 4096"
proof -
  have m: "length (super_bytes (global_super k) @ super_tail w) = 4096" "length (words_bytes (global_ibmap k)) = 4096" "length (words_bytes (global_dbmap k)) = 4096"
      "length (table_bytes (inode_pad w) (global_inode_table k) @ table_tail k) = 20480"
    using assms(1,2) table_roundtrip(2) [of "global_inode_table k" "inode_pad w"]
    by (simp_all add: metadata_ok_def world_ok_def super_ok_def super_bytes_def length_words_bytes)
  show ?thesis
    unfolding sync_metadata_def Let_def SUPER_SIZE_def INODE_BITMAP_SIZE_def DATA_BITMAP_SIZE_def INODE_TABLE_SIZE_def
    by (intro disk_lengths) (use assms(3) m in simp_all)
qed

section \<open>Booting\<close>

text \<open>The disk of a shutdown gives the tree back.\<close>

lemma tree_ok_blocks:
  assumes ok: "tree_ok k dirs" and same: "global_inode_table k' = global_inode_table k" "global_ibmap k' = global_ibmap k" "global_dbmap k' = global_dbmap k"
    and disk: "\<forall>c. length (disk k' c) = 4096" "\<forall>i \<in> with_block k. read_block k' (block_of k i) = read_block k (block_of k i)"
  shows "tree_ok k' dirs"
proof -
  have eq: "directories k' = directories k" "with_block k' = with_block k" "blocks_ok k' = blocks_ok k"
    using same by (simp_all add: directories_def with_block_def type_of_def blocks_ok_def block_of_def inj_on_def)
  have "dir_of k' i (dirs i)" if i: "i \<in> directories k" for i
  proof -
    have "dir_of k i (dirs i)" "i \<in> with_block k" using ok i directories_with_block by (auto simp: tree_ok_def)
    then show ?thesis using same(1) disk(2) by (simp add: dir_of_def block_of_def)
  qed
  then show ?thesis using ok same disk(1) unfolding tree_ok_def eq by (simp add: maps_ok_def)
qed

lemma stored_tree:
  assumes st: "stored w k dirs dk" and same: "global_inode_table k' = global_inode_table k" "global_ibmap k' = global_ibmap k" "global_dbmap k' = global_dbmap k" "disk k' = dk"
  shows "tree_ok k' dirs"
proof -
  have s: "metadata_ok k" "world_ok w" "tree_ok k dirs" "\<forall>i \<in> with_block k. 8 \<le> block_of k i" "disk k' = disk (sync_metadata w k)"
    using st same(4) by (simp_all add: stored_def sound_def)
  have b: "8 \<le> block_of k i" "block_of k i < 33554432" if "i \<in> with_block k" for i
    using that s(3,4) used_block_small [of k "block_of k i"] by (auto simp: tree_ok_def blocks_ok_def)
  have "read_block k' (block_of k i) = read_block k (block_of k i)" if "i \<in> with_block k" for i
    using sync_metadata_blocks(5) [OF s(1,2) b [OF that]] s(5) by (simp add: read_block_def)
  moreover have "\<forall>c. length (disk k c) = 4096" using s(3) by (simp add: tree_ok_def maps_ok_def)
  then have "\<forall>c. length (disk k' c) = 4096" using sync_disk_lengths [OF s(1,2)] s(5) by simp
  ultimately show ?thesis using tree_ok_blocks [OF s(3) same(1-3)] by blast
qed

text \<open>A kernel whose data is as the program starts with it, and the same with the heap and the screen set up.\<close>

definition loaded :: "kernel \<Rightarrow> bool" where
  "loaded k \<longleftrightarrow> heap k = zero_allocator 1024 \<and> length (hmem k) = 4096 \<and> fd_bitmap k = [0] \<and> length (fd_entries k) = 32 \<and> length (sys_fds k) = 2 \<and>
     kbd k = zero_ring \<and> tty k = zero_terminal \<and> length (terminal_buffer (fst (screen k))) = 2048"

definition started :: "kernel \<Rightarrow> bool" where
  "started k \<longleftrightarrow> idle_heap k \<and> fd_bitmap k = [0] \<and> length (fd_entries k) = 32 \<and> length (sys_fds k) = 2 \<and> screen_ok (fst (screen k)) \<and> cursor (fst (screen k)) = 0"

lemma loaded_starts:
  assumes "loaded k"
  shows "\<exists>v. initialize_terminal (terminal_buffer (fst (screen k))) = Inr v \<and> started (k\<lparr>heap := (heap k)\<lparr>bottom := 4194304, active := True\<rparr>, screen := (v, t)\<rparr>) \<and> screen_ok v \<and>
    heap_ready (fresh_heap 4194304) 0"
proof -
  have f: "(heap k)\<lparr>bottom := 4194304, active := True\<rparr> = fresh_heap 4194304" using assms by (simp add: loaded_def fresh_heap_def)
  have h: "heap_inv (fresh_heap 4194304)" by (rule heap_inv_fresh) simp
  have l: "heap_live (fresh_heap 4194304) = (\<lambda>_. None)" using root_kernel_heap by (simp add: root_kernel_def)
  show ?thesis
    unfolding f using assms terminal_clear_blank [of "\<lparr>terminal_row = 0, terminal_column = 0, terminal_color = 0, terminal_buffer = terminal_buffer (fst (screen k))\<rparr>"] h l
    by (simp add: loaded_def initialize_terminal_def started_def idle_heap_def screen_ok_def cursor_def blank_def heap_ready_def)
qed

lemma mount_ok:
  assumes st: "stored w k dirs (disk kb)" and kb: "started kb"
  shows "\<exists>k'. initalize_file_system w kb False = Inr (True, k') \<and> global_super k' = global_super k \<and> global_ibmap k' = global_ibmap k \<and> global_dbmap k' = global_dbmap k \<and>
    global_inode_table k' = global_inode_table k \<and> table_tail k' = table_tail k \<and> disk k' = disk kb \<and> tree_ok k' dirs \<and> idle_heap k' \<and> sys_fds k' = [0, 1] \<and> length (fd_bitmap k') = 1 \<and>
    tty_fd0 k' \<and> kbd k' = kbd kb \<and> tty k' = tty kb \<and> screen_ok (fst (screen k')) \<and> terminal_row (fst (screen k')) \<le> 1 \<and> length (hmem k') = length (hmem kb)"
proof -
  let ?k0 = "kb\<lparr>global_super := global_super k\<rparr>"
  have b: "idle_heap kb" "fd_bitmap kb = [0]" "length (fd_entries kb) = 32" "length (sys_fds kb) = 2" "screen_ok (fst (screen kb))" "cursor (fst (screen kb)) = 0"
    using kb by (simp_all add: started_def)
  obtain dev t0 t1 where sp: "special_files k dirs dev t0 t1" "is_tty k t0" and ok: "metadata_ok k" "world_ok w" "tree_ok k dirs" and disk: "disk kb = disk (sync_metadata w k)"
    using st by (auto simp: stored_def sound_def)
  obtain s where s: "print w ''Disk Recognized\<newline>'' ?k0 = Inr (?k0\<lparr>screen := s\<rparr>)" "screen_ok (fst s)" "cursor (fst s) \<le> 95"
    using print_ok [of "''Disk Recognized\<newline>''" ?k0 w] b(5,6) by (auto simp: print_eval)
  let ?k1 = "?k0\<lparr>screen := s\<rparr>"
  let ?k2 = "?k1\<lparr>global_ibmap := global_ibmap k, global_dbmap := global_dbmap k, global_inode_table := global_inode_table k, table_tail := table_tail k\<rparr>"
  have k2: "load_metadata ?k1 = ?k2" using load_after_sync(2) [OF ok(1,2), of ?k1] disk by simp
  have tree: "tree_ok ?k2 dirs" by (rule stored_tree [OF st]) simp_all
  have "directories ?k2 = directories k" by (simp add: directories_def type_of_def)
  then have "special_files ?k2 dirs dev t0 t1" using sp(1) by (simp add: special_files_def leads_to_def)
  moreover have "idle_heap ?k2" using b(1) by (simp add: idle_heap_def)
  ultimately obtain k' where k': "open_system_files ?k2 = Inr k'" "tree_ok k' dirs" "idle_heap k'" "sys_fds k' = [0, 1]" "fd_entries k' ! 0 = new_descriptor (cstr_of ''tty'') t0 0"
      "length (fd_bitmap k') = 1" "length (fd_entries k') = 32" "length (hmem k') = length (hmem kb)"
    using open_system_files_ok [OF tree, of dev t0 t1] b(2-4) by auto
  have ss: "same_store ?k2 k'" by (rule open_system_files_keep [OF k'(1)])
  have t0: "t0 \<in> bm_used (global_ibmap k)" "t0 < 426" using tree_entry_used(1,2) [OF ok(3), of dev "cstr_of ''tty''" t0] sp(1) by (simp_all add: special_files_def)
  have "length (global_inode_table k) = 426" using ok(1) by (simp add: metadata_ok_def)
  then have "tty_fd0 k'" using ss k'(5,7) t0 sp(2) by (simp add: tty_fd0_def same_store_def new_descriptor_def is_tty_def type_of_def)
  moreover have "terminal_row (fst s) \<le> 1" using s(3) by (simp add: cursor_def)
  moreover have "initalize_file_system w kb False = Inr (True, k')" using mount_recognizes [OF ok(1,2) disk] s(1) k2 k'(1) by simp
  ultimately show ?thesis using k' ss s(2) by (intro exI [of _ k']) (simp add: same_store_def)
qed

section \<open>What the session shows\<close>

lemma fits_echo:
  assumes "10 \<notin> set tp" and "c + length line + length tp < 79"
  shows "fits (echo line tp @ rest) r (c + length line) = fits rest r (c + length (foldl edit line tp))"
  using assms
proof (induction tp arbitrary: line)
  case (Cons ch tp)
  show ?case
  proof (cases "ch = 8")
    case True
    have "fits (echo (edit line ch) tp @ rest) r (c + length (edit line ch)) = fits rest r (c + length (foldl edit (edit line ch) tp))"
      using Cons.prems True by (intro Cons.IH) (auto simp: edit_def)
    moreover have "edit line ch = butlast line" "c + length (butlast line) = c + length line - (if line = [] then 0 else 1)" using True by (cases line; simp add: edit_def)+
    ultimately show ?thesis using True by (cases "line = []") simp_all
  next
    case False
    have "fits (echo (edit line ch) tp @ rest) r (c + length (edit line ch)) = fits rest r (c + length (foldl edit (edit line ch) tp))"
      using Cons.prems False by (intro Cons.IH) (auto simp: edit_def)
    moreover have "edit line ch = line @ [ch]" using False by (simp add: edit_def)
    ultimately show ?thesis using False Cons.prems by simp
  qed
qed simp

lemma echo_plain: "10 \<notin> set tp \<Longrightarrow> line_count (echo line tp) = 0" "length (echo line tp) \<le> length tp"
  by (induction tp arbitrary: line) (auto simp: line_count_def intro: le_SucI)

lemma shown_fits:
  assumes "creating_keys verb ft cs nm tp tq n"
  shows "fits (cstr_of ''$ '' @ shown tp tq) 0 0" and "line_count (cstr_of ''$ '' @ shown tp tq) < 20" and "length (cstr_of ''$ '' @ shown tp tq) < 1024"
proof -
  have t: "10 \<notin> set tp" "10 \<notin> set tq" "length tp + length tq \<le> 61" using assms by (simp_all add: creating_keys_def)
  have p: "fits (cstr_of ''$ '' @ rest) r 0 = fits rest r 2" for r rest 
  proof -
    have "cstr_of ''$ '' = [36, 32]" by (simp add: cstr_of_def)
    moreover have "(2 :: nat) = 0 + 1 + 1" by simp
    ultimately show ?thesis by (simp only: append.simps fits.simps) simp
  qed
  have l: "length (foldl edit [] tp) \<le> 61" using length_foldl_edit [of "[]" tp] t(3) by simp
  have e1: "fits (echo [] tp @ rest) r 2 = fits rest r (2 + length (foldl edit [] tp))" for rest r using fits_echo [OF t(1), of 2 "[]"] t(3) by simp
  have e2: "fits (echo [] tq @ rest) r 2 = fits rest r (2 + length (foldl edit [] tq))" for rest r using fits_echo [OF t(2), of 2 "[]"] t(3) by simp
  have q: "prompt = 10 # cstr_of ''$ ''" by (simp add: prompt_def cstr_of_def)
  show "fits (cstr_of ''$ '' @ shown tp tq) 0 0" by (simp add: shown_def q p e1 e2)
  show "line_count (cstr_of ''$ '' @ shown tp tq) < 20" using echo_plain(1) t(1,2) by (simp add: shown_def prompt_def) (simp add: line_count_def cstr_of_def)
  show "length (cstr_of ''$ '' @ shown tp tq) < 1024" using echo_plain(2) [of "[]" tp] echo_plain(2) [of "[]" tq] t(3) by (simp add: shown_def prompt_def cstr_of_def)
qed

text \<open>Where the screen is when the shell has ended, so that shutting down can print.\<close>

lemma console_ends:
  assumes "console k []"
  shows "screen_ok (fst (screen k))" and "cursor (fst (screen k)) < 1680"
proof -
  have r: "screen_ok (fst (screen k))" "terminal_row (fst (screen k)) \<le> 20" using assms by (simp_all add: console_def tty_room_def)
  then show "screen_ok (fst (screen k))" "cursor (fst (screen k)) < 1680" by (simp_all add: cursor_def screen_ok_def)
qed

text \<open>The data of the files that are not the changed directory is untouched by creating a node and by shutting down.\<close>

lemma created_data_kept:
  assumes cr: "created k (dirs d) nm ft d i b k'" and ok: "tree_ok k dirs" "d \<in> directories k" and f: "f \<in> with_block k" "f \<noteq> d"
  shows "read_block k' (block_of k f) = read_block k (block_of k f)"
proof -
  have d: "d \<in> with_block k" using ok(2) directories_with_block by blast
  then have ne: "block_of k f \<noteq> block_of k d" using ok(1) f by (auto simp: tree_ok_def blocks_ok_def inj_on_def)
  have "block_of k f < 32768" "block_of k d < 32768" using ok(1) f(1) d used_block_small by (auto simp: tree_ok_def blocks_ok_def)
  then have "disk_block (block_of k f) \<noteq> disk_block (block_of k d)" using ne by (simp add: disk_block_def)
  then show ?thesis using cr by (simp add: created_def read_block_def block_of_def)
qed

lemma synced_data_kept:
  assumes so: "sound k dirs" "sound k' dirs'" "world_ok w" and new: "creatable k dirs cs nm d i b" and cr: "created k (dirs d) nm ft d i b k'" and f: "f \<in> with_block k" "f \<noteq> d"
  shows "block_of k' f = block_of k f" and "read_block (sync_metadata w k') (block_of k f) = read_block k (block_of k f)"
proof -
  have k: "tree_ok k dirs" "metadata_ok k'" "d \<in> directories k" using so(1,2) new by (simp_all add: sound_def creatable_def)
  have fb: "8 \<le> block_of k f" "block_of k f < 33554432" "f \<noteq> i" "i < 426" "d < 426" "length (global_inode_table k) = 426"
    using so(1) f(1) new used_block_small [of k "block_of k f"]
    by (auto simp: sound_def tree_ok_def blocks_ok_def with_block_def creatable_def least_free_def maps_ok_def directories_def)
  show "block_of k' f = block_of k f" using created_inodes(5) [OF cr _ _ fb(3)] fb(4-6) by simp
  show "read_block (sync_metadata w k') (block_of k f) = read_block k (block_of k f)"
    using sync_metadata_blocks(5) [OF k(2) so(3) fb(1,2)] created_data_kept [OF cr k(1,3) f] by simp
qed

text \<open>A kernel with the metadata of a stored disk, and that disk with one node more.\<close>

lemma stored_mounted:
  assumes st: "stored w k dirs dk" and tr: "tree_ok k' dirs"
    and same: "global_super k' = global_super k" "global_ibmap k' = global_ibmap k" "global_dbmap k' = global_dbmap k" "global_inode_table k' = global_inode_table k" "table_tail k' = table_tail k"
  shows "sound k' dirs" and "\<exists>dev t0 t1. special_files k' dirs dev t0 t1 \<and> is_tty k' t0"
proof -
  have eq: "directories k' = directories k" "with_block k' = with_block k" "block_of k' = block_of k" "type_of k' = type_of k"
    using same by (simp_all add: directories_def with_block_def type_of_def block_of_def fun_eq_iff)
  have s: "metadata_ok k" "{..< 8} \<subseteq> bm_used (global_dbmap k)" "\<forall>i \<in> with_block k. 8 \<le> block_of k i" and sp: "\<exists>dev t0 t1. special_files k dirs dev t0 t1 \<and> is_tty k t0"
    using st by (simp_all add: stored_def sound_def)
  show "sound k' dirs" using s tr same eq by (simp add: sound_def metadata_ok_def)
  show "\<exists>dev t0 t1. special_files k' dirs dev t0 t1 \<and> is_tty k' t0" using sp same eq by (simp add: special_files_def is_tty_def leads_to_def)
qed

lemma stored_created:
  assumes so: "sound k dirs" "\<exists>dev t0 t1. special_files k dirs dev t0 t1 \<and> is_tty k t0" "world_ok w"
    and new: "creatable k dirs cs nm d i b" and cr: "created k (dirs d) nm ft d i b k'" and lay: "same_layout k k'"
  shows "stored w k' (add_node dirs d nm i) (disk (sync_metadata w k'))"
proof -
  have "tree_ok k dirs" using so(1) by (simp add: sound_def)
  then show ?thesis using created_sound [OF so(1) new cr lay] created_special_files [OF _ new cr] so(2,3) unfolding stored_def by blast
qed

text \<open>The address space at boot: the tables of the boot code, with nothing mapped at the page the heap gets, and no page given out yet.\<close>

definition boot_space :: "mmu \<Rightarrow> bool" where
  "boot_space m \<longleftrightarrow> page_allocator m = zero_allocator 262144 \<and> tables_ok m {..< 1024} \<and> \<not> bit (dir_entry m 1) 0"

lemma stored_null_page [simp]: "stored (w\<lparr>null_page := p\<rparr>) k dirs dk = stored w k dirs dk"
  by (simp add: stored_def world_ok_def sync_metadata_def)

lemma start_space:
  assumes "boot_space m"
  shows "\<exists>m1. initialize_allocator m ka = Inr (m1, ka\<lparr>bottom := 4194304, active := True\<rparr>) \<and> paging_ok m1 \<and> (\<not> bit (dir_entry m 0) 0 \<longrightarrow> page_zero m1 = None)"
proof -
  obtain m1 e where m1: "initialize_allocator m ka = Inr (m1, ka\<lparr>bottom := 4194304, active := True\<rparr>)" "paging_ok m1" "mapped m 1 0 e m1"
    using initialize_allocator_ok [of m ka] assms by (auto simp: boot_space_def)
  have "page_zero m1 = None" if "\<not> bit (dir_entry m 0) 0"
  proof -
    have "\<not> present m1 0 0" using m1(3) that by (simp add: mapped_def present_def)
    then show ?thesis using walk_present [of m1 "bm_used (bitmap (page_allocator m1))" 0] m1(2) by (simp add: page_zero_def paging_ok_def dir_index_def tab_index_def)
  qed
  then show ?thesis using m1 by blast
qed

lemma format_disk_null:
  assumes "null_page w = None" and "global_ibmap k = replicate 1024 0" and "global_dbmap k = replicate 1024 0" and "length (global_inode_table k) = 426"
  shows "format_disk w k = Inl Null_deref"
proof -
  obtain r dbm where dbm: "alloc_bitrange (replicate 1024 0) MAP_CAPACITY (DATA_REGION_START + 1) False = Inr (r, dbm)" using alloc_metadata_blocks by blast
  show ?thesis unfolding format_disk_def Let_def using assms dbm by (simp add: rd_def wr_def)
qed

text \<open>Up to the shell: the heap, the screen, the mounted disk and the interrupts.\<close>

lemma main_to_shell:
  assumes m: "boot_space m" and mc: "boot_machine mc" and kb: "loaded kb" and st: "stored w k dirs (disk kb)"
  shows "\<exists>m1 mc1 w1 k1. main ln w x (m, mc, kb) =
      obind (shell w1 x (shift_pressed mc) k1) (\<lambda>(_, k2). obind (shutdown w1 k2) (\<lambda>k3. Inr (m1, mc1, k3))) \<and>
    paging_ok m1 \<and> irq_routines mc1 = installed_routines \<and> w1 = w\<lparr>null_page := page_zero m1\<rparr> \<and>
    global_super k1 = global_super k \<and> global_ibmap k1 = global_ibmap k \<and> global_dbmap k1 = global_dbmap k \<and> global_inode_table k1 = global_inode_table k \<and> table_tail k1 = table_tail k \<and>
    disk k1 = disk kb \<and> tree_ok k1 dirs \<and> idle_heap k1 \<and> length (hmem k1) = 4096 \<and> sys_fds k1 = [0, 1] \<and> length (fd_bitmap k1) = 1 \<and> tty_fd0 k1 \<and> kbd k1 = zero_ring \<and>
    tty k1 = zero_terminal \<and> screen_ok (fst (screen k1)) \<and> terminal_row (fst (screen k1)) \<le> 1"
proof -
  obtain m1 where m1: "initialize_allocator m (heap kb) = Inr (m1, (heap kb)\<lparr>bottom := 4194304, active := True\<rparr>)" "paging_ok m1"
    using start_space [OF m] by blast
  let ?w = "w\<lparr>null_page := page_zero m1\<rparr>"
  obtain v where v: "initialize_terminal (terminal_buffer (fst (screen kb))) = Inr v"
      "started (kb\<lparr>heap := (heap kb)\<lparr>bottom := 4194304, active := True\<rparr>, screen := (v, snd (screen kb))\<rparr>)"
    using loaded_starts [OF kb] by blast
  let ?k0 = "kb\<lparr>heap := (heap kb)\<lparr>bottom := 4194304, active := True\<rparr>, screen := (v, snd (screen kb))\<rparr>"
  have "stored ?w k dirs (disk ?k0)" using st by simp
  from mount_ok [OF this v(2)] obtain k' where k': "initalize_file_system ?w ?k0 False = Inr (True, k')"
      "global_super k' = global_super k" "global_ibmap k' = global_ibmap k" "global_dbmap k' = global_dbmap k" "global_inode_table k' = global_inode_table k" "table_tail k' = table_tail k"
      "disk k' = disk kb" "tree_ok k' dirs" "idle_heap k'" "sys_fds k' = [0, 1]" "length (fd_bitmap k') = 1" "tty_fd0 k'" "kbd k' = kbd kb" "tty k' = tty kb"
      "screen_ok (fst (screen k'))" "terminal_row (fst (screen k')) \<le> 1" "length (hmem k') = length (hmem kb)"
    by auto
  have lh: "length (hmem k') = 4096" using k'(17) kb by (simp add: loaded_def)
  let ?mc = "mc\<lparr>keyboard_input_buffer := kbd k', ports := snd (screen k')\<rparr>"
  have "boot_machine ?mc" using mc by (simp add: boot_machine_def)
  then obtain mc1 where mc1: "install_interrupts ln ?mc = Inr mc1" "irq_routines mc1 = installed_routines" "keyboard_input_buffer mc1 = kbd k'" "shift_pressed mc1 = shift_pressed mc"
    using install_interrupts_result [of ?mc ln] by auto
  let ?k1 = "k'\<lparr>kbd := kbd k', screen := (fst (screen k'), ports mc1)\<rparr>"
  have "main ln w x (m, mc, kb) = obind (shell ?w x (shift_pressed mc) ?k1) (\<lambda>(_, k2). obind (shutdown ?w k2) (\<lambda>k3. Inr (m1, mc1, k3)))"
    using m1(1) v(1) k'(1) mc1 by (simp add: main_def Let_def)
  moreover have "tree_ok ?k1 dirs" using k'(8) tree_ok_cong [of ?k1 k'] by simp
  moreover have "tty_fd0 ?k1" "idle_heap ?k1" using k'(9,12) by (simp_all add: tty_fd0_def idle_heap_def)
  moreover have "kbd kb = zero_ring" "tty kb = zero_terminal" using kb by (simp_all add: loaded_def)
  ultimately show ?thesis using m1(2) mc1(2) k' lh by (intro exI [of _ m1] exI [of _ mc1] exI [of _ ?w] exI [of _ ?k1]) simp
qed

section \<open>A disk for the instances\<close>

text \<open>One more node on the way to a disk with the special files.\<close>

lemma sound_stage_create:
  assumes st: "stage k dirs n m" "n < 426" "m < 30000" "sound k dirs" and d: "leads_to k dirs cs d" "d \<in> directories k" "length (dirs d) < 113"
    and names: "\<forall>x \<in> set cs. comp_ok x" "comp_ok nm" "map_of (dirs d) nm = None" "length (join_path cs @ nm) \<le> 27"
  shows "\<exists>k'. created k (dirs d) nm ft d n m k' \<and> stage k' (add_node dirs d nm n) (n + 1) (if ft = 2 then m else m + 1) \<and> sound k' (add_node dirs d nm n) \<and>
    leads_to k' (add_node dirs d nm n) (cs @ [nm]) n \<and> leads_to k' (add_node dirs d nm n) cs d \<and> type_of k' n = ft \<and> (\<forall>j < n. type_of k' j = type_of k j)"
proof -
  let ?p = "47 # join_path cs @ nm"
  have z: "0 \<notin> set ?p" using names(1,2) join_path_chars [of cs] by (auto simp: comp_ok_def name_ok_def)
  have path: "cstr_at (?p @ [0]) 0 ?p" using cstr_at_def z by (auto simp: nth_append)
  have tr: "tree_ok k dirs" "bm_used (global_ibmap k) = {..< n}" "bm_used (global_dbmap k) = {..< m}" "idle_heap k" using st(1) by (simp_all add: stage_def)
  have len: "length (global_ibmap k) = 1024" "length (global_dbmap k) = 1024" using tr(1) by (simp_all add: tree_ok_def maps_ok_def bm_inv_def)
  have new: "creatable k dirs cs nm d n m" using d names st(2,3) tr(2,3) len by (simp add: creatable_def least_free_def)
  obtain k' where k': "create_filetype k (?p @ [0]) 0 ft False = Inr (0, k')" "stage k' (add_node dirs d nm n) (n + 1) (if ft = 2 then m else m + 1)"
      "leads_to k' (add_node dirs d nm n) (cs @ [nm]) n" "leads_to k' (add_node dirs d nm n) cs d" "type_of k' n = ft" "\<forall>j < n. type_of k' j = type_of k j"
    using stage_create [OF st(1-3) d names(1-3) path, of ft] names(4) by auto
  have arg: "path_arg k (?p @ [0]) 0 ?p" by (rule idle_heap_arg [OF tr(4) path]) (use names(4) in simp)
  have cr: "created k (dirs d) nm ft d n m k'" using create_nofd_in_tree [OF tr(1) new arg, of ft] k'(1) by auto
  have "sound k' (add_node dirs d nm n)" by (rule created_sound [OF st(4) new cr create_filetype_layout [OF k'(1)]])
  then show ?thesis using cr k'(2-6) by blast
qed

text \<open>The tree of a freshly formatted disk, in a kernel that may be shut down.\<close>

lemma sample_disk:
  obtains k where "stored roomy_world k dev_tree (disk (sync_metadata roomy_world k))" and "creatable k dev_tree [] [97] 0 4 10"
proof -
  have n: "comp_ok [97]" "join_path [] = []" "join_path [cstr_of ''dev''] = cstr_of ''dev'' @ [47]" by (simp_all add: comp_ok_def name_ok_def join_path_def)
  have r: "type_of root_kernel 0 = 0" "block_of root_kernel 0 = 8" by (simp_all add: type_of_def block_of_def root_kernel_def root_inode_def zero_inode_def)
  have "with_block root_kernel = {0}" unfolding with_block_def root_kernel_maps(1) using r(1) by auto
  then have s0: "sound root_kernel (\<lambda>_. [])" using root_kernel_metadata(1) root_kernel_tree root_kernel_maps(2) r(2) by (auto simp: sound_def)
  have "idle_heap root_kernel" using root_kernel_heap by (simp add: idle_heap_def root_kernel_def)
  then have st0: "stage root_kernel (\<lambda>_. []) 1 9" using root_kernel_tree root_kernel_maps by (simp add: stage_def lessThan_Suc)
  have d0: "leads_to root_kernel (\<lambda>_. []) [] 0" "0 \<in> directories root_kernel" using root_kernel_tree by (simp_all add: leads_to_def tree_ok_def)
  let ?d1 = "add_node (\<lambda>_. []) 0 (cstr_of ''dev'') 1" let ?d2 = "add_node ?d1 1 (cstr_of ''tty'') 2"
  obtain k1 where k1: "stage k1 ?d1 2 10" "sound k1 ?d1" "leads_to k1 ?d1 [cstr_of ''dev''] 1" "type_of k1 1 = 0"
    using sound_stage_create [OF st0 _ _ s0 d0, of "cstr_of ''dev''" 0] dev_names n by (auto simp: numeral_2_eq_2)
  have "1 \<in> directories k1" using stage_directory [OF k1(1)] k1(4) by simp
  then obtain k2 where k2: "created k1 (?d1 1) (cstr_of ''tty'') 2 1 2 10 k2" "stage k2 ?d2 3 10" "sound k2 ?d2" "leads_to k2 ?d2 [cstr_of ''dev''] 1" "type_of k2 2 = 2" "\<forall>j < 2. type_of k2 j = type_of k1 j"
    using sound_stage_create [OF k1(1) _ _ k1(2,3), of "cstr_of ''tty''" 2] dev_names n by (auto simp: add_node_def)
  have "1 \<in> directories k2" using stage_directory [OF k2(2)] k1(4) k2(6) by simp
  then obtain k3 where k3: "created k2 (?d2 1) (cstr_of ''ttyS'') 2 1 3 10 k3" "stage k3 dev_tree 4 10" "sound k3 dev_tree" "leads_to k3 dev_tree [cstr_of ''dev''] 1" "\<forall>j < 3. type_of k3 j = type_of k2 j"
    using sound_stage_create [OF k2(2) _ _ k2(3,4), of "cstr_of ''ttyS''" 2] dev_names n by (auto simp: add_node_def dev_tree_def)
  have dev: "1 \<in> directories k3" using stage_directory [OF k3(2)] k1(4) k2(6) k3(5) by simp
  have l: "length (global_inode_table k1) = 426" "length (global_inode_table k2) = 426" using k1(2) k2(3) by (simp_all add: sound_def metadata_ok_def)
  have "global_inode_table k3 ! 2 = new_inode (cstr_of ''tty'') 2 10 1" using k2(1) k3(1) l by (simp add: created_def)
  then have t: "is_tty k3 2" by (simp add: is_tty_def type_of_def new_inode_def cstr_at_def overlay_def cstr_of_def)
  have sp: "special_files k3 dev_tree 1 2 3" using k3(4) dev dev_names(7) by (simp add: special_files_def dev_tree_def add_node_def)
  have len: "length (global_ibmap k3) = 1024" "length (global_dbmap k3) = 1024" "0 \<in> directories k3" "bm_used (global_ibmap k3) = {..< 4}" "bm_used (global_dbmap k3) = {..< 10}"
    using k3(2,3) by (simp_all add: sound_def metadata_ok_def stage_def tree_ok_def)
  have "creatable k3 dev_tree [] [97] 0 4 10"
    using len n(1) by (simp add: creatable_def leads_to_def least_free_def dev_tree_def add_node_def cstr_of_def)
  moreover have "world_ok roomy_world" using root_kernel_metadata(2) by (simp add: world_ok_def roomy_world_def)
  ultimately show thesis using that [of k3] k3(3) sp t unfolding stored_def by blast
qed

section \<open>Properties\<close>

text \<open>C1: What is typed survives the power switch. Booted with a disk an earlier session left, in which the special files are, \<open>main\<close> sets up memory, the
  screen and the interrupts, mounts the disk and runs the shell; when the keys typed are a line that edits to \<open>touch\<close> or \<open>mkdir\<close> with the path of a new
  name in an existing directory, and then \<open>exit\<close>, it returns, and the disk is again one a session left: its tree is the old one with exactly the new
  node added, every path leads where it led, and the data of every other file is what it was. The new disk can be booted in turn.\<close>

theorem session_survives_reboot:
  assumes m: "boot_space m" and mc: "boot_machine mc" and kb: "loaded kb" and st: "stored w k dirs (disk kb)"
    and new: "creatable k dirs cs nm d i b" and t: "creating_keys verb ft cs nm tp tq n"
    and keys: "typed (shift_pressed mc) (key_events x 0) = tp @ [10] @ tq @ [10]" "\<forall>j \<ge> 1. key_events x j = []" and j: "length (junk (env w) 1) = 1"
  shows "\<exists>m' mc' k' k1. main ln w x (m, mc, kb) = Inr (m', mc', k') \<and> stored w k1 (add_node dirs d nm i) (disk k') \<and>
    leads_to k1 (add_node dirs d nm i) (cs @ [nm]) i \<and> type_of k1 i = ft \<and> (\<forall>cs' l. leads_to k dirs cs' l \<longrightarrow> leads_to k1 (add_node dirs d nm i) cs' l) \<and>
    (\<forall>f \<in> with_block k. f \<noteq> d \<longrightarrow> block_of k1 f = block_of k f \<and> read_block k' (block_of k f) = read_block kb (block_of k f))"
proof -
  obtain m1 mc1 w1 k1 where r: "main ln w x (m, mc, kb) = obind (shell w1 x (shift_pressed mc) k1) (\<lambda>(_, k2). obind (shutdown w1 k2) (\<lambda>k3. Inr (m1, mc1, k3)))"
    and w1: "w1 = w\<lparr>null_page := page_zero m1\<rparr>" and
    k1: "global_super k1 = global_super k" "global_ibmap k1 = global_ibmap k" "global_dbmap k1 = global_dbmap k" "global_inode_table k1 = global_inode_table k" "table_tail k1 = table_tail k"
      "disk k1 = disk kb" "tree_ok k1 dirs" "idle_heap k1" "length (hmem k1) = 4096" "sys_fds k1 = [0, 1]" "length (fd_bitmap k1) = 1" "tty_fd0 k1" "kbd k1 = zero_ring"
      "tty k1 = zero_terminal" "screen_ok (fst (screen k1))" "terminal_row (fst (screen k1)) \<le> 1"
    using main_to_shell [OF m mc kb st, of ln x] by auto
  have c: "console k1 (cstr_of ''$ '' @ shown tp tq)"
    using console_sample [OF k1(12,14,15,16) shown_fits [OF t], of "kbd k1"] by simp
  have eq: "directories k1 = directories k" "with_block k1 = with_block k" "block_of k1 = block_of k" "type_of k1 = type_of k" using k1(2,4) by (simp_all add: directories_def with_block_def type_of_def block_of_def fun_eq_iff)
  have new1: "creatable k1 dirs cs nm d i b" using new k1(2,3) eq(1) by (simp add: creatable_def leads_to_def)
  have h: "heap_ready (heap k1) 0" "heap_live (heap k1) = (\<lambda>_. None)" using k1(8) by (simp_all add: idle_heap_def heap_ready_def)
  obtain k2 where k2: "shell w1 x (shift_pressed mc) k1 = Inr (0, k2)" "created k1 (dirs d) nm ft d i b k2" "same_layout k1 k2" "fd_bitmap k2 = fd_bitmap k1" "console k2 []"
    using shell_creates_exits [OF c _ _ keys t k1(7) new1 h k1(9), of w1] k1(13) j w1 by auto
  have "sys_fds k2 = [int 0, int 1]" using k2(2) k1(10) by (simp add: created_def)
  from shutdown_ok [OF console_ends [OF k2(5)] this, of w1] obtain s bm where sd: "shutdown w1 k2 = Inr (sync_metadata w1 (k2\<lparr>fd_bitmap := bm, screen := s\<rparr>))"
    using k2(4) k1(11) by auto
  let ?k3 = "k2\<lparr>fd_bitmap := bm, screen := s\<rparr>" and ?dirs = "add_node dirs d nm i"
  have cr: "created k1 (dirs d) nm ft d i b ?k3" using created_cong [OF k2(2)] by simp
  have w: "world_ok w1" "sync_metadata w1 = sync_metadata w" using st w1 by (simp_all add: stored_def world_ok_def sync_metadata_def fun_eq_iff)
  note so = stored_mounted [OF st k1(7,1-5)]
  have stored: "stored w1 ?k3 ?dirs (disk (sync_metadata w1 ?k3))" using stored_created [OF so w(1) new1 cr] k2(3) by (simp add: same_layout_def)
  then have "sound ?k3 ?dirs" by (simp add: stored_def)
  note D = synced_data_kept [OF so(1) this w(1) new1 cr]
  have data: "block_of ?k3 f = block_of k f \<and> read_block (sync_metadata w1 ?k3) (block_of k f) = read_block kb (block_of k f)" if "f \<in> with_block k" "f \<noteq> d" for f
    using D [of f] that eq(2,3) k1(6) by (simp add: read_block_def)
  note T = created_in_tree [OF k1(7) new1 cr]
  have "leads_to ?k3 ?dirs cs' l" if "leads_to k dirs cs' l" for cs' l using T(4) that eq(1) by (simp add: leads_to_def)
  then show ?thesis using r k2(1) sd stored w1 T(2,3) data
    by (intro exI [of _ m1] exI [of _ mc1] exI [of _ "sync_metadata w1 ?k3"] exI [of _ ?k3]) simp
qed

text \<open>For the instance: the scancodes of \<open>touch /a\<close> and \<open>exit\<close>, each with the enter key.\<close>

definition sample_scancodes :: "u8 list" where
  "sample_scancodes = [0x14, 0x18, 0x16, 0x2E, 0x23, 0x39, 0x35, 0x1E, 0x1C, 0x12, 0x2D, 0x17, 0x14, 0x1C]"

definition typing_outside :: outside where
  "typing_outside = sample_outside\<lparr>key_events := (\<lambda>i. if i = 0 then sample_scancodes else [])\<rparr>"

lemma typed_plain:
  assumes "\<not> bit sc 7" and "sc \<noteq> 0x2A" and "sc \<noteq> 0x36" and "scancode_to_ascii ! unat sc = c" and "c \<noteq> 0"
  shows "typed False (sc # scs) = c # typed False scs"
  using assms by (simp add: decode_def)

lemma sample_typed: "typed False sample_scancodes = cstr_of ''touch /a'' @ [10] @ cstr_of ''exit'' @ [10]"
proof -
  have k: "scancode_to_ascii ! 20 = 116" "scancode_to_ascii ! 24 = 111" "scancode_to_ascii ! 22 = 117" "scancode_to_ascii ! 46 = 99" "scancode_to_ascii ! 35 = 104" "scancode_to_ascii ! 57 = 32"
      "scancode_to_ascii ! 53 = 47" "scancode_to_ascii ! 30 = 97" "scancode_to_ascii ! 28 = 10" "scancode_to_ascii ! 18 = 101" "scancode_to_ascii ! 45 = 120" "scancode_to_ascii ! 23 = 105"
    by (simp_all add: scancode_to_ascii_def)
  show ?thesis by (simp add: sample_scancodes_def typed_plain k cstr_of_def del: typed.simps(2))
qed

definition loaded_kernel :: "(nat \<Rightarrow> u8 list) \<Rightarrow> kernel" where
  "loaded_kernel dk = root_kernel\<lparr>heap := zero_allocator 1024, disk := dk\<rparr>"

definition blank_kernel :: kernel where
  "blank_kernel = boot_kernel\<lparr>heap := zero_allocator 1024\<rparr>"

lemma boot_mmu_space: "boot_space boot_mmu"
proof -
  have "page_allocator boot_mmu = zero_allocator 262144" "\<not> bit (dir_entry boot_mmu 1) 0" unfolding boot_mmu_dir by (simp_all add: boot_mmu_def)
  then show ?thesis using boot_mmu_tables by (simp add: boot_space_def)
qed

theorem session_survives_reboot_witness:
  "\<exists>kb k m' mc' k' k1. stored roomy_world k dev_tree (disk kb) \<and> main sample_linker roomy_world typing_outside (boot_mmu, sample_machine, kb) = Inr (m', mc', k') \<and>
     stored roomy_world k1 (add_node dev_tree 0 [97] 4) (disk k') \<and> type_of k1 4 = FILE_TYPE_NORMAL"
proof -
  obtain k where k: "stored roomy_world k dev_tree (disk (sync_metadata roomy_world k))" "creatable k dev_tree [] [97] 0 4 10" by (rule sample_disk)
  let ?kb = "loaded_kernel (disk (sync_metadata roomy_world k))"
  have mc: "boot_machine sample_machine" by (simp add: boot_machine_def sample_machine_def)
  have kb: "loaded ?kb" by (simp add: loaded_def loaded_kernel_def) (simp add: root_kernel_def)
  have st: "stored roomy_world k dev_tree (disk ?kb)" using k(1) by (simp add: loaded_kernel_def)
  have t: "creating_keys ''touch'' FILE_TYPE_NORMAL [] [97] (cstr_of ''touch /a'') (cstr_of ''exit'') 12"
    by (simp add: creating_keys_def cstr_of_def edit_def join_path_def)
  have keys: "typed (shift_pressed sample_machine) (key_events typing_outside 0) = cstr_of ''touch /a'' @ [10] @ cstr_of ''exit'' @ [10]" "\<forall>j \<ge> 1. key_events typing_outside j = []"
    using sample_typed by (simp_all add: sample_machine_def typing_outside_def)
  show ?thesis using session_survives_reboot [OF boot_mmu_space mc kb st k(2) t keys roomy_junk, of sample_linker] st by blast
qed

text \<open>C32: The first boot fails. With the tables the boot code leaves, in which nothing is mapped at address 0, and a disk that is not recognised, \<open>main\<close> starts to
  format and faults on the null pointer it takes the empty root directory from; it gets neither to the interrupts nor to the shell, whatever is typed. A disk has to be
  formatted by other means before the kernel can be used.\<close>

theorem first_boot_faults:
  assumes m: "boot_space m" "\<not> bit (dir_entry m 0) 0" and kb: "loaded kb"
    and zero: "global_ibmap kb = replicate 1024 0" "global_dbmap kb = replicate 1024 0" "length (global_inode_table kb) = 426"
    and disk: "cstr_at (format_indicator (bytes_super (take 512 (read_block kb 0)))) 0 mark" "mark \<noteq> cstr_of ''Yorha''"
  shows "main ln w x (m, mc, kb) = Inl Null_deref"
proof -
  obtain m1 where m1: "initialize_allocator m (heap kb) = Inr (m1, (heap kb)\<lparr>bottom := 4194304, active := True\<rparr>)" "page_zero m1 = None"
    using start_space [OF m(1)] m(2) by blast
  obtain v where v: "initialize_terminal (terminal_buffer (fst (screen kb))) = Inr v"
      "started (kb\<lparr>heap := (heap kb)\<lparr>bottom := 4194304, active := True\<rparr>, screen := (v, snd (screen kb))\<rparr>)"
    using loaded_starts [OF kb] by blast
  let ?w = "w\<lparr>null_page := None\<rparr>" and ?k = "kb\<lparr>heap := (heap kb)\<lparr>bottom := 4194304, active := True\<rparr>, screen := (v, snd (screen kb))\<rparr>"
  let ?q = "?k\<lparr>global_super := bytes_super (take 512 (read_block kb 0))\<rparr>"
  have "screen_ok (fst (screen ?q))" "cursor (fst (screen ?q)) = 0" using v(2) by (simp_all add: started_def)
  then obtain s where s: "print ?w ''Formatting Disk...\<newline>'' ?q = Inr (?q\<lparr>screen := s\<rparr>)"
    using print_ok [of "''Formatting Disk...\<newline>''" ?q ?w] by (auto simp: print_eval)
  have "format_disk ?w (?q\<lparr>screen := s\<rparr>) = Inl Null_deref" by (rule format_disk_null) (use zero in simp_all)
  moreover have "read_block ?k 0 = read_block kb 0" by (simp add: read_block_def)
  moreover have "cstr_at (cstr_of ''Yorha'' @ [0]) 0 (cstr_of ''Yorha'')" by (simp add: cstring_eval)
  then obtain r where "strcmp (format_indicator (bytes_super (take 512 (read_block kb 0)))) 0 (cstr_of ''Yorha'' @ [0]) 0 = Inr r" "r \<noteq> 0"
    using strcmp_cstr [OF disk(1)] disk(2) by blast
  ultimately have "initalize_file_system ?w ?k False = Inl Null_deref" using s by (simp add: initalize_file_system_def Let_def)
  then show ?thesis using m1 v(1) by (simp add: main_def Let_def)
qed

theorem first_boot_faults_witness: "main sample_linker boot_world typing_outside (boot_mmu, sample_machine, blank_kernel) = Inl Null_deref"
proof -
  have "\<not> bit (dir_entry boot_mmu 0) 0" unfolding boot_mmu_dir by simp
  moreover have "loaded blank_kernel" "global_ibmap blank_kernel = replicate 1024 0" "global_dbmap blank_kernel = replicate 1024 0" "length (global_inode_table blank_kernel) = 426"
    by (simp_all add: blank_kernel_def loaded_def boot_kernel_def) (simp_all add: root_kernel_def)
  moreover have "cstr_at (format_indicator (bytes_super (take 512 (read_block blank_kernel 0)))) 0 []" "[] \<noteq> cstr_of ''Yorha''"
    by (simp_all add: blank_kernel_def boot_kernel_def read_block_def bytes_super_def cstr_of_def) (simp add: root_kernel_def cstr_at_def)
  ultimately show ?thesis using first_boot_faults [OF boot_mmu_space, of blank_kernel "[]"] by simp
qed

end
