(* ===== verification/Spec2Isabelle.thy ===== *)
theory Spec2Isabelle
  imports Bitmap CString Heap Ports Input Console Format Fs_Base Fs Fs_Tree Fs_Mount Interrupts Ata Paging Fs_Disk Dyn_String
    Shell Shell_Run Shell_Commands Listing Removing Boot
begin

text \<open>
  YoRHa is a small kernel for 32-bit x86: a page and a heap allocator on bitmaps, recursive page tables, segment and interrupt
  tables, drivers for the keyboard, the serial port, the timer, the text screen and an ATA disk, a file system with directories and
  special files, and a shell. The theories below model the C sources under \<open>src/src\<close> and \<open>src/include\<close> and prove what
  makes each part correct, or exactly where it is not.

  \<^bold>\<open>Conventions.\<close> (\<open>Yorha_Prelude\<close>) A C array is the list of its cells and every access is checked: outside it the
  operation ends in \<open>Inl Out_of_bounds\<close>. \<open>panic\<close> halts the machine and is \<open>Inl (Panic msg)\<close>; \<open>obind\<close> sequences fallible
  operations and stops at the first fault. 32-bit sizes and counters are \<open>nat\<close> with the wrap-around \<open>w32\<close> written where the code
  can reach it, register and bitmap words are \<open>32 word\<close>, bytes \<open>8 word\<close>. State is passed explicitly, globals as the fields of
  the records \<open>kernel\<close> (file system, heap, console), \<open>machine\<close> (descriptor tables, interrupt state) and \<open>mmu\<close> (page tables).
  What is not in the sources is a parameter: \<open>hardware\<close> (what a port reads, as a function of all accesses before), \<open>environ\<close> (how
  large the compiler makes a run-time array and what fresh arrays hold), \<open>world\<close> (both, and the bytes next to the metadata
  arrays), \<open>linker\<close> (addresses of the assembly stubs and the tables).

  \<^bold>\<open>The theories.\<close>
  \<^item> \<open>Bitmap\<close>: \<open>util.c\<close>. The word-wise \<open>apply_bitrange\<close> sets or clears exactly a range; \<open>alloc_bitrange\<close> is a first-fit
    search (interface \<open>range_allocator\<close>, used by the heap, the page allocator and the file system).
  \<^item> \<open>CString\<close>: \<open>string.c\<close> on checked arrays: copies, comparison, numbers to text.
  \<^item> \<open>Heap\<close>: \<open>kmalloc\<close>, \<open>kfree\<close>, \<open>kcalloc\<close>, \<open>krealloc\<close>, \<open>allocate_page\<close>, \<open>free_page\<close> of \<open>alloc.c\<close>. The table of entries and the
    bitmap agree (\<open>heap_inv\<close>), the blocks in use are the map \<open>heap_live\<close>, and no two of them overlap.
  \<^item> \<open>Dyn_String\<close>: the macro \<open>APPEND\<close>, \<open>concat\<close>, \<open>string_split\<close> and the freeing of strings of \<open>alloc.c\<close>, byte by byte on that heap.
  \<^item> \<open>Ports\<close>, \<open>Input\<close>: port accesses as a trace, \<open>serial.c\<close>, the timer and the keyboard of \<open>io.c\<close>; interrupts and reads in any
    interleaving deliver the typed text in order.
  \<^item> \<open>Console\<close>, \<open>Format\<close>: \<open>vga.c\<close> and \<open>tty.c\<close>: the screen as a function of the text written, and \<open>kprintf\<close> and \<open>fmt\<close>.
  \<^item> \<open>Interrupts\<close>: \<open>interrupts.c\<close> and the set-up calls of \<open>main\<close>: descriptors as the processor reads them, the gates of all 256
    vectors, and that every hardware interrupt is served and acknowledged, unless a serial one waits for a line that stays silent.
  \<^item> \<open>Paging\<close>: \<open>paging.c\<close> and \<open>initialize_allocator\<close>: tables seen through the recursive entry, against the translation of the processor.
  \<^item> \<open>Ata\<close>: \<open>ata.c\<close> against a drive that keeps the documented protocol (\<open>compliant\<close>).
  \<^item> \<open>Fs_Base\<close>, \<open>Fs\<close>, \<open>Fs_Tree\<close>, \<open>Fs_Mount\<close>: \<open>fs.c\<close> and \<open>file_handlers.c\<close>. \<open>Fs_Base\<close> has directory blocks and paths, \<open>Fs\<close> the operations on
    files and descriptors, \<open>Fs_Tree\<close> the abstract tree the disk represents (\<open>tree_ok\<close>) and its refinement by \<open>create\<close>, \<open>unlink\<close>,
    \<open>open\<close> and \<open>write\<close>, \<open>Fs_Mount\<close> the metadata on disk, formatting, mounting and shutting down.
  \<^item> \<open>Fs_Disk\<close>: the block transfers the file system model makes in one step are what the driver of \<open>Ata\<close> does on a compliant drive.
  \<^item> \<open>Shell\<close>: \<open>kernel.c\<close>: the commands (\<open>ls\<close>, \<open>cat\<close>, \<open>echo\<close>, \<open>touch\<close>, \<open>rm\<close>, \<open>mkdir\<close>, \<open>stat\<close>, \<open>sget\<close>, \<open>run\<close>), \<open>sleep\<close> and the loop of the shell with its
    parser, redirection and dispatcher. What comes from outside is the record \<open>outside\<close>.
  \<^item> \<open>Shell_Run\<close>: sessions, from the scan of the keyboard's buffer to the disk: the line editor, \<open>touch\<close> and \<open>mkdir\<close>, \<open>exit\<close>.
  \<^item> \<open>Shell_Commands\<close>: \<open>cat\<close> shows a file, and reads its own output when that is redirected; \<open>sget\<close> times out on a silent line and never completes; how long \<open>sleep\<close> waits.
  \<^item> \<open>Listing\<close>: the text \<open>str_list_dir\<close> builds for a directory of the tree, and \<open>ls\<close>, which shows it on the terminal; the block has 32 bytes for
    each entry and a longer listing leaves it.
  \<^item> \<open>Removing\<close>: \<open>rm\<close>, from the keyboard's buffer to the disk. \<open>unlink\<close> writes one byte past the array it declares (\<open>vla\<close> of \<open>environ\<close> is the memory set aside for it): with exactly
    the declared bytes \<open>rm\<close> ends in a fault; with a spare byte, after \<open>touch\<close> and \<open>rm\<close> of the same path everything is as it was (\<open>restored\<close>). The theorems on \<open>unlink\<close> in \<open>Fs_Tree\<close> state both
    outcomes too.
  \<^item> \<open>Boot\<close>: \<open>main\<close> and the handler of the system call: all components put together. A session from the power switch to the shutdown and the disk
    it leaves for the next one; the first boot, which fails.

  \<^bold>\<open>Loops.\<close> Loops over arrays are functions with a termination proof. A loop that polls a device is a \<open>while_option\<close>; \<open>None\<close> is the
  device that never answers. A loop the code cannot leave is the fault \<open>Diverges\<close>, and
  so is a loop of the commands or of the shell that never ends (\<open>loop_res\<close>): that one returns is a theorem about it.

  \<^bold>\<open>Not modelled.\<close> The assembly of \<open>boot.s\<close> (entry, the interrupt stubs: their addresses are parameters), the inline assembly of \<open>syscall\<close>, the test routines of
  \<open>tests.c\<close>, the translation buffer, and interrupts inside an operation: the keyboard is served between two rounds
  of the shell, also when a command reads \<open>/dev/tty\<close> itself. \<open>compliant\<close> is a drive without errors that answers every address. The disk's contents after a
  fault are not part of a fault's value. The other lines of the sources are declarations, comments and constants no code uses.
\<close>

end
